(* ===== verification/OF_Prelude.thy ===== *)
theory OF_Prelude
  imports Main "HOL-Library.Word" "HOL-Library.Sublist"
begin

text \<open>
  Shared vocabulary of the development: the machine integers of the C sources, the
  OpenFlow error values, the theorem collections, and the generic lemmas on lists that
  several components use.  Nothing in this theory is specific to one component.
\<close>

section \<open>Machine integers\<close>

type_synonym u8 = "8 word"
type_synonym u16 = "16 word"
type_synonym u32 = "32 word"
type_synonym u64 = "64 word"

type_synonym byte = u8

text \<open>Addresses of heap objects (list nodes, flow entries, table elements).\<close>

type_synonym addr = nat

section \<open>Theorem collections\<close>

named_theorems ptr_simps \<open>equations of pointer operations\<close>
named_theorems inv_intros \<open>preservation of component invariants\<close>
named_theorems frame_simps \<open>fields an operation leaves alone\<close>

section \<open>Insertion before the first element that satisfies a predicate\<close>

text \<open>
  The intrusive lists of the switch are filled by one idiom: walk the list, stop at the
  first element that satisfies a condition and insert in front of it, or insert at the
  end when no element does.
\<close>

fun insert_before :: "('a \<Rightarrow> bool) \<Rightarrow> 'a \<Rightarrow> 'a list \<Rightarrow> 'a list" where
  "insert_before P x [] = [x]"
| "insert_before P x (y # ys) = (if P y then x # y # ys else y # insert_before P x ys)"

lemma insert_before_split:
  "insert_before P x xs = takeWhile (\<lambda>y. \<not> P y) xs @ x # dropWhile (\<lambda>y. \<not> P y) xs"
  by (induction xs) auto

lemma set_insert_before [simp]: "set (insert_before P x xs) = insert x (set xs)"
  by (induction xs) auto

lemma length_insert_before [simp]: "length (insert_before P x xs) = Suc (length xs)"
  by (induction xs) auto

lemma distinct_insert_before [simp]:
  "distinct (insert_before P x xs) \<longleftrightarrow> x \<notin> set xs \<and> distinct xs"
  by (induction xs) auto

lemma filter_insert_before:
  "\<not> Q x \<Longrightarrow> filter Q (insert_before P x xs) = filter Q xs"
  by (induction xs) auto

lemma insert_before_cong:
  "(\<And>y. y \<in> set xs \<Longrightarrow> P y = Q y) \<Longrightarrow> insert_before P x xs = insert_before Q x xs"
  by (induction xs) auto

text \<open>Insertion keeps a list ordered when the condition is the complement of the order.\<close>

lemma sorted_wrt_insert_before:
  assumes "sorted_wrt R xs" and "transp R"
    and stop: "\<And>y. y \<in> set xs \<Longrightarrow> P y \<Longrightarrow> R x y"
    and pass: "\<And>y. y \<in> set xs \<Longrightarrow> \<not> P y \<Longrightarrow> R y x"
  shows "sorted_wrt R (insert_before P x xs)"
  using assms(1) stop pass
proof (induction xs)
  case Nil
  then show ?case by simp
next
  case (Cons y ys)
  show ?case
  proof (cases "P y")
    case True
    then have "R x y" using Cons.prems(2) by simp
    moreover have "\<forall>z \<in> set ys. R x z"
      using Cons.prems(1) \<open>R x y\<close> \<open>transp R\<close> by (auto dest: transpD)
    ultimately show ?thesis using True Cons.prems(1) by simp
  next
    case False
    then show ?thesis using Cons by simp
  qed
qed

section \<open>Replacing one element of a list\<close>

fun replace1 :: "'a \<Rightarrow> 'a \<Rightarrow> 'a list \<Rightarrow> 'a list" where
  "replace1 old new [] = []"
| "replace1 old new (y # ys) = (if y = old then new # ys else y # replace1 old new ys)"

lemma length_replace1 [simp]: "length (replace1 old new xs) = length xs"
  by (induction xs) auto

lemma replace1_notin [simp]: "old \<notin> set xs \<Longrightarrow> replace1 old new xs = xs"
  by (induction xs) auto

lemma set_replace1:
  "old \<in> set xs \<Longrightarrow> distinct xs \<Longrightarrow> set (replace1 old new xs) = insert new (set xs - {old})"
  by (induction xs) auto

lemma distinct_replace1:
  "distinct xs \<Longrightarrow> new \<notin> set xs \<Longrightarrow> distinct (replace1 old new xs)"
proof (induction xs)
  case Nil
  then show ?case by simp
next
  case (Cons y ys)
  moreover have "set (replace1 old new ys) \<subseteq> insert new (set ys)"
    by (induction ys) auto
  ultimately show ?case by auto
qed

lemma replace1_map_eq:
  "f new = f old \<Longrightarrow> map f (replace1 old new xs) = map f xs"
  by (induction xs) auto

lemma filter_remove1_eq: "distinct xs \<Longrightarrow> filter (\<lambda>y. y \<noteq> x) xs = remove1 x xs"
  by (induction xs) (auto simp: filter_id_conv)

lemma sorted_wrt_filter_list: "sorted_wrt R xs \<Longrightarrow> sorted_wrt R (filter P xs)"
  by (rule sorted_wrt_filter)

end
