(* ===== verification/Hash_Map.thy ===== *)
theory Hash_Map
  imports OF_Prelude "HOL-Library.Multiset"
begin

text \<open>
  The chained hash table of \<^verbatim>\<open>lib/hmap.h\<close> and \<^verbatim>\<open>lib/hmap.c\<close>.  A node carries its hash and a
  payload; a bucket is the chain of nodes from its head; the array of buckets has
  \<open>mask + 1\<close> elements and \<open>mask + 1\<close> is a power of two.  \<open>size_t\<close> is 64 bits wide.  The
  locale \<open>id_table\<close> is what the group and meter tables rely on: they use the identifier
  of an entry as its hash, so that a hash occurs at most once.
\<close>

unbundle bit_operations_syntax

section \<open>Buckets and nodes\<close>

record 'a hmap =
  hm_buckets :: "(u64 \<times> 'a) list list"
  hm_mask :: u64
  hm_n :: u64

definition hmap_init :: "'a hmap" where
  "hmap_init = \<lparr>hm_buckets = [[]], hm_mask = 0, hm_n = 0\<rparr>"

definition bucket_of :: "u64 \<Rightarrow> u64 \<Rightarrow> nat" where
  "bucket_of hash m = unat (hash AND m)"

definition hmap_count :: "'a hmap \<Rightarrow> u64" where
  "hmap_count h = hm_n h"

definition hmap_is_empty :: "'a hmap \<Rightarrow> bool" where
  "hmap_is_empty h \<longleftrightarrow> hm_n h = 0"

definition hmap_insert_fast :: "u64 \<times> 'a \<Rightarrow> 'a hmap \<Rightarrow> 'a hmap" where
  "hmap_insert_fast node h =
    (let i = bucket_of (fst node) (hm_mask h)
     in h\<lparr>hm_buckets := (hm_buckets h)[i := node # hm_buckets h ! i], hm_n := hm_n h + 1\<rparr>)"

text \<open>\<open>resize\<close> refuses a mask that is not one less than a power of two; the two assertions
  are \<open>resize_asserts\<close>.  The nodes are moved bucket by bucket into a fresh array.\<close>

definition resize_asserts :: "u64 \<Rightarrow> bool" where
  "resize_asserts new_mask \<longleftrightarrow> new_mask AND (new_mask + 1) = 0 \<and> new_mask \<noteq> -1"

definition resize :: "u64 \<Rightarrow> 'a hmap \<Rightarrow> 'a hmap" where
  "resize new_mask h =
    (let tmp = \<lparr>hm_buckets = replicate (unat new_mask + 1) [], hm_mask = new_mask, hm_n = 0\<rparr>
     in fold hmap_insert_fast (concat (hm_buckets h)) tmp)"

definition calc_mask :: "u64 \<Rightarrow> u64" where
  "calc_mask capacity =
    (let m0 = capacity div 2;
         m1 = m0 OR drop_bit 1 m0;
         m2 = m1 OR drop_bit 2 m1;
         m3 = m2 OR drop_bit 4 m2;
         m4 = m3 OR drop_bit 8 m3;
         m5 = m4 OR drop_bit 16 m4;
         m6 = m5 OR drop_bit 32 m5
     in m6 OR push_bit 1 (m6 AND 1))"

definition hmap_expand :: "'a hmap \<Rightarrow> 'a hmap" where
  "hmap_expand h =
    (let new_mask = calc_mask (hm_n h) in if hm_mask h < new_mask then resize new_mask h else h)"

definition hmap_shrink :: "'a hmap \<Rightarrow> 'a hmap" where
  "hmap_shrink h =
    (let new_mask = calc_mask (hm_n h) in if new_mask < hm_mask h then resize new_mask h else h)"

definition hmap_reserve :: "u64 \<Rightarrow> 'a hmap \<Rightarrow> 'a hmap" where
  "hmap_reserve n h =
    (let new_mask = calc_mask n in if hm_mask h < new_mask then resize new_mask h else h)"

definition hmap_insert :: "u64 \<times> 'a \<Rightarrow> 'a hmap \<Rightarrow> 'a hmap" where
  "hmap_insert node h =
    (let h1 = hmap_insert_fast node h
     in if hm_mask h1 < hm_n h1 div 2 then hmap_expand h1 else h1)"

text \<open>The node handed to \<open>hmap_remove\<close> is one that a lookup by hash returned: the first node
  of its bucket that carries the hash.\<close>

fun remove_first :: "('b \<Rightarrow> bool) \<Rightarrow> 'b list \<Rightarrow> 'b list" where
  "remove_first P [] = []"
| "remove_first P (x # xs) = (if P x then xs else x # remove_first P xs)"

definition hmap_remove :: "u64 \<Rightarrow> 'a hmap \<Rightarrow> 'a hmap" where
  "hmap_remove hash h =
    (let i = bucket_of hash (hm_mask h)
     in h\<lparr>hm_buckets := (hm_buckets h)[i := remove_first (\<lambda>nd. fst nd = hash) (hm_buckets h ! i)],
          hm_n := hm_n h - 1\<rparr>)"

fun next_with_hash :: "(u64 \<times> 'a) list \<Rightarrow> u64 \<Rightarrow> 'a option" where
  "next_with_hash [] hash = None"
| "next_with_hash (nd # r) hash = (if fst nd = hash then Some (snd nd) else next_with_hash r hash)"

definition hmap_first_with_hash :: "'a hmap \<Rightarrow> u64 \<Rightarrow> 'a option" where
  "hmap_first_with_hash h hash = next_with_hash (hm_buckets h ! bucket_of hash (hm_mask h)) hash"

text \<open>\<open>HMAP_FOR_EACH_WITH_HASH\<close> walks one chain and stops at the nodes with the hash.\<close>

definition hmap_with_hash :: "'a hmap \<Rightarrow> u64 \<Rightarrow> 'a list" where
  "hmap_with_hash h hash =
     map snd (filter (\<lambda>nd. fst nd = hash) (hm_buckets h ! bucket_of hash (hm_mask h)))"

text \<open>Writing through the pointer a lookup returned changes the payload in place.\<close>

fun update_first :: "u64 \<Rightarrow> ('a \<Rightarrow> 'a) \<Rightarrow> (u64 \<times> 'a) list \<Rightarrow> (u64 \<times> 'a) list" where
  "update_first hash f [] = []"
| "update_first hash f (nd # r) =
     (if fst nd = hash then (fst nd, f (snd nd)) # r else nd # update_first hash f r)"

definition hmap_write :: "u64 \<Rightarrow> ('a \<Rightarrow> 'a) \<Rightarrow> 'a hmap \<Rightarrow> 'a hmap" where
  "hmap_write hash f h =
    (let i = bucket_of hash (hm_mask h)
     in h\<lparr>hm_buckets := (hm_buckets h)[i := update_first hash f (hm_buckets h ! i)]\<rparr>)"

text \<open>Iteration: a cursor is a bucket number and a position in its chain.\<close>

function hmap_next_from :: "'a hmap \<Rightarrow> nat \<Rightarrow> (nat \<times> nat) option" where
  "hmap_next_from h i =
    (if i \<le> unat (hm_mask h)
     then if hm_buckets h ! i \<noteq> [] then Some (i, 0) else hmap_next_from h (Suc i)
     else None)"
  by pat_completeness auto
termination
  by (relation "measure (\<lambda>(h, i). Suc (unat (hm_mask h)) - i)") auto

declare hmap_next_from.simps [simp del]

definition hmap_first :: "'a hmap \<Rightarrow> (nat \<times> nat) option" where
  "hmap_first h = hmap_next_from h 0"

definition hmap_next :: "'a hmap \<Rightarrow> nat \<times> nat \<Rightarrow> (nat \<times> nat) option" where
  "hmap_next h c =
    (let chain = hm_buckets h ! fst c; nd = chain ! snd c
     in if Suc (snd c) < length chain then Some (fst c, Suc (snd c))
        else hmap_next_from h (Suc (bucket_of (fst nd) (hm_mask h))))"

partial_function (option) hmap_for_each_loop ::
    "'a hmap \<Rightarrow> (nat \<times> nat) option \<Rightarrow> (u64 \<times> 'a) list \<Rightarrow> (u64 \<times> 'a) list option" where
  "hmap_for_each_loop h c seen =
    (case c of None \<Rightarrow> Some seen
     | Some p \<Rightarrow> hmap_for_each_loop h (hmap_next h p) (seen @ [hm_buckets h ! fst p ! snd p]))"

definition hmap_for_each :: "'a hmap \<Rightarrow> (u64 \<times> 'a) list option" where
  "hmap_for_each h = hmap_for_each_loop h (hmap_first h) []"

section \<open>The mask\<close>

text \<open>A word whose set bits are closed downwards is one less than a power of two.\<close>

definition down_closed :: "u64 \<Rightarrow> bool" where
  "down_closed w \<longleftrightarrow> (\<forall>i j. i \<le> j \<longrightarrow> bit w j \<longrightarrow> bit w i)"

lemma down_closed_mask:
  assumes "down_closed w"
  shows "\<exists>k \<le> 64. w = mask k"
proof -
  have ex: "\<exists>i. \<not> bit w i" by (meson bit_imp_le_length less_le_not_le)
  define k where "k = (LEAST i. \<not> bit w i)"
  have nk: "\<not> bit w k" unfolding k_def using ex by (rule LeastI_ex)
  have below: "bit w i" if "i < k" for i
    using that unfolding k_def by (auto dest: not_less_Least)
  have above: "\<not> bit w i" if "k \<le> i" for i
    using that nk assms by (auto simp: down_closed_def)
  have "w = mask k"
    by (rule bit_word_eqI) (metis above below bit_mask_iff not_le possible_bit_word)
  moreover have "k \<le> 64"
  proof (rule ccontr)
    assume "\<not> k \<le> 64"
    then have "bit w 64" using below by simp
    then show False using bit_imp_le_length [of w 64] by simp
  qed
  ultimately show ?thesis by blast
qed

lemma smear_bit: "bit (w OR drop_bit k w) i \<longleftrightarrow> bit w i \<or> bit w (i + k)" for w :: u64
  by (simp add: bit_or_iff bit_drop_bit_eq ac_simps)


definition smeared :: "nat \<Rightarrow> u64 \<Rightarrow> u64 \<Rightarrow> bool" where
  "smeared k w m \<longleftrightarrow> (\<forall>i. bit w i \<longleftrightarrow> (\<exists>j<k. bit m (i + j)))"

lemma smeared_double:
  assumes "smeared k w m"
  shows "smeared (k + k) (w OR drop_bit k w) m"
  unfolding smeared_def smear_bit
proof (intro allI iffI)
  fix i
  assume "bit w i \<or> bit w (i + k)"
  then show "\<exists>j<k + k. bit m (i + j)"
  proof
    assume "bit w i"
    then obtain j where "j < k" "bit m (i + j)" using assms by (auto simp: smeared_def)
    then show ?thesis by (intro exI [of _ j]) simp
  next
    assume "bit w (i + k)"
    then obtain j where "j < k" "bit m (i + k + j)" using assms by (auto simp: smeared_def)
    then show ?thesis by (intro exI [of _ "k + j"]) (simp add: ac_simps)
  qed
next
  fix i
  assume "\<exists>j<k + k. bit m (i + j)"
  then obtain j where j: "j < k + k" "bit m (i + j)" by blast
  show "bit w i \<or> bit w (i + k)"
  proof (cases "j < k")
    case True
    with j assms show ?thesis by (auto simp: smeared_def)
  next
    case False
    then obtain j' where j': "j = k + j'" using le_Suc_ex not_less by blast
    with j have "j' < k" "bit m ((i + k) + j')" by (simp_all add: ac_simps)
    then have "bit w (i + k)" using assms by (auto simp: smeared_def)
    then show ?thesis ..
  qed
qed

lemma smear_steps:
  fixes m :: u64
  defines "m1 \<equiv> m OR drop_bit 1 m"
  defines "m2 \<equiv> m1 OR drop_bit 2 m1"
  defines "m3 \<equiv> m2 OR drop_bit 4 m2"
  defines "m4 \<equiv> m3 OR drop_bit 8 m3"
  defines "m5 \<equiv> m4 OR drop_bit 16 m4"
  shows "smeared 64 (m5 OR drop_bit 32 m5) m"
proof -
  have "smeared 1 m m" by (simp add: smeared_def)
  from smeared_double [OF this] have "smeared 2 m1 m"
    by (simp add: m1_def numeral_2_eq_2)
  from smeared_double [OF this] have "smeared 4 m2 m" by (simp add: m2_def)
  from smeared_double [OF this] have "smeared 8 m3 m" by (simp add: m3_def)
  from smeared_double [OF this] have "smeared 16 m4 m" by (simp add: m4_def)
  from smeared_double [OF this] have "smeared 32 m5 m" by (simp add: m5_def)
  from smeared_double [OF this] show ?thesis by simp
qed

lemma calc_mask_bits:
  "bit (calc_mask c) i \<longleftrightarrow>
     (\<exists>j<64. bit (c div 2) (i + j)) \<or> i = 1 \<and> (\<exists>j<64. bit (c div 2) j)"
proof -
  obtain m6 where m6: "smeared 64 m6 (c div 2)"
      and eq: "calc_mask c = m6 OR push_bit 1 (m6 AND 1)"
    using smear_steps [of "c div 2"] by (simp add: calc_mask_def Let_def)
  have "bit (push_bit 1 (m6 AND 1)) i \<longleftrightarrow> i = 1 \<and> bit m6 0"
    unfolding bit_push_bit_iff bit_and_iff bit_1_iff by (cases "i = 1") auto
  then show ?thesis using m6 by (auto simp: eq bit_or_iff smeared_def)
qed

lemma bit_half_less: "bit (c div 2 :: u64) i \<Longrightarrow> i < 63"
  using bit_imp_le_length [of c "Suc i"] by (simp add: bit_Suc flip: bit_Suc)

lemma calc_mask_down_closed: "down_closed (calc_mask c)"
  unfolding down_closed_def
proof (intro allI impI)
  fix i j :: nat
  assume ij: "i \<le> j" and "bit (calc_mask c) j"
  then consider (smear) k where "bit (c div 2) (j + k)" | (low) k where "j = 1" "bit (c div 2) k"
    by (auto simp: calc_mask_bits)
  then show "bit (calc_mask c) i"
  proof cases
    case smear
    with ij bit_half_less [OF smear] show ?thesis
      unfolding calc_mask_bits by (intro disjI1 exI [of _ "j + k - i"]) auto
  next
    case low
    with ij bit_half_less [OF low(2)] show ?thesis
      unfolding calc_mask_bits by (cases "i = 0") (auto intro!: exI [of _ k])
  qed
qed

lemma mask_and_succ: "(mask k :: u64) AND (mask k + 1) = 0"
proof -
  have "(mask k :: u64) + 1 = 2 ^ k" by (simp add: mask_eq_exp_minus_1)
  then show ?thesis
    by (intro bit_word_eqI) (auto simp: bit_and_iff bit_mask_iff bit_exp_iff)
qed

text \<open>Every mask the table computes passes the assertions of \<open>resize\<close>.\<close>

lemma calc_mask_asserts: "resize_asserts (calc_mask c)"
proof -
  obtain k where "calc_mask c = mask k"
    using down_closed_mask [OF calc_mask_down_closed] by blast
  moreover have "calc_mask c \<noteq> -1"
  proof
    assume "calc_mask c = -1"
    then have "bit (calc_mask c) 63" by simp
    then show False using bit_half_less by (fastforce simp: calc_mask_bits)
  qed
  ultimately show ?thesis by (simp add: resize_asserts_def mask_and_succ)
qed


section \<open>Representation invariant and contents\<close>

definition hm_elems :: "'a hmap \<Rightarrow> (u64 \<times> 'a) list" where
  "hm_elems h = concat (hm_buckets h)"

definition hmap_inv :: "'a hmap \<Rightarrow> bool" where
  "hmap_inv h \<longleftrightarrow>
     length (hm_buckets h) = Suc (unat (hm_mask h)) \<and>
     (\<forall>i < length (hm_buckets h). \<forall>nd \<in> set (hm_buckets h ! i).
        bucket_of (fst nd) (hm_mask h) = i) \<and>
     hm_n h = of_nat (length (hm_elems h))"

lemma bucket_of_le: "bucket_of hash m \<le> unat m"
  unfolding bucket_of_def by (rule word_and_le1 [THEN word_le_nat_alt [THEN iffD1]])

lemma bucket_of_less: "hmap_inv h \<Longrightarrow> bucket_of hash (hm_mask h) < length (hm_buckets h)"
  using bucket_of_le [of hash "hm_mask h"] by (simp add: hmap_inv_def)

lemma hmap_inv_bucket:
  "hmap_inv h \<Longrightarrow> i < length (hm_buckets h) \<Longrightarrow> nd \<in> set (hm_buckets h ! i) \<Longrightarrow>
     bucket_of (fst nd) (hm_mask h) = i"
  by (simp add: hmap_inv_def)

lemma hmap_inv_init: "hmap_inv hmap_init"
  by (simp add: hmap_inv_def hmap_init_def hm_elems_def)

lemma mset_concat_update:
  "i < length bs \<Longrightarrow>
     mset (concat (bs[i := b])) + mset (bs ! i) = mset (concat bs) + mset b"
proof (induction bs arbitrary: i)
  case Nil
  then show ?case by simp
next
  case (Cons x xs)
  then show ?case by (cases i) (auto simp: ac_simps)
qed

lemma length_elems_mset: "length (hm_elems h) = size (mset (hm_elems h))"
  by simp

lemma elems_insert_fast:
  "hmap_inv h \<Longrightarrow> mset (hm_elems (hmap_insert_fast nd h)) = add_mset nd (mset (hm_elems h))"
  using mset_concat_update [OF bucket_of_less, of h "fst nd"
      "nd # hm_buckets h ! bucket_of (fst nd) (hm_mask h)"]
  by (simp add: hmap_insert_fast_def Let_def hm_elems_def)

lemma hmap_inv_bucketI:
  assumes inv: "hmap_inv h" and i: "i < length (hm_buckets h)"
    and b: "\<And>nd. nd \<in> set b \<Longrightarrow> bucket_of (fst nd) (hm_mask h) = i"
    and n: "n = of_nat (length (concat ((hm_buckets h)[i := b])))"
  shows "hmap_inv (h\<lparr>hm_buckets := (hm_buckets h)[i := b], hm_n := n\<rparr>)"
  using inv i b n by (auto simp: hmap_inv_def hm_elems_def nth_list_update)

lemma hmap_inv_insert_fast:
  assumes inv: "hmap_inv h"
  shows "hmap_inv (hmap_insert_fast nd h)"
proof -
  let ?i = "bucket_of (fst nd) (hm_mask h)"
  let ?b = "nd # hm_buckets h ! ?i"
  have "length (concat ((hm_buckets h)[?i := ?b])) = Suc (length (hm_elems h))"
    using arg_cong [OF elems_insert_fast [OF inv, of nd], of size]
    by (simp add: hmap_insert_fast_def Let_def hm_elems_def)
  then show ?thesis
    using inv bucket_of_less [OF inv, of "fst nd"] unfolding hmap_insert_fast_def Let_def
    by (intro hmap_inv_bucketI) (auto simp: hmap_inv_def)
qed

lemma fold_insert_fast:
  "hmap_inv h \<Longrightarrow> hmap_inv (fold hmap_insert_fast nds h) \<and>
     mset (hm_elems (fold hmap_insert_fast nds h)) = mset nds + mset (hm_elems h)"
  by (induction nds arbitrary: h) (auto simp: hmap_inv_insert_fast elems_insert_fast)

lemma resize_correct:
  "hmap_inv (resize m h) \<and> mset (hm_elems (resize m h)) = mset (hm_elems h)"
proof -
  have "hmap_inv \<lparr>hm_buckets = replicate (unat m + 1) [], hm_mask = m, hm_n = 0\<rparr>"
    by (auto simp: hmap_inv_def hm_elems_def nth_Cons nth_replicate split: nat.splits)
  from fold_insert_fast [OF this, of "concat (hm_buckets h)"] show ?thesis
    by (simp add: resize_def Let_def hm_elems_def)
qed

lemma hmap_insert_correct:
  assumes "hmap_inv h"
  shows "hmap_inv (hmap_insert nd h) \<and>
     mset (hm_elems (hmap_insert nd h)) = add_mset nd (mset (hm_elems h))"
  using hmap_inv_insert_fast [OF assms, of nd] elems_insert_fast [OF assms, of nd]
    resize_correct [of _ "hmap_insert_fast nd h"]
  by (simp add: hmap_insert_def hmap_expand_def Let_def)

text \<open>A lookup finds the first node with the hash in iteration order.\<close>

lemma next_with_hash_map_of: "next_with_hash xs k = map_of xs k"
  by (induction xs) auto

lemma map_of_concat_bucket:
  assumes "i < length bs" and "\<And>j. j < length bs \<Longrightarrow> j \<noteq> i \<Longrightarrow> k \<notin> fst ` set (bs ! j)"
  shows "map_of (concat bs) k = map_of (bs ! i) k"
  using assms
proof (induction bs arbitrary: i)
  case Nil
  then show ?case by simp
next
  case (Cons b bs)
  show ?case
  proof (cases i)
    case 0
    have "k \<notin> fst ` set (bs ! j)" if "j < length bs" for j
      using Cons.prems(2) [of "Suc j"] 0 that by simp
    then have "k \<notin> fst ` set (concat bs)" 
      by (auto simp: image_iff) (metis fst_conv image_eqI in_set_conv_nth)
    then have "map_of (concat bs) k = None" by (simp add: map_of_eq_None_iff)
    with 0 show ?thesis by (simp add: map_add_def split: option.split)
  next
    case (Suc i')
    have "map_of b k = None" using Cons.prems(2) [of 0] Suc by (simp add: map_of_eq_None_iff)
    moreover have "map_of (concat bs) k = map_of (bs ! i') k"
    proof (rule Cons.IH)
      show "i' < length bs" using Cons.prems(1) Suc by simp
      show "k \<notin> fst ` set (bs ! j)" if "j < length bs" "j \<noteq> i'" for j
        using Cons.prems(2) [of "Suc j"] that Suc by simp
    qed
    ultimately show ?thesis using Suc by (simp add: map_add_def split: option.split)
  qed
qed

lemma hmap_first_with_hash_map_of:
  assumes "hmap_inv h"
  shows "hmap_first_with_hash h k = map_of (hm_elems h) k"
proof -
  let ?i = "bucket_of k (hm_mask h)"
  have "k \<notin> fst ` set (hm_buckets h ! j)" if "j < length (hm_buckets h)" "j \<noteq> ?i" for j
    using assms that by (auto simp: hmap_inv_def)
  then show ?thesis
    using map_of_concat_bucket [OF bucket_of_less [OF assms], of k k]
    by (simp add: hmap_first_with_hash_def next_with_hash_map_of hm_elems_def)
qed


lemma remove_first_mset:
  "map_of b k = Some v \<Longrightarrow>
     mset b = add_mset (k, v) (mset (remove_first (\<lambda>nd. fst nd = k) b))"
  by (induction b) (auto split: if_splits)

lemma set_remove_first: "set (remove_first P b) \<subseteq> set b"
  by (induction b) auto

lemma bucket_lookup:
  assumes "hmap_inv h"
  shows "map_of (hm_buckets h ! bucket_of k (hm_mask h)) k = map_of (hm_elems h) k"
  using hmap_first_with_hash_map_of [OF assms, of k]
  by (simp add: hmap_first_with_hash_def next_with_hash_map_of)

lemma elems_remove:
  assumes inv: "hmap_inv h" and v: "map_of (hm_elems h) k = Some v"
  shows "mset (hm_elems h) = add_mset (k, v) (mset (hm_elems (hmap_remove k h)))"
proof -
  let ?i = "bucket_of k (hm_mask h)"
  have "mset (hm_buckets h ! ?i) =
      add_mset (k, v) (mset (remove_first (\<lambda>nd. fst nd = k) (hm_buckets h ! ?i)))"
    using v bucket_lookup [OF inv, of k] by (intro remove_first_mset) simp
  then show ?thesis
    using mset_concat_update [OF bucket_of_less [OF inv, of k],
        of "remove_first (\<lambda>nd. fst nd = k) (hm_buckets h ! ?i)"]
    by (simp add: hmap_remove_def Let_def hm_elems_def)
qed

lemma hmap_inv_remove:
  assumes inv: "hmap_inv h" and v: "map_of (hm_elems h) k = Some v"
  shows "hmap_inv (hmap_remove k h)"
proof -
  have "length (hm_elems h) = Suc (length (hm_elems (hmap_remove k h)))"
    using arg_cong [OF elems_remove [OF inv v], of size] by simp
  moreover have "bucket_of (fst nd) (hm_mask h) = bucket_of k (hm_mask h)"
    if "nd \<in> set (remove_first (\<lambda>nd. fst nd = k) (hm_buckets h ! bucket_of k (hm_mask h)))" for nd
    using subsetD [OF set_remove_first that] inv bucket_of_less [OF inv, of k]
    by (simp add: hmap_inv_def)
  ultimately show ?thesis
    using inv bucket_of_less [OF inv, of k] unfolding hmap_remove_def Let_def
    by (intro hmap_inv_bucketI) (simp_all add: hmap_inv_def hm_elems_def)
qed

lemma update_first_mset:
  assumes "map_of b k = Some v"
  shows "add_mset (k, v) (mset (update_first k f b)) = add_mset (k, f v) (mset b)"
  using assms
proof (induction b)
  case Nil
  then show ?case by simp
next
  case (Cons nd b)
  show ?case
  proof (cases "fst nd = k")
    case True
    with Cons.prems show ?thesis by (cases nd) (simp add: add_mset_commute)
  next
    case False
    with Cons have "add_mset nd (add_mset (k, v) (mset (update_first k f b))) =
        add_mset nd (add_mset (k, f v) (mset b))" by (cases nd) simp
    with False show ?thesis by (simp add: add_mset_commute)
  qed
qed

lemma update_first_none: "map_of b k = None \<Longrightarrow> update_first k f b = b"
  by (induction b) (auto split: if_splits)

lemma map_fst_update_first: "map fst (update_first k f b) = map fst b"
  by (induction b) auto

lemma mset_swap:
  assumes "U + B = C + B'" and "add_mset x B' = add_mset y B"
  shows "add_mset x U = add_mset y C"
proof -
  have "add_mset x U + B = add_mset x (C + B')" by (simp add: assms(1) [symmetric])
  also have "\<dots> = C + add_mset x B'" by simp
  also have "\<dots> = add_mset y C + B" by (simp add: assms(2))
  finally show ?thesis by (rule add_right_imp_eq)
qed

lemma elems_write:
  assumes inv: "hmap_inv h" and v: "map_of (hm_elems h) k = Some v"
  shows "add_mset (k, v) (mset (hm_elems (hmap_write k f h))) = add_mset (k, f v) (mset (hm_elems h))"
proof -
  let ?i = "bucket_of k (hm_mask h)"
  have b: "add_mset (k, v) (mset (update_first k f (hm_buckets h ! ?i))) =
      add_mset (k, f v) (mset (hm_buckets h ! ?i))"
    using v bucket_lookup [OF inv, of k] by (intro update_first_mset) simp
  have e: "hm_elems (hmap_write k f h) =
      concat ((hm_buckets h)[?i := update_first k f (hm_buckets h ! ?i)])"
    by (simp add: hmap_write_def Let_def hm_elems_def)
  show ?thesis
    unfolding e unfolding hm_elems_def
    by (rule mset_swap [OF mset_concat_update [OF bucket_of_less [OF inv]] b])
qed

lemma write_absent:
  assumes inv: "hmap_inv h" and v: "map_of (hm_elems h) k = None"
  shows "hmap_write k f h = h"
  using v bucket_lookup [OF inv, of k] by (simp add: hmap_write_def Let_def update_first_none)

lemma hmap_inv_write:
  assumes inv: "hmap_inv h"
  shows "hmap_inv (hmap_write k f h)"
proof (cases "map_of (hm_elems h) k")
  case None
  then show ?thesis using write_absent [OF inv] inv by simp
next
  case (Some v)
  let ?i = "bucket_of k (hm_mask h)"
  have len: "length (hm_elems (hmap_write k f h)) = length (hm_elems h)"
    using arg_cong [OF elems_write [OF inv Some, of f], of size] by simp
  have b: "bucket_of (fst nd) (hm_mask h) = ?i"
    if "nd \<in> set (update_first k f (hm_buckets h ! ?i))" for nd
  proof -
    have "fst nd \<in> fst ` set (hm_buckets h ! ?i)"
      using imageI [OF that, of fst] by (metis list.set_map map_fst_update_first)
    then obtain nd' where "nd' \<in> set (hm_buckets h ! ?i)" "fst nd = fst nd'" by auto
    then show ?thesis using hmap_inv_bucket [OF inv bucket_of_less [OF inv]] by simp
  qed
  have "hmap_inv (h\<lparr>hm_buckets := (hm_buckets h)[?i := update_first k f (hm_buckets h ! ?i)],
      hm_n := hm_n h\<rparr>)"
    using inv bucket_of_less [OF inv, of k] b len
    by (intro hmap_inv_bucketI) (auto simp: hmap_inv_def hmap_write_def Let_def hm_elems_def)
  then show ?thesis by (simp add: hmap_write_def Let_def)
qed

section \<open>Iteration visits every node once\<close>

lemma hmap_next_from_cases:
  assumes "length (hm_buckets h) = Suc (unat (hm_mask h))"
  shows "case hmap_next_from h i of
      None \<Rightarrow> concat (drop i (hm_buckets h)) = []
    | Some (i', j) \<Rightarrow> j = 0 \<and> i' < length (hm_buckets h) \<and> hm_buckets h ! i' \<noteq> [] \<and>
        concat (drop i (hm_buckets h)) = hm_buckets h ! i' @ concat (drop (Suc i') (hm_buckets h))"
  using assms
proof (induction h i rule: hmap_next_from.induct)
  case (1 h i)
  show ?case
  proof (cases "i \<le> unat (hm_mask h)")
    case True
    then have "drop i (hm_buckets h) = hm_buckets h ! i # drop (Suc i) (hm_buckets h)"
      using 1 by (simp add: Cons_nth_drop_Suc)
    with True 1 show ?thesis by (subst hmap_next_from.simps) (auto split: option.splits prod.splits)
  next
    case False
    with 1 show ?thesis by (subst hmap_next_from.simps) simp
  qed
qed

lemma hmap_for_each_loop_at:
  assumes "hmap_inv h" "i < length (hm_buckets h)" "j < length (hm_buckets h ! i)"
  shows "hmap_for_each_loop h (Some (i, j)) seen =
    Some (seen @ drop j (hm_buckets h ! i) @ concat (drop (Suc i) (hm_buckets h)))"
  using assms
proof (induction "length (drop j (hm_buckets h ! i) @ concat (drop (Suc i) (hm_buckets h)))"
    arbitrary: i j seen rule: less_induct)
  case less
  let ?b = "hm_buckets h"
  have d: "drop j (?b ! i) = ?b ! i ! j # drop (Suc j) (?b ! i)"
    using less.prems by (simp add: Cons_nth_drop_Suc)
  have bk: "bucket_of (fst (?b ! i ! j)) (hm_mask h) = i"
    using less.prems by (auto simp: hmap_inv_def)
  have len: "length ?b = Suc (unat (hm_mask h))" using less.prems by (simp add: hmap_inv_def)
  show ?case
  proof (cases "Suc j < length (?b ! i)")
    case True
    with less.hyps [of "Suc j" i "seen @ [?b ! i ! j]"] less.prems d show ?thesis
      by (subst hmap_for_each_loop.simps) (simp add: hmap_next_def Let_def)
  next
    case False
    then have d': "drop j (?b ! i) = [?b ! i ! j]" using d by simp
    note c = hmap_next_from_cases [OF len, of "Suc i"]
    show ?thesis
    proof (cases "hmap_next_from h (Suc i)")
      case None
      with c d' False bk show ?thesis
        by (subst hmap_for_each_loop.simps) (simp add: hmap_next_def Let_def
            hmap_for_each_loop.simps [of _ None])
    next
      case (Some p)
      then obtain i' where p: "p = (i', 0)" using c by (cases p) auto
      with Some c have c': "i' < length ?b" "?b ! i' \<noteq> []"
        "concat (drop (Suc i) ?b) = ?b ! i' @ concat (drop (Suc i') ?b)" by auto
      have "hmap_for_each_loop h (Some (i', 0)) (seen @ [?b ! i ! j]) =
          Some ((seen @ [?b ! i ! j]) @ drop 0 (?b ! i') @ concat (drop (Suc i') ?b))"
        using less.prems c' d' by (intro less.hyps) auto
      with c' d' False bk Some p show ?thesis
        by (subst hmap_for_each_loop.simps) (simp add: hmap_next_def Let_def)
    qed
  qed
qed

lemma hmap_for_each_elems:
  assumes "hmap_inv h"
  shows "hmap_for_each h = Some (hm_elems h)"
proof -
  have len: "length (hm_buckets h) = Suc (unat (hm_mask h))" using assms by (simp add: hmap_inv_def)
  show ?thesis
  proof (cases "hmap_next_from h 0")
    case None
    with hmap_next_from_cases [OF len, of 0] show ?thesis
      by (simp add: hmap_for_each_def hmap_first_def hm_elems_def hmap_for_each_loop.simps)
  next
    case (Some p)
    with hmap_next_from_cases [OF len, of 0] hmap_for_each_loop_at [OF assms, of "fst p" 0 "[]"]
    show ?thesis by (cases p) (simp add: hmap_for_each_def hmap_first_def hm_elems_def)
  qed
qed


section \<open>Tables keyed by an identifier\<close>

text \<open>
  The contract the group and meter tables rely on.  \<open>elems\<close> is the sequence that iteration
  visits.  A client inserts only an identifier that a lookup did not find, and removes and
  writes only what a lookup returned.
\<close>

locale id_table =
  fixes empty :: 't
    and invar :: "'t \<Rightarrow> bool"
    and find :: "'t \<Rightarrow> u64 \<Rightarrow> 'a option"
    and put :: "u64 \<times> 'a \<Rightarrow> 't \<Rightarrow> 't"
    and put_fast :: "u64 \<times> 'a \<Rightarrow> 't \<Rightarrow> 't"
    and del :: "u64 \<Rightarrow> 't \<Rightarrow> 't"
    and upd :: "u64 \<Rightarrow> ('a \<Rightarrow> 'a) \<Rightarrow> 't \<Rightarrow> 't"
    and elems :: "'t \<Rightarrow> (u64 \<times> 'a) list"
  assumes invar_empty: "invar empty"
    and find_empty: "find empty k = None"
    and invar_put: "invar t \<Longrightarrow> find t k = None \<Longrightarrow> invar (put (k, v) t)"
    and find_put: "invar t \<Longrightarrow> find t k = None \<Longrightarrow> find (put (k, v) t) = (find t)(k \<mapsto> v)"
    and invar_put_fast: "invar t \<Longrightarrow> find t k = None \<Longrightarrow> invar (put_fast (k, v) t)"
    and find_put_fast:
      "invar t \<Longrightarrow> find t k = None \<Longrightarrow> find (put_fast (k, v) t) = (find t)(k \<mapsto> v)"
    and invar_del: "invar t \<Longrightarrow> find t k \<noteq> None \<Longrightarrow> invar (del k t)"
    and find_del: "invar t \<Longrightarrow> find t k \<noteq> None \<Longrightarrow> find (del k t) = (find t)(k := None)"
    and invar_upd: "invar t \<Longrightarrow> invar (upd k f t)"
    and find_upd: "invar t \<Longrightarrow> find (upd k f t) = (find t)(k := map_option f (find t k))"
    and map_of_elems: "invar t \<Longrightarrow> map_of (elems t) = find t"
    and distinct_elems: "invar t \<Longrightarrow> distinct (map fst (elems t))"
begin

lemma in_elems_iff: "invar t \<Longrightarrow> (k, v) \<in> set (elems t) \<longleftrightarrow> find t k = Some v"
  using map_of_elems [of t] distinct_elems [of t] by (metis map_of_eq_Some_iff)

lemma finite_dom_find: "invar t \<Longrightarrow> finite (dom (find t))"
  using map_of_elems [of t] by (metis finite_dom_map_of)

lemma length_elems: "invar t \<Longrightarrow> length (elems t) = card (dom (find t))"
  using map_of_elems [of t] distinct_elems [of t]
  by (metis dom_map_of_conv_image_fst distinct_card length_map list.set_map)

lemma replace_entry:
  assumes "invar t" and "find t k \<noteq> None"
  shows "invar (put_fast (k, v) (del k t))" and "find (put_fast (k, v) (del k t)) = (find t)(k \<mapsto> v)"
  using assms invar_put_fast [of "del k t" k v] find_put_fast [of "del k t" k v]
    invar_del [of t k] find_del [of t k] by auto

lemma fold_upd_invar: "invar t \<Longrightarrow> invar (fold (\<lambda>k. upd k f) ks t)"
  by (induction ks arbitrary: t) (auto simp: invar_upd)

lemma fold_upd_find:
  assumes "invar t" and "distinct ks"
  shows "find (fold (\<lambda>k. upd k f) ks t) =
    (\<lambda>k. if k \<in> set ks then map_option f (find t k) else find t k)"
  using assms
proof (induction ks arbitrary: t)
  case Nil
  then show ?case by simp
next
  case (Cons x ks)
  then show ?case using find_upd [of t x f] invar_upd [of t x f] by auto
qed

end

definition hmap_ok :: "'a hmap \<Rightarrow> bool" where
  "hmap_ok h \<longleftrightarrow> hmap_inv h \<and> distinct (map fst (hm_elems h))"

lemma hmap_ok_distinct_mset:
  "distinct (map fst xs) \<Longrightarrow> mset ys = mset xs \<Longrightarrow> distinct (map fst ys)"
  by (metis mset_eq_imp_distinct_iff mset_map)

lemma map_of_mset_cong:
  "distinct (map fst xs) \<Longrightarrow> mset ys = mset xs \<Longrightarrow> map_of ys = map_of xs"
  by (metis hmap_ok_distinct_mset map_of_inject_set set_mset_mset)

lemma hmap_ok_added:
  assumes "hmap_ok h" "map_of (hm_elems h) k = None" "hmap_inv h'"
    "mset (hm_elems h') = add_mset (k, v) (mset (hm_elems h))"
  shows "hmap_ok h' \<and> hmap_first_with_hash h' = (hmap_first_with_hash h)(k \<mapsto> v)"
proof -
  have d: "distinct (map fst ((k, v) # hm_elems h))"
    using assms by (simp add: hmap_ok_def map_of_eq_None_iff)
  have m: "mset (hm_elems h') = mset ((k, v) # hm_elems h)" using assms by simp
  have "map_of (hm_elems h') = map_of ((k, v) # hm_elems h)" by (rule map_of_mset_cong [OF d m])
  then show ?thesis
    using assms hmap_ok_distinct_mset [OF d m] hmap_first_with_hash_map_of [of h]
      hmap_first_with_hash_map_of [of h'] by (auto simp: hmap_ok_def)
qed

lemma hmap_ok_remove:
  assumes ok: "hmap_ok h" and f: "hmap_first_with_hash h k \<noteq> None"
  shows "hmap_ok (hmap_remove k h) \<and>
    hmap_first_with_hash (hmap_remove k h) = (hmap_first_with_hash h)(k := None)"
proof -
  let ?h = "hmap_remove k h"
  have inv: "hmap_inv h" using ok by (simp add: hmap_ok_def)
  obtain v where v: "map_of (hm_elems h) k = Some v"
    using f hmap_first_with_hash_map_of [OF inv] by auto
  have m: "mset ((k, v) # hm_elems ?h) = mset (hm_elems h)" using elems_remove [OF inv v] by simp
  have d: "distinct (map fst ((k, v) # hm_elems ?h))"
    by (rule hmap_ok_distinct_mset [OF _ m]) (use ok in \<open>simp add: hmap_ok_def\<close>)
  have mo: "map_of ((k, v) # hm_elems ?h) = map_of (hm_elems h)"
    by (rule map_of_mset_cong [OF _ m]) (use ok in \<open>simp add: hmap_ok_def\<close>)
  have "map_of (hm_elems ?h) k = None" using d by (simp add: map_of_eq_None_iff)
  then have "map_of (hm_elems ?h) = (map_of (hm_elems h))(k := None)"
    using mo by (auto simp: fun_eq_iff split: if_splits)
  then show ?thesis
    using d inv hmap_inv_remove [OF inv v] hmap_first_with_hash_map_of [of h]
      hmap_first_with_hash_map_of [of ?h] by (auto simp: hmap_ok_def)
qed

lemma hmap_ok_write:
  assumes ok: "hmap_ok h"
  shows "hmap_ok (hmap_write k f h) \<and> hmap_first_with_hash (hmap_write k f h) =
    (hmap_first_with_hash h)(k := map_option f (hmap_first_with_hash h k))"
proof (cases "hmap_first_with_hash h k")
  case None
  then have "hmap_write k f h = h"
    using ok by (simp add: write_absent hmap_ok_def hmap_first_with_hash_map_of)
  with None ok show ?thesis by auto
next
  case (Some v)
  let ?h = "hmap_write k f h"
  have inv: "hmap_inv h" using ok by (simp add: hmap_ok_def)
  have v: "map_of (hm_elems h) k = Some v" using Some hmap_first_with_hash_map_of [OF inv] by simp
  have m: "mset ((k, v) # hm_elems ?h) = mset ((k, f v) # hm_elems h)"
    using elems_write [OF inv v, of f] by (simp only: mset.simps)
  have r: "hmap_ok (hmap_remove k h)"
    "hmap_first_with_hash (hmap_remove k h) = (hmap_first_with_hash h)(k := None)"
    using hmap_ok_remove [OF ok, of k] Some by auto
  have e: "mset (hm_elems ?h) = add_mset (k, f v) (mset (hm_elems (hmap_remove k h)))"
    using m elems_remove [OF inv v] by (simp add: add_mset_commute)
  have n: "map_of (hm_elems (hmap_remove k h)) k = None"
    using r hmap_first_with_hash_map_of [of "hmap_remove k h" k] by (simp add: hmap_ok_def)
  show ?thesis
    using hmap_ok_added [OF r(1) n hmap_inv_write [OF inv] e] r(2) Some by simp
qed

interpretation ht: id_table hmap_init hmap_ok hmap_first_with_hash hmap_insert hmap_insert_fast
  hmap_remove hmap_write hm_elems
proof unfold_locales
  show "hmap_ok (hmap_init :: 'a hmap)"
    by (simp add: hmap_ok_def hmap_inv_init) (simp add: hm_elems_def hmap_init_def)
  show "hmap_first_with_hash (hmap_init :: 'a hmap) k = None" for k
    by (simp add: hmap_first_with_hash_def hmap_init_def bucket_of_def)
  show "hmap_ok (hmap_insert (k, v) t)"
    "hmap_first_with_hash (hmap_insert (k, v) t) = (hmap_first_with_hash t)(k \<mapsto> v)"
    "hmap_ok (hmap_insert_fast (k, v) t)"
    "hmap_first_with_hash (hmap_insert_fast (k, v) t) = (hmap_first_with_hash t)(k \<mapsto> v)"
    if "hmap_ok t" "hmap_first_with_hash t k = None" for t :: "'a hmap" and k v
    using that hmap_ok_added [of t k "hmap_insert (k, v) t" v]
      hmap_ok_added [of t k "hmap_insert_fast (k, v) t" v]
      hmap_insert_correct [of t "(k, v)"] hmap_inv_insert_fast [of t "(k, v)"]
      elems_insert_fast [of t "(k, v)"] hmap_first_with_hash_map_of [of t k]
    by (simp_all add: hmap_ok_def)
  show "hmap_ok (hmap_remove k t)"
    "hmap_first_with_hash (hmap_remove k t) = (hmap_first_with_hash t)(k := None)"
    if "hmap_ok t" "hmap_first_with_hash t k \<noteq> None" for t :: "'a hmap" and k
    using hmap_ok_remove [OF that] by simp_all
  show "hmap_ok (hmap_write k f t)"
    "hmap_first_with_hash (hmap_write k f t) =
      (hmap_first_with_hash t)(k := map_option f (hmap_first_with_hash t k))"
    if "hmap_ok t" for t :: "'a hmap" and k f
    using hmap_ok_write [OF that, of k f] by simp_all
  show "map_of (hm_elems t) = hmap_first_with_hash t" "distinct (map fst (hm_elems t))"
    if "hmap_ok t" for t :: "'a hmap"
    using that hmap_first_with_hash_map_of [of t] by (auto simp: hmap_ok_def)
qed

end
