(* ===== verification/Byte_Words.thy ===== *)
theory Byte_Words
  imports OF_Prelude
begin

text \<open>
  Loads and stores of machine words in byte buffers.  The sources read multi-byte fields by
  casting a byte pointer, so a load takes the bytes in the order of the host, which is
  little-endian.  A pointer into a buffer is the rest of the buffer from that position;
  \<open>byte_at\<close> is total and is only used inside the buffer.  The main results say that the
  word-wise comparisons of \<^verbatim>\<open>match_std.c\<close> are comparisons byte by byte.
\<close>

unbundle bit_operations_syntax

section \<open>Loads and stores\<close>

definition byte_at :: "byte list \<Rightarrow> nat \<Rightarrow> u8" where
  "byte_at p i = (if i < length p then p ! i else 0)"

definition load8 :: "byte list \<Rightarrow> u8" where
  "load8 p = byte_at p 0"

definition load16 :: "byte list \<Rightarrow> u16" where
  "load16 p = word_cat (byte_at p 1) (byte_at p 0)"

definition load32 :: "byte list \<Rightarrow> u32" where
  "load32 p = word_cat (load16 (drop 2 p)) (load16 p)"

definition load64 :: "byte list \<Rightarrow> u64" where
  "load64 p = word_cat (load32 (drop 4 p)) (load32 p)"

definition store16 :: "u16 \<Rightarrow> byte list" where
  "store16 v = [ucast v, ucast (drop_bit 8 v)]"

definition store32 :: "u32 \<Rightarrow> byte list" where
  "store32 v = store16 (ucast v) @ store16 (ucast (drop_bit 16 v))"

definition store64 :: "u64 \<Rightarrow> byte list" where
  "store64 v = store32 (ucast v) @ store32 (ucast (drop_bit 32 v))"

text \<open>\<open>ntohs\<close>, \<open>ntohl\<close> and their inverses reverse the bytes of a word on a little-endian host.\<close>

definition ntohs :: "u16 \<Rightarrow> u16" where
  "ntohs v = load16 (rev (store16 v))"

definition ntohl :: "u32 \<Rightarrow> u32" where
  "ntohl v = load32 (rev (store32 v))"

section \<open>Round trips\<close>

lemma byte_at_drop [simp]: "byte_at (drop k p) i = byte_at p (k + i)"
  by (auto simp: byte_at_def)

lemma byte_at_Cons [simp]:
  "byte_at (b # p) 0 = b" "byte_at (b # p) (Suc i) = byte_at p i"
  by (auto simp: byte_at_def)

lemma length_store [simp]:
  "length (store16 v) = 2" "length (store32 w) = 4" "length (store64 x) = 8"
  by (simp_all add: store16_def store32_def store64_def)

lemma cat_split16: "word_cat (ucast (drop_bit 8 v) :: u8) (ucast v :: u8) = (v :: u16)"
  by (rule bit_word_eqI) (auto simp: bit_word_cat_iff bit_ucast_iff bit_drop_bit_eq)

lemma cat_split32: "word_cat (ucast (drop_bit 16 v) :: u16) (ucast v :: u16) = (v :: u32)"
  by (rule bit_word_eqI) (auto simp: bit_word_cat_iff bit_ucast_iff bit_drop_bit_eq)

lemma cat_split64: "word_cat (ucast (drop_bit 32 v) :: u32) (ucast v :: u32) = (v :: u64)"
  by (rule bit_word_eqI) (auto simp: bit_word_cat_iff bit_ucast_iff bit_drop_bit_eq)

lemma load16_store16 [simp]: "load16 (store16 v @ r) = v"
  by (simp add: load16_def store16_def cat_split16 byte_at_def)

lemma load32_store32 [simp]: "load32 (store32 v @ r) = v"
  by (simp add: load32_def store32_def cat_split32)

lemma load64_store64 [simp]: "load64 (store64 v @ r) = v"
  by (simp add: load64_def store64_def cat_split64)

lemma load_store_exact [simp]:
  "load16 (store16 v) = v" "load32 (store32 w) = w" "load64 (store64 x) = x"
  using load16_store16 [of v "[]"] load32_store32 [of w "[]"] load64_store64 [of x "[]"] by simp_all

section \<open>Concatenated words\<close>

lemma cat_masked_eq:
  fixes a1 b1 m1 :: "'a :: len word" and a2 b2 m2 :: "'b :: len word"
  assumes "LENGTH('c) = LENGTH('a) + LENGTH('b)"
  shows "(word_cat m1 m2 AND (word_cat a1 a2 XOR word_cat b1 b2) = (0 :: 'c :: len word)) \<longleftrightarrow>
    m1 AND (a1 XOR b1) = 0 \<and> m2 AND (a2 XOR b2) = 0"
proof
  assume l: "word_cat m1 m2 AND (word_cat a1 a2 XOR word_cat b1 b2) = (0 :: 'c word)"
  have b: "\<not> (bit (word_cat m1 m2 :: 'c word) n \<and>
      (bit (word_cat a1 a2 :: 'c word) n \<noteq> bit (word_cat b1 b2 :: 'c word) n))" for n
    using arg_cong [OF l, of "\<lambda>w. bit w n"] by (auto simp: bit_and_iff bit_xor_iff)
  show "m1 AND (a1 XOR b1) = 0 \<and> m2 AND (a2 XOR b2) = 0"
  proof
    show "m1 AND (a1 XOR b1) = 0"
    proof (rule bit_word_eqI)
      fix n assume "n < LENGTH('a)"
      then show "bit (m1 AND (a1 XOR b1)) n \<longleftrightarrow> bit (0 :: 'a word) n"
        using b [of "n + LENGTH('b)"] assms by (auto simp: bit_and_iff bit_xor_iff bit_word_cat_iff)
    qed
    show "m2 AND (a2 XOR b2) = 0"
    proof (rule bit_word_eqI)
      fix n assume "n < LENGTH('b)"
      then show "bit (m2 AND (a2 XOR b2)) n \<longleftrightarrow> bit (0 :: 'b word) n"
        using b [of n] assms by (auto simp: bit_and_iff bit_xor_iff bit_word_cat_iff)
    qed
  qed
next
  assume r: "m1 AND (a1 XOR b1) = 0 \<and> m2 AND (a2 XOR b2) = 0"
  have b1: "\<not> (bit m1 n \<and> bit a1 n \<noteq> bit b1 n)" for n
    using arg_cong [OF conjunct1 [OF r], of "\<lambda>w. bit w n"] by (auto simp: bit_and_iff bit_xor_iff)
  have b2: "\<not> (bit m2 n \<and> bit a2 n \<noteq> bit b2 n)" for n
    using arg_cong [OF conjunct2 [OF r], of "\<lambda>w. bit w n"] by (auto simp: bit_and_iff bit_xor_iff)
  show "word_cat m1 m2 AND (word_cat a1 a2 XOR word_cat b1 b2) = (0 :: 'c word)"
    by (rule bit_word_eqI) (use b1 b2 in \<open>auto simp: bit_and_iff bit_xor_iff bit_word_cat_iff\<close>)
qed

lemma xor_zero_iff: "a XOR b = 0 \<longleftrightarrow> a = b" for a b :: "'a :: len word"
  by (auto simp: bit_eq_iff bit_xor_iff)

lemma cat_eq_iff:
  fixes a1 b1 :: "'a :: len word" and a2 b2 :: "'b :: len word"
  assumes "LENGTH('c) = LENGTH('a) + LENGTH('b)"
  shows "(word_cat a1 a2 :: 'c :: len word) = word_cat b1 b2 \<longleftrightarrow> a1 = b1 \<and> a2 = b2"
proof -
  have [simp]: "(word_cat (- 1 :: 'a word) (- 1 :: 'b word) :: 'c word) = - 1"
    by (rule bit_word_eqI) (use assms in \<open>auto simp: bit_word_cat_iff\<close>)
  have "(word_cat a1 a2 :: 'c word) = word_cat b1 b2 \<longleftrightarrow>
      (word_cat (- 1 :: 'a word) (- 1 :: 'b word)) AND
        ((word_cat a1 a2 :: 'c word) XOR word_cat b1 b2) = 0"
    by (simp add: xor_zero_iff)
  then show ?thesis unfolding cat_masked_eq [OF assms] by (simp add: xor_zero_iff)
qed

section \<open>Comparisons byte by byte\<close>

definition bytes_eq :: "nat \<Rightarrow> byte list \<Rightarrow> byte list \<Rightarrow> bool" where
  "bytes_eq n a b \<longleftrightarrow> (\<forall>i<n. byte_at a i = byte_at b i)"

definition bytes_eq_under :: "nat \<Rightarrow> byte list \<Rightarrow> byte list \<Rightarrow> byte list \<Rightarrow> bool" where
  "bytes_eq_under n m a b \<longleftrightarrow> (\<forall>i<n. byte_at m i AND (byte_at a i XOR byte_at b i) = 0)"

lemma all_less_Suc_shift: "(\<forall>i<j + k. P i) \<longleftrightarrow> (\<forall>i<j. P i) \<and> (\<forall>i<k. P (j + i))" for j k :: nat
  by (metis add_less_cancel_left le_add_diff_inverse less_add_eq_less not_le trans_less_add1)

lemma bytes_eq_add: "bytes_eq (j + k) a b \<longleftrightarrow> bytes_eq j a b \<and> bytes_eq k (drop j a) (drop j b)"
  unfolding bytes_eq_def all_less_Suc_shift by simp

lemma bytes_eq_under_add:
  "bytes_eq_under (j + k) m a b \<longleftrightarrow>
     bytes_eq_under j m a b \<and> bytes_eq_under k (drop j m) (drop j a) (drop j b)"
  unfolding bytes_eq_under_def all_less_Suc_shift by simp

lemma load8_eq: "load8 a = load8 b \<longleftrightarrow> bytes_eq 1 a b"
  by (simp add: load8_def bytes_eq_def)

lemma load16_eq: "load16 a = load16 b \<longleftrightarrow> bytes_eq 2 a b"
  by (auto simp: load16_def bytes_eq_def cat_eq_iff less_2_cases_iff)

lemma load32_eq: "load32 a = load32 b \<longleftrightarrow> bytes_eq 4 a b"
  using bytes_eq_add [of 2 2 a b] by (auto simp: load32_def cat_eq_iff load16_eq)

lemma load64_eq: "load64 a = load64 b \<longleftrightarrow> bytes_eq 8 a b"
  using bytes_eq_add [of 4 4 a b] by (auto simp: load64_def cat_eq_iff load32_eq)

lemma load8_masked: "load8 m AND (load8 a XOR load8 b) = 0 \<longleftrightarrow> bytes_eq_under 1 m a b"
  by (simp add: load8_def bytes_eq_under_def)

lemma load16_masked: "load16 m AND (load16 a XOR load16 b) = 0 \<longleftrightarrow> bytes_eq_under 2 m a b"
  by (auto simp: load16_def bytes_eq_under_def cat_masked_eq less_2_cases_iff)

lemma load32_masked: "load32 m AND (load32 a XOR load32 b) = 0 \<longleftrightarrow> bytes_eq_under 4 m a b"
  using bytes_eq_under_add [of 2 2 m a b] by (auto simp: load32_def cat_masked_eq load16_masked)

lemma load64_masked: "load64 m AND (load64 a XOR load64 b) = 0 \<longleftrightarrow> bytes_eq_under 8 m a b"
  using bytes_eq_under_add [of 4 4 m a b] by (auto simp: load64_def cat_masked_eq load32_masked)

lemmas load_eq = load8_eq load16_eq load32_eq load64_eq
lemmas load_masked = load8_masked load16_masked load32_masked load64_masked

lemma bytes_eq_full: "length a = n \<Longrightarrow> length b = n \<Longrightarrow> bytes_eq n a b \<longleftrightarrow> a = b"
  by (auto simp: bytes_eq_def byte_at_def list_eq_iff_nth_eq)

lemma bytes_eq_refl [simp]: "bytes_eq n a a"
  by (simp add: bytes_eq_def)

lemma bytes_eq_under_refl [simp]: "bytes_eq_under n m a a"
  by (simp add: bytes_eq_under_def)

end
