(* ===== verification/Oxm_Match.thy ===== *)
theory Oxm_Match
  imports Hash_Map Byte_Words
begin

text \<open>
  OXM match structures and the four comparisons of \<^verbatim>\<open>udatapath/match_std.c\<close>: packet against
  flow, strict, non-strict and overlap.  A match is the structure \<open>ofl_match\<close> of
  \<^verbatim>\<open>oflib/ofl-structs.h\<close>, a hash map of TLVs keyed by the hash of the OXM header, filled by the
  functions of \<^verbatim>\<open>oflib/ofl-structs-match.c\<close> and read by \<open>oxm_match_lookup\<close>.  A walk with
  \<open>HMAP_FOR_EACH\<close> visits \<open>hm_elems\<close>, as \<open>hmap_for_each_elems\<close> shows.
\<close>

unbundle bit_operations_syntax

section \<open>Headers\<close>

definition oxm_field :: "u32 \<Rightarrow> u32" where
  "oxm_field h = drop_bit 9 h AND 0x7f"

definition oxm_hasmask :: "u32 \<Rightarrow> bool" where
  "oxm_hasmask h \<longleftrightarrow> drop_bit 8 h AND 1 \<noteq> 0"

definition oxm_length :: "u32 \<Rightarrow> nat" where
  "oxm_length h = unat (h AND 0xff)"

definition OXM_OF_VLAN_VID :: u32 where "OXM_OF_VLAN_VID = 0x80000C02"
definition OXM_OF_IPV6_EXTHDR :: u32 where "OXM_OF_IPV6_EXTHDR = 0x80004E02"
definition OFPVID_PRESENT :: u16 where "OFPVID_PRESENT = 0x1000"
definition OFPVID_NONE :: u16 where "OFPVID_NONE = 0"
definition VLAN_VID_MASK :: u16 where "VLAN_VID_MASK = 0x0fff"
definition EHDDP_MAX_ELEMENTS :: nat where "EHDDP_MAX_ELEMENTS = 31"

definition hash_int :: "u32 \<Rightarrow> u32 \<Rightarrow> u32" where
  "hash_int x0 basis =
    (let x1 = x0 - push_bit 6 x0;
         x2 = x1 XOR drop_bit 17 x1;
         x3 = x2 - push_bit 9 x2;
         x4 = x3 XOR push_bit 4 x3;
         x5 = x4 + basis;
         x6 = x5 - push_bit 3 x5;
         x7 = x6 XOR push_bit 10 x6
     in x7 XOR drop_bit 15 x7)"

section \<open>Match structures\<close>

record ofl_match_tlv =
  tlv_header :: u32
  tlv_value :: "byte list"

record ofl_match =
  m_type :: u16
  m_length :: u16
  match_fields :: "ofl_match_tlv hmap"

definition OFPMT_OXM :: u16 where "OFPMT_OXM = 1"

definition ofl_structs_match_init :: ofl_match where
  "ofl_structs_match_init = \<lparr>m_type = OFPMT_OXM, m_length = 0, match_fields = hmap_init\<rparr>"

definition tlv_hash :: "u32 \<Rightarrow> u64" where
  "tlv_hash h = ucast (hash_int h 0)"

text \<open>The body the put functions share: a new TLV, its insertion, the new length.\<close>

definition match_put :: "ofl_match \<Rightarrow> u32 \<Rightarrow> byte list \<Rightarrow> ofl_match" where
  "match_put m header value =
     m\<lparr>match_fields := hmap_insert (tlv_hash header, \<lparr>tlv_header = header, tlv_value = value\<rparr>)
          (match_fields m),
       m_length := m_length m + of_nat (length value) + 4\<rparr>"

definition ofl_structs_match_put8 :: "ofl_match \<Rightarrow> u32 \<Rightarrow> u8 \<Rightarrow> ofl_match" where
  "ofl_structs_match_put8 m h v = match_put m h [v]"

definition ofl_structs_match_put8m :: "ofl_match \<Rightarrow> u32 \<Rightarrow> u8 \<Rightarrow> u8 \<Rightarrow> ofl_match" where
  "ofl_structs_match_put8m m h v msk = match_put m h ([v] @ [msk])"

definition ofl_structs_match_put16 :: "ofl_match \<Rightarrow> u32 \<Rightarrow> u16 \<Rightarrow> ofl_match" where
  "ofl_structs_match_put16 m h v = match_put m h (store16 v)"

definition ofl_structs_match_put16m :: "ofl_match \<Rightarrow> u32 \<Rightarrow> u16 \<Rightarrow> u16 \<Rightarrow> ofl_match" where
  "ofl_structs_match_put16m m h v msk = match_put m h (store16 v @ store16 msk)"

definition ofl_structs_match_put32 :: "ofl_match \<Rightarrow> u32 \<Rightarrow> u32 \<Rightarrow> ofl_match" where
  "ofl_structs_match_put32 m h v = match_put m h (store32 v)"

definition ofl_structs_match_put32m :: "ofl_match \<Rightarrow> u32 \<Rightarrow> u32 \<Rightarrow> u32 \<Rightarrow> ofl_match" where
  "ofl_structs_match_put32m m h v msk = match_put m h (store32 v @ store32 msk)"

definition ofl_structs_match_put64 :: "ofl_match \<Rightarrow> u32 \<Rightarrow> u64 \<Rightarrow> ofl_match" where
  "ofl_structs_match_put64 m h v = match_put m h (store64 v)"

definition ofl_structs_match_put64m :: "ofl_match \<Rightarrow> u32 \<Rightarrow> u64 \<Rightarrow> u64 \<Rightarrow> ofl_match" where
  "ofl_structs_match_put64m m h v msk = match_put m h (store64 v @ store64 msk)"

text \<open>The functions that take an array copy as many bytes as the type of the field has.\<close>

definition ofl_structs_match_put_eth :: "ofl_match \<Rightarrow> u32 \<Rightarrow> byte list \<Rightarrow> ofl_match" where
  "ofl_structs_match_put_eth m h v = match_put m h (take 6 v)"

definition ofl_structs_match_put_eth_m ::
    "ofl_match \<Rightarrow> u32 \<Rightarrow> byte list \<Rightarrow> byte list \<Rightarrow> ofl_match" where
  "ofl_structs_match_put_eth_m m h v msk = match_put m h (take 6 v @ take 6 msk)"

definition ofl_structs_match_put_ipv6 :: "ofl_match \<Rightarrow> u32 \<Rightarrow> byte list \<Rightarrow> ofl_match" where
  "ofl_structs_match_put_ipv6 m h v = match_put m h (take 16 v)"

definition ofl_structs_match_put_ipv6m ::
    "ofl_match \<Rightarrow> u32 \<Rightarrow> byte list \<Rightarrow> byte list \<Rightarrow> ofl_match" where
  "ofl_structs_match_put_ipv6m m h v msk = match_put m h (take 16 v @ take 16 msk)"

definition ofl_structs_match_put_pbb_isid :: "ofl_match \<Rightarrow> u32 \<Rightarrow> byte list \<Rightarrow> ofl_match" where
  "ofl_structs_match_put_pbb_isid m h v = match_put m h (take (oxm_length h) v)"

definition ofl_structs_match_put_pbb_isidm ::
    "ofl_match \<Rightarrow> u32 \<Rightarrow> byte list \<Rightarrow> byte list \<Rightarrow> ofl_match" where
  "ofl_structs_match_put_pbb_isidm m h v msk =
     match_put m h (take (oxm_length h) v @ take (oxm_length h) msk)"

definition ofl_structs_match_put_64_as_a_mac :: "ofl_match \<Rightarrow> u32 \<Rightarrow> u64 \<Rightarrow> ofl_match" where
  "ofl_structs_match_put_64_as_a_mac m h v = match_put m h (take 6 (store64 (push_bit 16 v)))"

definition ntoh642 :: "u64 \<Rightarrow> u64" where
  "ntoh642 n = push_bit 32 (ucast (ntohl (ucast n))) + ucast (ntohl (ucast (drop_bit 32 n)))"

definition ofl_structs_match_put_macs :: "ofl_match \<Rightarrow> u32 \<Rightarrow> u64 list \<Rightarrow> ofl_match" where
  "ofl_structs_match_put_macs m h vs =
     match_put m h (concat (map (\<lambda>v. store64 (ntoh642 v)) (take EHDDP_MAX_ELEMENTS vs)))"

definition ofl_structs_match_put_port :: "ofl_match \<Rightarrow> u32 \<Rightarrow> u32 list \<Rightarrow> ofl_match" where
  "ofl_structs_match_put_port m h vs =
     match_put m h (concat (map (\<lambda>v. store32 (ntohl v)) (take EHDDP_MAX_ELEMENTS vs)))"

definition match_tlvs :: "ofl_match \<Rightarrow> ofl_match_tlv list" where
  "match_tlvs m = map snd (hm_elems (match_fields m))"

definition oxm_match_lookup :: "u32 \<Rightarrow> ofl_match \<Rightarrow> ofl_match_tlv option" where
  "oxm_match_lookup header m =
     List.find (\<lambda>f. tlv_header f = header) (hmap_with_hash (match_fields m) (tlv_hash header))"

section \<open>Packet against flow\<close>

definition match_8 :: "byte list \<Rightarrow> byte list \<Rightarrow> bool" where
  "match_8 a b \<longleftrightarrow> load8 a = load8 b"

definition match_mask8 :: "byte list \<Rightarrow> byte list \<Rightarrow> byte list \<Rightarrow> bool" where
  "match_mask8 a am b \<longleftrightarrow> load8 am AND (load8 a XOR load8 b) = 0"

definition match_16 :: "byte list \<Rightarrow> byte list \<Rightarrow> bool" where
  "match_16 a b \<longleftrightarrow> load16 a = load16 b"

definition match_mask16 :: "byte list \<Rightarrow> byte list \<Rightarrow> byte list \<Rightarrow> bool" where
  "match_mask16 a am b \<longleftrightarrow> load16 am AND (load16 a XOR load16 b) = 0"

definition match_24 :: "byte list \<Rightarrow> byte list \<Rightarrow> bool" where
  "match_24 a b \<longleftrightarrow> match_16 a b \<and> match_8 (drop 2 a) (drop 2 b)"

definition match_mask24 :: "byte list \<Rightarrow> byte list \<Rightarrow> byte list \<Rightarrow> bool" where
  "match_mask24 a am b \<longleftrightarrow> match_mask16 a am b \<and> match_mask8 (drop 2 a) (drop 2 am) (drop 2 b)"

definition match_32 :: "byte list \<Rightarrow> byte list \<Rightarrow> bool" where
  "match_32 a b \<longleftrightarrow> load32 a = load32 b"

definition match_mask32 :: "byte list \<Rightarrow> byte list \<Rightarrow> byte list \<Rightarrow> bool" where
  "match_mask32 a am b \<longleftrightarrow> load32 am AND (load32 a XOR load32 b) = 0"

definition match_48 :: "byte list \<Rightarrow> byte list \<Rightarrow> bool" where
  "match_48 a b \<longleftrightarrow> match_32 a b \<and> match_16 (drop 4 a) (drop 4 b)"

definition match_mask48 :: "byte list \<Rightarrow> byte list \<Rightarrow> byte list \<Rightarrow> bool" where
  "match_mask48 a am b \<longleftrightarrow> match_mask32 a am b \<and> match_mask16 (drop 4 a) (drop 4 am) (drop 4 b)"

definition match_64 :: "byte list \<Rightarrow> byte list \<Rightarrow> bool" where
  "match_64 a b \<longleftrightarrow> load64 a = load64 b"

definition match_mask64 :: "byte list \<Rightarrow> byte list \<Rightarrow> byte list \<Rightarrow> bool" where
  "match_mask64 a am b \<longleftrightarrow> load64 am AND (load64 a XOR load64 b) = 0"

definition match_128 :: "byte list \<Rightarrow> byte list \<Rightarrow> bool" where
  "match_128 a b \<longleftrightarrow> match_64 a b \<and> match_64 (drop 8 a) (drop 8 b)"

definition match_mask128 :: "byte list \<Rightarrow> byte list \<Rightarrow> byte list \<Rightarrow> bool" where
  "match_mask128 a am b \<longleftrightarrow> match_mask64 a am b \<and> match_mask64 (drop 8 a) (drop 8 am) (drop 8 b)"

definition match_port :: "byte list \<Rightarrow> byte list \<Rightarrow> bool" where
  "match_port a b \<longleftrightarrow> bytes_eq (4 * EHDDP_MAX_ELEMENTS) a b"

definition match_macs :: "byte list \<Rightarrow> byte list \<Rightarrow> bool" where
  "match_macs a b \<longleftrightarrow> bytes_eq (8 * EHDDP_MAX_ELEMENTS) a b"

text \<open>The header without its mask: the mask bit cleared and half the length.\<close>

definition field_len :: "u32 \<Rightarrow> nat" where
  "field_len h = (if oxm_hasmask h then oxm_length h div 2 else oxm_length h)"

definition unmasked_header :: "u32 \<Rightarrow> u32" where
  "unmasked_header h =
     (if oxm_hasmask h then (h AND 0xfffffe00) OR of_nat (oxm_length h div 2) else h)"

text \<open>One round of the loop over the fields of the flow: \<open>False\<close> is the early return.\<close>

definition packet_match_field :: "ofl_match_tlv \<Rightarrow> ofl_match \<Rightarrow> bool" where
  "packet_match_field f packet =
    (let has_mask = oxm_hasmask (tlv_header f);
         len = field_len (tlv_header f);
         packet_header = unmasked_header (tlv_header f);
         flow_val = tlv_value f;
         flow_mask = drop len (tlv_value f)
     in case oxm_match_lookup packet_header packet of
          None \<Rightarrow> tlv_header f = OXM_OF_VLAN_VID \<and> load16 (tlv_value f) = OFPVID_NONE
        | Some packet_f \<Rightarrow>
            (let packet_val = tlv_value packet_f
             in if len = 1 then
                  (if has_mask then match_mask8 flow_val flow_mask packet_val
                   else match_8 flow_val packet_val)
                else if len = 2 then
                  (if packet_header = OXM_OF_VLAN_VID then
                     (let flow_vlan_id = load16 flow_val
                      in if flow_vlan_id = OFPVID_NONE then False
                         else if flow_vlan_id = OFPVID_PRESENT then True
                         else (let vid = store16 (flow_vlan_id AND VLAN_VID_MASK)
                               in if has_mask then match_mask16 vid flow_mask packet_val
                                  else match_16 vid packet_val))
                   else if packet_header = OXM_OF_IPV6_EXTHDR then
                     load16 flow_val AND load16 packet_val = load16 flow_val
                   else if has_mask then match_mask16 flow_val flow_mask packet_val
                   else match_16 flow_val packet_val)
                else if len = 3 then
                  (if has_mask then match_mask24 flow_val flow_mask packet_val
                   else match_24 flow_val packet_val)
                else if len = 4 then
                  (if has_mask then match_mask32 flow_val flow_mask packet_val
                   else match_32 flow_val packet_val)
                else if len = 6 then
                  (if has_mask then match_mask48 flow_val flow_mask packet_val
                   else match_48 flow_val packet_val)
                else if len = 8 then
                  (if has_mask then match_mask64 flow_val flow_mask packet_val
                   else match_64 flow_val packet_val)
                else if len = 16 then
                  (if has_mask then match_mask128 flow_val flow_mask packet_val
                   else match_128 flow_val packet_val)
                else if len = 4 * EHDDP_MAX_ELEMENTS then match_port flow_val packet_val
                else if len = 8 * EHDDP_MAX_ELEMENTS then match_macs flow_val packet_val
                else True))"

definition packet_match :: "ofl_match \<Rightarrow> ofl_match \<Rightarrow> bool" where
  "packet_match flow_match packet \<longleftrightarrow>
     m_length flow_match = 0 \<or> list_all (\<lambda>f. packet_match_field f packet) (match_tlvs flow_match)"

section \<open>Strict comparison\<close>

definition strict_mask8 :: "byte list \<Rightarrow> byte list \<Rightarrow> byte list \<Rightarrow> byte list \<Rightarrow> bool" where
  "strict_mask8 a b am bm \<longleftrightarrow>
     \<not> (load8 am = load8 bm \<and> (load8 a XOR load8 b) AND load8 am \<noteq> 0)"

definition strict_mask16 :: "byte list \<Rightarrow> byte list \<Rightarrow> byte list \<Rightarrow> byte list \<Rightarrow> bool" where
  "strict_mask16 a b am bm \<longleftrightarrow>
     \<not> (load16 am = load16 bm \<and> (load16 a XOR load16 b) AND load16 am \<noteq> 0)"

definition strict_mask24 :: "byte list \<Rightarrow> byte list \<Rightarrow> byte list \<Rightarrow> byte list \<Rightarrow> bool" where
  "strict_mask24 a b am bm \<longleftrightarrow> strict_mask16 a b am bm \<and>
     strict_mask8 (drop 2 a) (drop 2 b) (drop 2 am) (drop 2 bm)"

definition strict_mask32 :: "byte list \<Rightarrow> byte list \<Rightarrow> byte list \<Rightarrow> byte list \<Rightarrow> bool" where
  "strict_mask32 a b am bm \<longleftrightarrow>
     \<not> (load32 am = load32 bm \<and> (load32 a XOR load32 b) AND load32 am \<noteq> 0)"

definition strict_mask_ip :: "byte list \<Rightarrow> byte list \<Rightarrow> byte list \<Rightarrow> byte list \<Rightarrow> bool" where
  "strict_mask_ip a b am bm \<longleftrightarrow>
     \<not> (load32 am = load32 bm \<and> (load32 a XOR load32 b) AND load32 am \<noteq> 0)"

definition strict_mask48 :: "byte list \<Rightarrow> byte list \<Rightarrow> byte list \<Rightarrow> byte list \<Rightarrow> bool" where
  "strict_mask48 a b am bm \<longleftrightarrow> strict_mask32 a b am bm \<and>
     strict_mask16 (drop 4 a) (drop 4 b) (drop 4 am) (drop 4 bm)"

definition strict_mask64 :: "byte list \<Rightarrow> byte list \<Rightarrow> byte list \<Rightarrow> byte list \<Rightarrow> bool" where
  "strict_mask64 a b am bm \<longleftrightarrow>
     \<not> (load64 am = load64 bm \<and> (load64 a XOR load64 b) AND load64 am \<noteq> 0)"

definition strict_mask128 :: "byte list \<Rightarrow> byte list \<Rightarrow> byte list \<Rightarrow> byte list \<Rightarrow> bool" where
  "strict_mask128 a b am bm \<longleftrightarrow> strict_mask64 a b am bm \<and>
     strict_mask64 (drop 8 a) (drop 8 b) (drop 8 am) (drop 8 bm)"

definition OFPXMT_OFB_IPV4_SRC :: u32 where "OFPXMT_OFB_IPV4_SRC = 11"
definition OFPXMT_OFB_IPV4_DST :: u32 where "OFPXMT_OFB_IPV4_DST = 12"
definition OFPXMT_OFB_ARP_SPA :: u32 where "OFPXMT_OFB_ARP_SPA = 22"
definition OFPXMT_OFB_ARP_TPA :: u32 where "OFPXMT_OFB_ARP_TPA = 23"

definition strict_field :: "ofl_match_tlv \<Rightarrow> ofl_match \<Rightarrow> bool" where
  "strict_field f b =
    (case oxm_match_lookup (tlv_header f) b of
       None \<Rightarrow> False
     | Some g \<Rightarrow>
        (let oxm_fld = oxm_field (tlv_header f);
             has_mask = oxm_hasmask (tlv_header f);
             len = field_len (tlv_header f);
             mod_val = tlv_value f; entry_val = tlv_value g;
             mod_mask = drop len (tlv_value f); entry_mask = drop len (tlv_value g)
         in if len = 1 then
              (if has_mask then strict_mask8 mod_val entry_val mod_mask entry_mask
               else match_8 mod_val entry_val)
            else if len = 2 then
              (if has_mask then strict_mask16 mod_val entry_val mod_mask entry_mask
               else match_16 mod_val entry_val)
            else if len = 3 then
              (if has_mask then strict_mask24 mod_val entry_val mod_mask entry_mask
               else match_24 mod_val entry_val)
            else if len = 4 then
              (if has_mask then
                 (if oxm_fld \<in> {OFPXMT_OFB_IPV4_SRC, OFPXMT_OFB_IPV4_DST, OFPXMT_OFB_ARP_SPA,
                      OFPXMT_OFB_ARP_TPA} \<and>
                     \<not> strict_mask_ip mod_val entry_val mod_mask entry_mask then False
                  else strict_mask32 mod_val entry_val mod_mask entry_mask)
               else match_32 mod_val entry_val)
            else if len = 6 then
              (if has_mask then strict_mask48 mod_val entry_val mod_mask entry_mask
               else match_48 mod_val entry_val)
            else if len = 8 then
              (if has_mask then strict_mask64 mod_val entry_val mod_mask entry_mask
               else match_64 mod_val entry_val)
            else if len = 16 then
              (if has_mask then strict_mask128 mod_val entry_val mod_mask entry_mask
               else match_128 mod_val entry_val)
            else if len = 4 * EHDDP_MAX_ELEMENTS then match_port mod_val entry_val
            else if len = 8 * EHDDP_MAX_ELEMENTS then match_macs mod_val entry_val
            else True))"

definition match_std_strict :: "ofl_match \<Rightarrow> ofl_match \<Rightarrow> bool" where
  "match_std_strict a b =
    (if m_length a = 0 \<and> m_length b = 0 then True
     else if m_length a \<noteq> m_length b then False
     else list_all (\<lambda>f. strict_field f b) (match_tlvs a))"

section \<open>Non-strict comparison\<close>

definition nonstrict_mask8 :: "byte list \<Rightarrow> byte list \<Rightarrow> byte list \<Rightarrow> byte list \<Rightarrow> bool" where
  "nonstrict_mask8 a b am bm \<longleftrightarrow>
     (NOT (load8 am) AND (NOT (load8 a) OR NOT (load8 b) OR load8 bm) AND
       (load8 a OR load8 b OR load8 bm)) = 0"

definition nonstrict_mask16 :: "byte list \<Rightarrow> byte list \<Rightarrow> byte list \<Rightarrow> byte list \<Rightarrow> bool" where
  "nonstrict_mask16 a b am bm \<longleftrightarrow>
     (NOT (load16 am) AND (NOT (load16 a) OR NOT (load16 b) OR load16 bm) AND
       (load16 a OR load16 b OR load16 bm)) = 0"

definition nonstrict_mask24 :: "byte list \<Rightarrow> byte list \<Rightarrow> byte list \<Rightarrow> byte list \<Rightarrow> bool" where
  "nonstrict_mask24 a b am bm \<longleftrightarrow> nonstrict_mask16 a b am bm \<and>
     nonstrict_mask8 (drop 2 a) (drop 2 b) (drop 2 am) (drop 2 bm)"

definition nonstrict_mask32 :: "byte list \<Rightarrow> byte list \<Rightarrow> byte list \<Rightarrow> byte list \<Rightarrow> bool" where
  "nonstrict_mask32 a b am bm \<longleftrightarrow>
     (NOT (load32 am) AND (NOT (load32 a) OR NOT (load32 b) OR load32 bm) AND
       (load32 a OR load32 b OR load32 bm)) = 0"

definition nonstrict_mask48 :: "byte list \<Rightarrow> byte list \<Rightarrow> byte list \<Rightarrow> byte list \<Rightarrow> bool" where
  "nonstrict_mask48 a b am bm \<longleftrightarrow> nonstrict_mask32 a b am bm \<and>
     nonstrict_mask16 (drop 4 a) (drop 4 b) (drop 4 am) (drop 4 bm)"

definition nonstrict_mask64 :: "byte list \<Rightarrow> byte list \<Rightarrow> byte list \<Rightarrow> byte list \<Rightarrow> bool" where
  "nonstrict_mask64 a b am bm \<longleftrightarrow>
     (NOT (load64 am) AND (NOT (load64 a) OR NOT (load64 b) OR load64 bm) AND
       (load64 a OR load64 b OR load64 bm)) = 0"

definition nonstrict_mask128 :: "byte list \<Rightarrow> byte list \<Rightarrow> byte list \<Rightarrow> byte list \<Rightarrow> bool" where
  "nonstrict_mask128 a b am bm \<longleftrightarrow> nonstrict_mask64 a b am bm \<and>
     nonstrict_mask64 (drop 8 a) (drop 8 b) (drop 8 am) (drop 8 bm)"

definition nonstrict_field :: "ofl_match_tlv \<Rightarrow> ofl_match \<Rightarrow> bool" where
  "nonstrict_field f b =
    (case oxm_match_lookup (tlv_header f) b of
       None \<Rightarrow> False
     | Some g \<Rightarrow>
        (let has_mask = oxm_hasmask (tlv_header f);
             len = field_len (tlv_header f);
             mod_val = tlv_value f; entry_val = tlv_value g;
             mod_mask = drop len (tlv_value f); entry_mask = drop len (tlv_value g)
         in if len = 1 then
              (if has_mask then nonstrict_mask8 mod_val entry_val mod_mask entry_mask
               else match_8 mod_val entry_val)
            else if len = 2 then
              (if has_mask then nonstrict_mask16 mod_val entry_val mod_mask entry_mask
               else match_16 mod_val entry_val)
            else if len = 3 then
              (if has_mask then nonstrict_mask24 mod_val entry_val mod_mask entry_mask
               else match_24 mod_val entry_val)
            else if len = 4 then
              (if has_mask then nonstrict_mask32 mod_val entry_val mod_mask entry_mask
               else match_32 mod_val entry_val)
            else if len = 6 then
              (if has_mask then nonstrict_mask48 mod_val entry_val mod_mask entry_mask
               else match_48 mod_val entry_val)
            else if len = 8 then
              (if has_mask then nonstrict_mask64 mod_val entry_val mod_mask entry_mask
               else match_64 mod_val entry_val)
            else if len = 16 then
              (if has_mask then nonstrict_mask128 mod_val entry_val mod_mask entry_mask
               else match_128 mod_val entry_val)
            else True))"

definition match_std_nonstrict :: "ofl_match \<Rightarrow> ofl_match \<Rightarrow> bool" where
  "match_std_nonstrict a b \<longleftrightarrow>
     m_length a = 0 \<or> list_all (\<lambda>f. nonstrict_field f b) (match_tlvs a)"

section \<open>Overlap\<close>

definition incompatible_8 :: "byte list \<Rightarrow> byte list \<Rightarrow> byte list \<Rightarrow> byte list \<Rightarrow> bool" where
  "incompatible_8 a b am bm \<longleftrightarrow> (load8 am AND load8 a) XOR (load8 bm AND load8 b) \<noteq> 0"

definition incompatible_16 :: "byte list \<Rightarrow> byte list \<Rightarrow> byte list \<Rightarrow> byte list \<Rightarrow> bool" where
  "incompatible_16 a b am bm \<longleftrightarrow> (load16 am AND load16 a) XOR (load16 bm AND load16 b) \<noteq> 0"

definition incompatible_32 :: "byte list \<Rightarrow> byte list \<Rightarrow> byte list \<Rightarrow> byte list \<Rightarrow> bool" where
  "incompatible_32 a b am bm \<longleftrightarrow> (load32 am AND load32 a) XOR (load32 bm AND load32 b) \<noteq> 0"

definition incompatible_48 :: "byte list \<Rightarrow> byte list \<Rightarrow> byte list \<Rightarrow> byte list \<Rightarrow> bool" where
  "incompatible_48 a b am bm \<longleftrightarrow> incompatible_32 a b am bm \<or>
     incompatible_16 (drop 4 a) (drop 4 b) (drop 4 am) (drop 4 bm)"

definition incompatible_64 :: "byte list \<Rightarrow> byte list \<Rightarrow> byte list \<Rightarrow> byte list \<Rightarrow> bool" where
  "incompatible_64 a b am bm \<longleftrightarrow> (load64 am AND load64 a) XOR (load64 bm AND load64 b) \<noteq> 0"

definition incompatible_128 :: "byte list \<Rightarrow> byte list \<Rightarrow> byte list \<Rightarrow> byte list \<Rightarrow> bool" where
  "incompatible_128 a b am bm \<longleftrightarrow> incompatible_64 a b am bm \<or>
     incompatible_64 (drop 8 a) (drop 8 b) (drop 8 am) (drop 8 bm)"

definition all_mask :: "byte list" where
  "all_mask = replicate 16 0xff"

definition masked_header :: "u32 \<Rightarrow> u32" where
  "masked_header h =
     (if oxm_hasmask h then h
      else (h AND 0xfffffe00) OR 0x100 OR of_nat (oxm_length h * 2))"

definition overlap_field :: "ofl_match_tlv \<Rightarrow> ofl_match \<Rightarrow> bool" where
  "overlap_field f b =
    (let len = field_len (tlv_header f);
         val_a = tlv_value f;
         mask_a = (if oxm_hasmask (tlv_header f) then drop len (tlv_value f) else all_mask)
     in case (case oxm_match_lookup (unmasked_header (tlv_header f)) b of
                Some g \<Rightarrow> Some g
              | None \<Rightarrow> oxm_match_lookup (masked_header (tlv_header f)) b) of
          None \<Rightarrow> True
        | Some g \<Rightarrow>
            (let val_b = tlv_value g;
                 mask_b = (if oxm_hasmask (tlv_header g) then drop len (tlv_value g) else all_mask)
             in if len = 1 then \<not> incompatible_8 val_a val_b mask_a mask_b
                else if len = 2 then \<not> incompatible_16 val_a val_b mask_a mask_b
                else if len = 4 then \<not> incompatible_32 val_a val_b mask_a mask_b
                else if len = 6 then \<not> incompatible_48 val_a val_b mask_a mask_b
                else if len = 8 then \<not> incompatible_64 val_a val_b mask_a mask_b
                else if len = 16 then \<not> incompatible_128 val_a val_b mask_a mask_b
                else True))"

definition match_std_overlap :: "ofl_match \<Rightarrow> ofl_match \<Rightarrow> bool" where
  "match_std_overlap a b \<longleftrightarrow> list_all (\<lambda>f. overlap_field f b) (match_tlvs a)"


section \<open>Well-formed matches\<close>

definition tlv_ok :: "ofl_match_tlv \<Rightarrow> bool" where
  "tlv_ok f \<longleftrightarrow> length (tlv_value f) = oxm_length (tlv_header f)"

definition fields_size :: "ofl_match_tlv list \<Rightarrow> nat" where
  "fields_size fs = sum_list (map (\<lambda>f. length (tlv_value f) + 4) fs)"

definition match_ok :: "ofl_match \<Rightarrow> bool" where
  "match_ok m \<longleftrightarrow>
     hmap_inv (match_fields m) \<and>
     (\<forall>nd \<in> set (hm_elems (match_fields m)). fst nd = tlv_hash (tlv_header (snd nd))) \<and>
     distinct (map tlv_header (match_tlvs m)) \<and>
     (\<forall>f \<in> set (match_tlvs m). tlv_ok f) \<and>
     m_length m = of_nat (fields_size (match_tlvs m)) \<and> fields_size (match_tlvs m) < 2 ^ 16"

lemma match_ok_init: "match_ok ofl_structs_match_init" and fields_init [simp]: "match_tlvs ofl_structs_match_init = []"
  using hmap_inv_init
  by (simp_all add: match_ok_def ofl_structs_match_init_def match_tlvs_def hm_elems_def hmap_init_def
      fields_size_def)

lemma find_filter: "List.find P (map g (filter Q xs)) = List.find P (map g xs)"
  if "\<And>x. x \<in> set xs \<Longrightarrow> P (g x) \<Longrightarrow> Q x"
  using that by (induction xs) auto

lemma find_Some_distinct:
  assumes "distinct (map k xs)" and "x \<in> set xs"
  shows "List.find (\<lambda>y. k y = k x) xs = Some x"
  using assms by (induction xs) (auto simp: rev_image_eqI)

lemma find_SomeD: "List.find P xs = Some x \<Longrightarrow> x \<in> set xs \<and> P x"
  by (induction xs) (auto split: if_splits)

lemma lookup_Some_iff:
  assumes "match_ok m"
  shows "oxm_match_lookup h m = Some f \<longleftrightarrow> f \<in> set (match_tlvs m) \<and> tlv_header f = h"
proof -
  let ?i = "bucket_of (tlv_hash h) (hm_mask (match_fields m))"
  let ?b = "hm_buckets (match_fields m)"
  have inv: "hmap_inv (match_fields m)" using assms by (simp add: match_ok_def)
  have i: "?i < length ?b" by (rule bucket_of_less [OF inv])
  have sub: "set (?b ! ?i) \<subseteq> set (hm_elems (match_fields m))"
    using nth_mem [OF i] by (auto simp: hm_elems_def)
  have look: "oxm_match_lookup h m = List.find (\<lambda>f. tlv_header f = h) (map snd (?b ! ?i))"
    unfolding oxm_match_lookup_def hmap_with_hash_def
    by (rule find_filter) (use assms sub in \<open>auto simp: match_ok_def\<close>)
  have dist: "distinct (map tlv_header (map snd (?b ! ?i)))"
  proof -
    have "distinct (concat (map (map (tlv_header \<circ> snd)) ?b))"
      using assms by (simp add: match_ok_def match_tlvs_def hm_elems_def map_concat comp_def)
    then show ?thesis using nth_mem [OF i] by (auto simp: distinct_concat_iff comp_def)
  qed
  show ?thesis
  proof
    assume "oxm_match_lookup h m = Some f"
    then show "f \<in> set (match_tlvs m) \<and> tlv_header f = h"
      using sub find_SomeD by (fastforce simp: look match_tlvs_def)
  next
    assume f: "f \<in> set (match_tlvs m) \<and> tlv_header f = h"
    then obtain nd where nd: "nd \<in> set (hm_elems (match_fields m))" "f = snd nd"
      by (auto simp: match_tlvs_def)
    then have "fst nd = tlv_hash h" using assms f by (auto simp: match_ok_def)
    moreover obtain b where "b \<in> set ?b" "nd \<in> set b" using nd(1) by (auto simp: hm_elems_def)
    then obtain j where j: "j < length ?b" "nd \<in> set (?b ! j)" by (auto simp: in_set_conv_nth)
    ultimately have "nd \<in> set (?b ! ?i)" using hmap_inv_bucket [OF inv j] by simp
    then show "oxm_match_lookup h m = Some f"
      using find_Some_distinct [OF dist, of f] f nd(2) by (simp add: look)
  qed
qed

lemma lookup_None_iff:
  assumes "match_ok m"
  shows "oxm_match_lookup h m = None \<longleftrightarrow> h \<notin> tlv_header ` set (match_tlvs m)"
  using lookup_Some_iff [OF assms, of h] by (cases "oxm_match_lookup h m") force+

lemma lookup_field:
  "match_ok m \<Longrightarrow> f \<in> set (match_tlvs m) \<Longrightarrow> oxm_match_lookup (tlv_header f) m = Some f"
  by (simp add: lookup_Some_iff)

lemma of_nat_eq_0_iff_small: "n < 2 ^ 16 \<Longrightarrow> of_nat n = (0 :: u16) \<longleftrightarrow> n = 0"
proof
  assume n: "n < 2 ^ 16" and z: "of_nat n = (0 :: u16)"
  from n have "n = unat (of_nat n :: u16)" by (simp add: unat_of_nat)
  then show "n = 0" by (simp only: z unat_0)
qed simp

lemma no_fields_iff: "match_ok m \<Longrightarrow> m_length m = 0 \<longleftrightarrow> match_tlvs m = []"
proof
  assume ok: "match_ok m" and "m_length m = 0"
  then have "of_nat (fields_size (match_tlvs m)) = (0 :: u16)" "fields_size (match_tlvs m) < 2 ^ 16"
    by (simp_all add: match_ok_def)
  then have "fields_size (match_tlvs m) = 0" by (simp add: of_nat_eq_0_iff_small)
  then show "match_tlvs m = []" by (auto simp: fields_size_def)
qed (simp add: match_ok_def fields_size_def)

text \<open>Inserting a TLV for a new header keeps the match well-formed and adds just that field.\<close>

lemma fields_match_put:
  assumes "match_ok m"
  shows "mset (match_tlvs (match_put m h v)) = add_mset \<lparr>tlv_header = h, tlv_value = v\<rparr> (mset (match_tlvs m))"
  using hmap_insert_correct [of "match_fields m" "(tlv_hash h, \<lparr>tlv_header = h, tlv_value = v\<rparr>)"] assms
  by (simp add: match_ok_def match_tlvs_def match_put_def)

lemma match_ok_put:
  assumes ok: "match_ok m" and h: "h \<notin> tlv_header ` set (match_tlvs m)" and v: "length v = oxm_length h"
    and small: "fields_size (match_tlvs m) + length v + 4 < 2 ^ 16"
  shows "match_ok (match_put m h v)"
proof -
  let ?f = "\<lparr>tlv_header = h, tlv_value = v\<rparr>"
  let ?hm = "hmap_insert (tlv_hash h, ?f) (match_fields m)"
  have ins: "hmap_inv ?hm" "mset (hm_elems ?hm) = add_mset (tlv_hash h, ?f) (mset (hm_elems (match_fields m)))"
    using hmap_insert_correct [of "match_fields m" "(tlv_hash h, ?f)"] ok by (auto simp: match_ok_def)
  have se: "set (hm_elems ?hm) = insert (tlv_hash h, ?f) (set (hm_elems (match_fields m)))"
    using arg_cong [OF ins(2), of set_mset] by simp
  note fm = fields_match_put [OF ok, of h v]
  have sf: "set (match_tlvs (match_put m h v)) = insert ?f (set (match_tlvs m))"
    using arg_cong [OF fm, of set_mset] by simp
  have size: "fields_size (match_tlvs (match_put m h v)) = fields_size (match_tlvs m) + length v + 4"
    using arg_cong [OF fm, of "\<lambda>M. sum_mset (image_mset (\<lambda>f. length (tlv_value f) + 4) M)"]
    by (simp add: fields_size_def flip: sum_mset_sum_list mset_map)
  have dist: "distinct (map tlv_header (match_tlvs (match_put m h v)))"
  proof -
    have "mset (map tlv_header (match_tlvs (match_put m h v))) = mset (h # map tlv_header (match_tlvs m))"
      using arg_cong [OF fm, of "image_mset tlv_header"] by simp
    moreover have "distinct (h # map tlv_header (match_tlvs m))" using h ok by (simp add: match_ok_def)
    ultimately show ?thesis by (metis mset_eq_imp_distinct_iff)
  qed
  show ?thesis
    unfolding match_ok_def
    using ins(1) se sf size dist ok v small
    by (auto simp: match_put_def match_ok_def tlv_ok_def)
qed

lemma lookup_match_put:
  assumes ok: "match_ok m" and h: "h \<notin> tlv_header ` set (match_tlvs m)" and v: "length v = oxm_length h"
    and small: "fields_size (match_tlvs m) + length v + 4 < 2 ^ 16"
  shows "oxm_match_lookup k (match_put m h v) =
    (if k = h then Some \<lparr>tlv_header = h, tlv_value = v\<rparr> else oxm_match_lookup k m)"
proof -
  have sf: "set (match_tlvs (match_put m h v)) = insert \<lparr>tlv_header = h, tlv_value = v\<rparr> (set (match_tlvs m))"
    using arg_cong [OF fields_match_put [OF ok, of h v], of set_mset] by simp
  have ok': "match_ok (match_put m h v)" by (rule match_ok_put [OF assms])
  show ?thesis
  proof (cases "oxm_match_lookup k m")
    case None
    then have "oxm_match_lookup k (match_put m h v) = None" if "k \<noteq> h"
      using that sf lookup_None_iff [OF ok', of k] lookup_None_iff [OF ok, of k] by simp
    then show ?thesis using None sf lookup_Some_iff [OF ok', of k] by auto
  next
    case (Some f)
    then have "f \<in> set (match_tlvs m)" "tlv_header f = k" using lookup_Some_iff [OF ok] by auto
    then show ?thesis using Some sf h lookup_Some_iff [OF ok'] by auto
  qed
qed


section \<open>The comparisons of a field, byte by byte\<close>

lemma match_bytes:
  "match_8 a b = bytes_eq 1 a b" "match_16 a b = bytes_eq 2 a b" "match_24 a b = bytes_eq 3 a b"
  "match_32 a b = bytes_eq 4 a b" "match_48 a b = bytes_eq 6 a b" "match_64 a b = bytes_eq 8 a b"
  "match_128 a b = bytes_eq 16 a b"
  using bytes_eq_add [of 2 1 a b] bytes_eq_add [of 4 2 a b] bytes_eq_add [of 8 8 a b]
  by (simp_all add: match_8_def match_16_def match_24_def match_32_def match_48_def match_64_def
      match_128_def load_eq)

lemma match_mask_bytes:
  "match_mask8 a m b = bytes_eq_under 1 m a b" "match_mask16 a m b = bytes_eq_under 2 m a b"
  "match_mask24 a m b = bytes_eq_under 3 m a b" "match_mask32 a m b = bytes_eq_under 4 m a b"
  "match_mask48 a m b = bytes_eq_under 6 m a b" "match_mask64 a m b = bytes_eq_under 8 m a b"
  "match_mask128 a m b = bytes_eq_under 16 m a b"
  using bytes_eq_under_add [of 2 1 m a b] bytes_eq_under_add [of 4 2 m a b]
    bytes_eq_under_add [of 8 8 m a b]
  by (simp_all add: match_mask8_def match_mask16_def match_mask24_def match_mask32_def
      match_mask48_def match_mask64_def match_mask128_def load_masked)

definition std_len :: "nat \<Rightarrow> bool" where
  "std_len n \<longleftrightarrow> n \<in> {1, 2, 3, 4, 6, 8, 16}"

text \<open>
  What a flow field asks of a packet, independent of the width of the loads: the bytes of
  the value under the mask, with the two special fields of OpenFlow 1.3.
\<close>

definition mask_bytes :: "ofl_match_tlv \<Rightarrow> byte list" where
  "mask_bytes f = (if oxm_hasmask (tlv_header f) then drop (field_len (tlv_header f)) (tlv_value f)
     else replicate (field_len (tlv_header f)) 0xff)"

fun field_accepts :: "ofl_match_tlv \<Rightarrow> ofl_match_tlv option \<Rightarrow> bool" where
  "field_accepts f None \<longleftrightarrow>
     tlv_header f = OXM_OF_VLAN_VID \<and> load16 (tlv_value f) = OFPVID_NONE"
| "field_accepts f (Some pf) \<longleftrightarrow>
     (if unmasked_header (tlv_header f) = OXM_OF_VLAN_VID then
        load16 (tlv_value f) \<noteq> OFPVID_NONE \<and>
        (load16 (tlv_value f) = OFPVID_PRESENT \<or>
         bytes_eq_under 2 (mask_bytes f) (store16 (load16 (tlv_value f) AND VLAN_VID_MASK))
           (tlv_value pf))
      else if unmasked_header (tlv_header f) = OXM_OF_IPV6_EXTHDR then
        (\<forall>i<16. bit (load16 (tlv_value f)) i \<longrightarrow> bit (load16 (tlv_value pf)) i)
      else bytes_eq_under (field_len (tlv_header f)) (mask_bytes f) (tlv_value f) (tlv_value pf))"

lemma bytes_eq_under_ones: "bytes_eq_under n (replicate n 0xff) a b = bytes_eq n a b"
proof -
  have m1: "(0xff :: u8) = - 1" by simp
  have "(0xff :: u8) AND w = w" for w unfolding m1 by simp
  then show ?thesis
    by (simp add: bytes_eq_under_def bytes_eq_def byte_at_def [of "replicate n 0xff"] xor_zero_iff)
qed

lemma and_eq_self_iff: "a AND b = a \<longleftrightarrow> (\<forall>i<16. bit a i \<longrightarrow> bit b i)" for a b :: u16
proof
  assume "\<forall>i<16. bit a i \<longrightarrow> bit b i"
  then show "a AND b = a" by (intro bit_word_eqI) (auto simp: bit_and_iff)
qed (metis bit_and_iff)

lemma oxm_length_take_bit: "oxm_length h = unat (take_bit 8 h)"
  by (simp add: oxm_length_def take_bit_eq_mask mask_eq_exp_minus_1)

lemma oxm_length_unmasked: "oxm_length (unmasked_header h) = field_len h"
proof (cases "oxm_hasmask h")
  case True
  let ?n = "oxm_length h div 2"
  have "unat (take_bit 8 h) < 2 ^ 8"
    using take_bit_nat_less_exp [of 8 "unat h"] by (simp add: unsigned_take_bit_eq)
  then have n: "?n < 256" by (simp add: oxm_length_take_bit)
  have z: "take_bit 8 (0xfffffe00 :: u32) = 0" by simp
  have "take_bit 8 (of_nat ?n :: u32) = of_nat ?n"
    using n by (simp add: take_bit_of_nat take_bit_nat_eq_self)
  then have "take_bit 8 (unmasked_header h) = of_nat ?n"
    using True by (simp add: unmasked_header_def take_bit_or take_bit_and z)
  then show ?thesis using True n by (simp add: oxm_length_take_bit field_len_def unat_of_nat)
qed (simp add: field_len_def unmasked_header_def)

lemma unmasked_special_len:
  "unmasked_header h = OXM_OF_VLAN_VID \<Longrightarrow> field_len h = 2"
  "unmasked_header h = OXM_OF_IPV6_EXTHDR \<Longrightarrow> field_len h = 2"
  using oxm_length_unmasked [of h]
  by (simp_all add: OXM_OF_VLAN_VID_def OXM_OF_IPV6_EXTHDR_def oxm_length_def)

lemma packet_match_field_accepts:
  assumes "std_len (field_len (tlv_header f))"
  shows "packet_match_field f p =
    field_accepts f (oxm_match_lookup (unmasked_header (tlv_header f)) p)"
proof (cases "oxm_match_lookup (unmasked_header (tlv_header f)) p")
  case None
  then show ?thesis by (simp add: packet_match_field_def Let_def)
next
  case (Some pf)
  let ?h = "tlv_header f"
  note defs = packet_match_field_def Let_def match_bytes match_mask_bytes mask_bytes_def
    bytes_eq_under_ones
  show ?thesis
  proof (cases "field_len ?h = 2")
    case True
    with Some bytes_eq_under_ones [of 2] show ?thesis
      by (simp add: defs and_eq_self_iff numeral_2_eq_2)
  next
    case False
    then have "unmasked_header ?h \<noteq> OXM_OF_VLAN_VID" "unmasked_header ?h \<noteq> OXM_OF_IPV6_EXTHDR"
      using unmasked_special_len [of ?h] by auto
    with False Some assms show ?thesis
      by (auto simp: defs std_len_def bytes_eq_under_ones [of 1, simplified])
  qed
qed

text \<open>The special fields aside, an unmasked field accepts exactly the packets that carry its value.\<close>

lemma packet_match_accepts:
  assumes "match_ok m" and "\<And>f. f \<in> set (match_tlvs m) \<Longrightarrow> std_len (field_len (tlv_header f))"
  shows "packet_match m p \<longleftrightarrow> (\<forall>f \<in> set (match_tlvs m).
    field_accepts f (oxm_match_lookup (unmasked_header (tlv_header f)) p))"
  using assms no_fields_iff [OF assms(1)]
  by (auto simp: packet_match_def list_all_iff packet_match_field_accepts)

lemma match_okD:
  "match_ok m \<Longrightarrow> f \<in> set (match_tlvs m) \<Longrightarrow> tlv_ok f"
  by (simp add: match_ok_def)

lemma same_value_iff:
  assumes "match_ok b" "tlv_ok f" "\<not> oxm_hasmask (tlv_header f)"
  shows "(\<exists>g. oxm_match_lookup (tlv_header f) b = Some g \<and>
      bytes_eq (field_len (tlv_header f)) (tlv_value f) (tlv_value g)) \<longleftrightarrow> f \<in> set (match_tlvs b)"
proof
  assume "\<exists>g. oxm_match_lookup (tlv_header f) b = Some g \<and>
      bytes_eq (field_len (tlv_header f)) (tlv_value f) (tlv_value g)"
  then obtain g where g: "oxm_match_lookup (tlv_header f) b = Some g"
    "bytes_eq (field_len (tlv_header f)) (tlv_value f) (tlv_value g)" by auto
  have m: "g \<in> set (match_tlvs b)" "tlv_header g = tlv_header f"
    using g lookup_Some_iff [OF assms(1)] by auto
  have "tlv_value f = tlv_value g"
    using g(2) assms(2,3) m match_okD [OF assms(1) m(1)]
    by (simp add: bytes_eq_full tlv_ok_def field_len_def)
  with m have "f = g" by simp
  with m show "f \<in> set (match_tlvs b)" by simp
next
  assume "f \<in> set (match_tlvs b)"
  then show "\<exists>g. oxm_match_lookup (tlv_header f) b = Some g \<and>
      bytes_eq (field_len (tlv_header f)) (tlv_value f) (tlv_value g)"
    using lookup_field [OF assms(1)] by auto
qed

lemma strict_field_unmasked:
  assumes "match_ok b" "tlv_ok f" "\<not> oxm_hasmask (tlv_header f)" "std_len (field_len (tlv_header f))"
  shows "strict_field f b \<longleftrightarrow> f \<in> set (match_tlvs b)"
proof (cases "oxm_match_lookup (tlv_header f) b")
  case None
  then show ?thesis using same_value_iff [OF assms(1,2,3)] by (simp add: strict_field_def)
next
  case (Some g)
  then have "strict_field f b \<longleftrightarrow> bytes_eq (field_len (tlv_header f)) (tlv_value f) (tlv_value g)"
    using assms(3,4) unfolding strict_field_def Let_def std_len_def match_bytes
    by (elim insertE) simp_all
  then show ?thesis using Some same_value_iff [OF assms(1,2,3)] by simp
qed

lemma nonstrict_field_unmasked:
  assumes "match_ok b" "tlv_ok f" "\<not> oxm_hasmask (tlv_header f)" "std_len (field_len (tlv_header f))"
  shows "nonstrict_field f b \<longleftrightarrow> f \<in> set (match_tlvs b)"
proof (cases "oxm_match_lookup (tlv_header f) b")
  case None
  then show ?thesis using same_value_iff [OF assms(1,2,3)] by (simp add: nonstrict_field_def)
next
  case (Some g)
  then have "nonstrict_field f b \<longleftrightarrow> bytes_eq (field_len (tlv_header f)) (tlv_value f) (tlv_value g)"
    using assms(3,4) unfolding nonstrict_field_def Let_def std_len_def match_bytes
    by (elim insertE) simp_all
  then show ?thesis using Some same_value_iff [OF assms(1,2,3)] by simp
qed

text \<open>Matches without masked fields, all of a supported width.\<close>

definition exact_match :: "ofl_match \<Rightarrow> bool" where
  "exact_match m \<longleftrightarrow> match_ok m \<and> (\<forall>f \<in> set (match_tlvs m).
     \<not> oxm_hasmask (tlv_header f) \<and> std_len (field_len (tlv_header f)))"

lemma nonstrict_exact:
  assumes "exact_match a" "match_ok b"
  shows "match_std_nonstrict a b \<longleftrightarrow> set (match_tlvs a) \<subseteq> set (match_tlvs b)"
  using assms no_fields_iff [of a] nonstrict_field_unmasked [OF assms(2)]
  by (auto simp: match_std_nonstrict_def exact_match_def list_all_iff match_okD)

lemma fields_size_distinct:
  "distinct xs \<Longrightarrow> fields_size xs = (\<Sum>f\<in>set xs. length (tlv_value f) + 4)"
  by (simp add: fields_size_def sum_list_distinct_conv_sum_set)

lemma match_tlvs_distinct: "match_ok m \<Longrightarrow> distinct (match_tlvs m)"
  by (auto simp: match_ok_def distinct_map)

lemma fields_size_length: "match_ok m \<Longrightarrow> unat (m_length m) = fields_size (match_tlvs m)"
  by (simp add: match_ok_def unat_of_nat)

lemma strict_exact:
  assumes a: "exact_match a" and b: "match_ok b"
  shows "match_std_strict a b \<longleftrightarrow> set (match_tlvs a) = set (match_tlvs b)"
proof -
  have oka: "match_ok a" using a by (simp add: exact_match_def)
  have all: "list_all (\<lambda>f. strict_field f b) (match_tlvs a) \<longleftrightarrow>
      set (match_tlvs a) \<subseteq> set (match_tlvs b)"
    using a strict_field_unmasked [OF b] by (auto simp: exact_match_def list_all_iff match_okD)
  let ?w = "\<lambda>f. length (tlv_value f) + 4"
  have sz: "unat (m_length a) = sum ?w (set (match_tlvs a))"
    "unat (m_length b) = sum ?w (set (match_tlvs b))"
    using oka b by (simp_all add: fields_size_length fields_size_distinct match_tlvs_distinct)
  have "set (match_tlvs a) = set (match_tlvs b)"
    if sub: "set (match_tlvs a) \<subseteq> set (match_tlvs b)" and len: "m_length a = m_length b"
  proof (rule ccontr)
    assume "set (match_tlvs a) \<noteq> set (match_tlvs b)"
    with sub obtain x where "x \<in> set (match_tlvs b) - set (match_tlvs a)" by auto
    with sub have "sum ?w (set (match_tlvs a)) < sum ?w (set (match_tlvs b))"
      by (intro sum_strict_mono2 [where b = x]) auto
    with sz len show False by simp
  qed
  moreover have "m_length a = m_length b" if "set (match_tlvs a) = set (match_tlvs b)"
    using sz that by (simp add: word_unat_eq_iff)
  ultimately show ?thesis
    using all no_fields_iff [OF oka] no_fields_iff [OF b] by (auto simp: match_std_strict_def)
qed


section \<open>Overlap of matches without masks\<close>

lemma load_all_mask:
  "load8 all_mask = - 1" "load16 all_mask = - 1" "load32 all_mask = - 1" "load64 all_mask = - 1"
  "load16 (drop 4 all_mask) = - 1" "load64 (drop 8 all_mask) = - 1"
  by code_simp+

lemma compatible_all_mask:
  "\<not> incompatible_8 a b all_mask all_mask \<longleftrightarrow> bytes_eq 1 a b"
  "\<not> incompatible_16 a b all_mask all_mask \<longleftrightarrow> bytes_eq 2 a b"
  "\<not> incompatible_32 a b all_mask all_mask \<longleftrightarrow> bytes_eq 4 a b"
  "\<not> incompatible_48 a b all_mask all_mask \<longleftrightarrow> bytes_eq 6 a b"
  "\<not> incompatible_64 a b all_mask all_mask \<longleftrightarrow> bytes_eq 8 a b"
  "\<not> incompatible_128 a b all_mask all_mask \<longleftrightarrow> bytes_eq 16 a b"
  using bytes_eq_add [of 4 2 a b] bytes_eq_add [of 8 8 a b]
  by (simp_all add: incompatible_8_def incompatible_16_def incompatible_32_def incompatible_48_def
      incompatible_64_def incompatible_128_def load_all_mask xor_zero_iff load_eq)

lemma hasmask_bit: "oxm_hasmask h \<longleftrightarrow> bit h 8"
  by (simp add: oxm_hasmask_def and_one_eq odd_iff_mod_2_eq_one bit_iff_odd_drop_bit)

lemma hasmask_masked_header: "oxm_hasmask (masked_header h)"
proof -
  have "bit (0x100 :: u32) 8" by simp
  then show ?thesis by (simp add: hasmask_bit masked_header_def bit_or_iff)
qed

text \<open>A plain match has no masks, no field of three bytes, and neither the VLAN identifier nor
  the IPv6 extension header, which packets are compared with in ways of their own.\<close>

definition plain_match :: "ofl_match \<Rightarrow> bool" where
  "plain_match m \<longleftrightarrow> exact_match m \<and> (\<forall>f \<in> set (match_tlvs m). field_len (tlv_header f) \<noteq> 3 \<and>
     tlv_header f \<noteq> OXM_OF_VLAN_VID \<and> tlv_header f \<noteq> OXM_OF_IPV6_EXTHDR)"

lemma plain_matchD:
  assumes "plain_match m"
  shows "match_ok m"
    and "f \<in> set (match_tlvs m) \<Longrightarrow> \<not> oxm_hasmask (tlv_header f)"
    and "f \<in> set (match_tlvs m) \<Longrightarrow> std_len (field_len (tlv_header f))"
    and "f \<in> set (match_tlvs m) \<Longrightarrow> unmasked_header (tlv_header f) = tlv_header f"
    and "f \<in> set (match_tlvs m) \<Longrightarrow> field_len (tlv_header f) = length (tlv_value f)"
  using assms match_okD [of m f]
  by (auto simp: plain_match_def exact_match_def unmasked_header_def tlv_ok_def field_len_def)

lemma plain_field_accepts:
  assumes "plain_match m" "f \<in> set (match_tlvs m)"
  shows "field_accepts f r \<longleftrightarrow>
    (\<exists>pf. r = Some pf \<and> bytes_eq (field_len (tlv_header f)) (tlv_value f) (tlv_value pf))"
  using assms plain_matchD [OF assms(1)]
  by (cases r) (auto simp: plain_match_def mask_bytes_def bytes_eq_under_ones)

lemma overlap_field_plain:
  assumes a: "plain_match a" and b: "plain_match b" and f: "f \<in> set (match_tlvs a)"
  shows "overlap_field f b \<longleftrightarrow>
    (\<forall>g \<in> set (match_tlvs b). tlv_header g = tlv_header f \<longrightarrow> g = f)"
proof (cases "oxm_match_lookup (tlv_header f) b")
  case None
  have "oxm_match_lookup (masked_header (tlv_header f)) b = None"
    using plain_matchD [OF b] hasmask_masked_header [of "tlv_header f"]
    by (auto simp: lookup_None_iff)
  moreover have "\<forall>g \<in> set (match_tlvs b). tlv_header g \<noteq> tlv_header f"
    using None plain_matchD(1) [OF b] by (auto simp: lookup_None_iff image_iff)
  ultimately show ?thesis
    using None plain_matchD(4) [OF a f] by (auto simp: overlap_field_def Let_def)
next
  case (Some g)
  then have g: "g \<in> set (match_tlvs b)" "tlv_header g = tlv_header f"
    using plain_matchD(1) [OF b] by (auto simp: lookup_Some_iff)
  have len: "length (tlv_value f) = field_len (tlv_header f)"
    "length (tlv_value g) = field_len (tlv_header f)"
    using plain_matchD(5) [OF a f] plain_matchD(5) [OF b g(1)] g(2) by auto
  have "overlap_field f b \<longleftrightarrow> bytes_eq (field_len (tlv_header f)) (tlv_value f) (tlv_value g)"
  proof -
    have "field_len (tlv_header f) \<in> {1, 2, 4, 6, 8, 16}"
      using a f by (auto simp: plain_match_def exact_match_def std_len_def)
    then show ?thesis
      using Some g plain_matchD(2,4) [OF a f] unfolding overlap_field_def Let_def
      by (elim insertE) (simp_all add: compatible_all_mask)
  qed
  also have "\<dots> \<longleftrightarrow> tlv_value f = tlv_value g" using len by (simp add: bytes_eq_full)
  also have "\<dots> \<longleftrightarrow> g = f" using g(2) by auto
  also have "\<dots> \<longleftrightarrow> (\<forall>g' \<in> set (match_tlvs b). tlv_header g' = tlv_header f \<longrightarrow> g' = f)"
  proof -
    have "g' = g" if "g' \<in> set (match_tlvs b)" "tlv_header g' = tlv_header f" for g'
      using lookup_field [OF plain_matchD(1) [OF b] that(1)] that(2) Some by simp
    with g show ?thesis by blast
  qed
  finally show ?thesis .
qed

lemma match_of_fields:
  assumes "distinct (map tlv_header fs)" "\<forall>f \<in> set fs. tlv_ok f" "fields_size fs < 2 ^ 16"
  shows "\<exists>m. match_ok m \<and> set (match_tlvs m) = set fs \<and> fields_size (match_tlvs m) = fields_size fs"
  using assms
proof (induction fs)
  case Nil
  then show ?case using match_ok_init by (intro exI [of _ ofl_structs_match_init]) simp
next
  case (Cons f fs)
  then obtain m where m: "match_ok m" "set (match_tlvs m) = set fs"
    "fields_size (match_tlvs m) = fields_size fs" by (auto simp: fields_size_def)
  let ?m = "match_put m (tlv_header f) (tlv_value f)"
  have "match_ok ?m" using m Cons.prems by (intro match_ok_put) (auto simp: tlv_ok_def fields_size_def)
  moreover note fm = fields_match_put [OF m(1), of "tlv_header f" "tlv_value f"]
  have "set (match_tlvs ?m) = set (f # fs)"
    using arg_cong [OF fm, of set_mset] m(2) by (cases f) simp
  moreover have "fields_size (match_tlvs ?m) = fields_size (f # fs)"
    using arg_cong [OF fm, of "\<lambda>M. sum_mset (image_mset (\<lambda>f. length (tlv_value f) + 4) M)"] m(3)
    by (simp add: fields_size_def flip: sum_mset_sum_list mset_map)
  ultimately show ?case by blast
qed


lemma plain_packet_match:
  assumes "plain_match m"
  shows "packet_match m p \<longleftrightarrow> (\<forall>f \<in> set (match_tlvs m). \<exists>pf.
    oxm_match_lookup (tlv_header f) p = Some pf \<and>
    bytes_eq (field_len (tlv_header f)) (tlv_value f) (tlv_value pf))"
proof -
  have e: "packet_match m p \<longleftrightarrow> (\<forall>f \<in> set (match_tlvs m).
      field_accepts f (oxm_match_lookup (unmasked_header (tlv_header f)) p))"
    by (rule packet_match_accepts) (use plain_matchD(1,3) [OF assms] in auto)
  show ?thesis
    unfolding e by (rule ball_cong [OF refl])
      (simp add: plain_matchD(4) [OF assms] plain_field_accepts [OF assms])
qed

lemma overlap_plain:
  assumes "plain_match a" and "plain_match b"
  shows "match_std_overlap a b \<longleftrightarrow> (\<forall>f \<in> set (match_tlvs a). \<forall>g \<in> set (match_tlvs b).
    tlv_header g = tlv_header f \<longrightarrow> g = f)"
  using overlap_field_plain [OF assms] by (simp add: match_std_overlap_def list_all_iff)

lemma common_packet_overlap:
  assumes a: "plain_match a" and b: "plain_match b"
    and pa: "packet_match a p" and pb: "packet_match b p"
  shows "match_std_overlap a b"
  unfolding overlap_plain [OF a b]
proof (intro ballI impI)
  fix f g
  assume f: "f \<in> set (match_tlvs a)" and g: "g \<in> set (match_tlvs b)"
    and h: "tlv_header g = tlv_header f"
  obtain pf where pf: "oxm_match_lookup (tlv_header f) p = Some pf"
    "bytes_eq (field_len (tlv_header f)) (tlv_value f) (tlv_value pf)"
    using bspec [OF pa [unfolded plain_packet_match [OF a]] f] by blast
  obtain pf' where "oxm_match_lookup (tlv_header g) p = Some pf'"
    "bytes_eq (field_len (tlv_header g)) (tlv_value g) (tlv_value pf')"
    using bspec [OF pb [unfolded plain_packet_match [OF b]] g] by blast
  with pf(1) h have "bytes_eq (field_len (tlv_header f)) (tlv_value g) (tlv_value pf)" by simp
  with pf(2) have "bytes_eq (field_len (tlv_header f)) (tlv_value g) (tlv_value f)"
    unfolding bytes_eq_def by simp
  then have "tlv_value g = tlv_value f"
    by (rule bytes_eq_full [THEN iffD1, rotated 2])
      (use plain_matchD(5) [OF a f] plain_matchD(5) [OF b g] h in simp_all)
  with h show "g = f" by simp
qed

lemma overlap_common_packet:
  assumes a: "plain_match a" and b: "plain_match b" and o: "match_std_overlap a b"
    and small: "fields_size (match_tlvs a) + fields_size (match_tlvs b) < 2 ^ 16"
  shows "\<exists>p. match_ok p \<and> packet_match a p \<and> packet_match b p"
proof -
  let ?bs = "filter (\<lambda>g. g \<notin> set (match_tlvs a)) (match_tlvs b)"
  let ?fs = "match_tlvs a @ ?bs"
  note ok = plain_matchD(1) [OF a] plain_matchD(1) [OF b]
  have "distinct (map tlv_header ?fs)"
  proof -
    have "distinct (map tlv_header ?bs)" using ok(2) by (simp add: match_ok_def distinct_map_filter)
    moreover have "tlv_header ` set (match_tlvs a) \<inter> tlv_header ` set ?bs = {}"
    proof (rule equals0I)
      fix x assume "x \<in> tlv_header ` set (match_tlvs a) \<inter> tlv_header ` set ?bs"
      then obtain f g where "f \<in> set (match_tlvs a)" "g \<in> set (match_tlvs b)"
        "g \<notin> set (match_tlvs a)" "tlv_header g = tlv_header f" by auto
      with o [unfolded overlap_plain [OF a b]] show False by blast
    qed
    ultimately show ?thesis using ok(1) by (simp add: match_ok_def)
  qed
  moreover have "\<forall>f \<in> set ?fs. tlv_ok f" using match_okD [OF ok(1)] match_okD [OF ok(2)] by auto
  moreover have "fields_size ?fs < 2 ^ 16"
  proof -
    have "fields_size ?bs \<le> fields_size (match_tlvs b)"
      unfolding fields_size_def by (rule sum_list_filter_le_nat)
    then show ?thesis using small by (simp add: fields_size_def)
  qed
  ultimately obtain p where p: "match_ok p" "set (match_tlvs p) = set ?fs"
    using match_of_fields [of ?fs] by blast
  have pm: "packet_match m p" if m: "plain_match m" and sub: "set (match_tlvs m) \<subseteq> set (match_tlvs p)" for m
    unfolding plain_packet_match [OF m]
  proof
    fix f assume "f \<in> set (match_tlvs m)"
    with sub have "f \<in> set (match_tlvs p)" by (rule subsetD)
    from lookup_field [OF p(1) this]
    show "\<exists>pf. oxm_match_lookup (tlv_header f) p = Some pf \<and>
        bytes_eq (field_len (tlv_header f)) (tlv_value f) (tlv_value pf)" by simp
  qed
  have "set (match_tlvs a) \<subseteq> set (match_tlvs p)" "set (match_tlvs b) \<subseteq> set (match_tlvs p)"
    unfolding p(2) by auto
  with pm [OF a] pm [OF b] p(1) show ?thesis by blast
qed

section \<open>Properties\<close>


definition ex_src :: ofl_match where
  "ex_src = ofl_structs_match_put32m ofl_structs_match_init 0x80001708 0x0000000a 0x000000ff"

definition ex_pkt :: ofl_match where
  "ex_pkt = ofl_structs_match_put32 (ofl_structs_match_put16 ofl_structs_match_init 0x80000A02 0x800)
     0x80001604 0x0101010a"

lemma ex_src_tlvs: "match_tlvs ex_src = [\<lparr>tlv_header = 0x80001708, tlv_value = [10,0,0,0,255,0,0,0]\<rparr>]"
  by code_simp

lemma ex_src_ok: "match_ok ex_src"
  unfolding ex_src_def ofl_structs_match_put32m_def
  by (rule match_ok_put [OF match_ok_init]) (simp_all add: oxm_length_def fields_size_def)

lemma ex_src_std: "\<forall>f \<in> set (match_tlvs ex_src). std_len (field_len (tlv_header f))"
  by code_simp



definition ex_type :: ofl_match where
  "ex_type = ofl_structs_match_put16 ofl_structs_match_init 0x80000A02 0x800"

definition ex_type_port :: ofl_match where
  "ex_type_port = ofl_structs_match_put32 ex_type 0x80000004 1"

lemma ex_type_tlvs: "match_tlvs ex_type = [\<lparr>tlv_header = 0x80000A02, tlv_value = [0, 8]\<rparr>]"
  by code_simp

lemma ex_type_ok: "match_ok ex_type"
  unfolding ex_type_def ofl_structs_match_put16_def
  by (rule match_ok_put [OF match_ok_init]) (simp_all add: oxm_length_def fields_size_def)

lemma ex_type_port_tlvs: "set (match_tlvs ex_type_port) =
    {\<lparr>tlv_header = 0x80000A02, tlv_value = [0, 8]\<rparr>, \<lparr>tlv_header = 0x80000004, tlv_value = [1, 0, 0, 0]\<rparr>}"
  by code_simp

lemma ex_type_port_ok: "match_ok ex_type_port"
  unfolding ex_type_port_def ofl_structs_match_put32_def
  by (rule match_ok_put [OF ex_type_ok]) (simp_all add: oxm_length_def fields_size_def ex_type_tlvs)

lemma ex_plain: "plain_match ex_type" "plain_match ex_type_port"
  by (simp_all add: plain_match_def exact_match_def ex_type_ok ex_type_port_ok ex_type_tlvs
      ex_type_port_tlvs std_len_def field_len_def oxm_hasmask_def oxm_length_def
      OXM_OF_VLAN_VID_def OXM_OF_IPV6_EXTHDR_def)


text \<open>C21. Without masks the strict comparison is equality of the sets of fields: equal lengths and
  one inclusion are enough, and the order of the hash map does not matter.\<close>

theorem match_std_strict_same_fields:
  assumes "exact_match a" and "match_ok b"
  shows "match_std_strict a b \<longleftrightarrow> set (match_tlvs a) = set (match_tlvs b)"
  using assms by (rule strict_exact)

theorem match_std_strict_same_fields_witness:
  "\<not> match_std_strict ex_type ex_type_port \<and> match_std_strict ex_type ex_type"
  using match_std_strict_same_fields [of ex_type ex_type_port]
    match_std_strict_same_fields [of ex_type ex_type] ex_plain ex_type_ok ex_type_port_ok
  by (simp add: plain_match_def ex_type_tlvs ex_type_port_tlvs doubleton_eq_iff)

text \<open>C19. Without masks the non-strict comparison is sound: every packet of the narrower match is a
  packet of the wider one.\<close>

theorem match_std_nonstrict_sound:
  assumes "exact_match a" and "exact_match b" and "match_std_nonstrict a b" and "packet_match b p"
  shows "packet_match a p"
proof -
  have "set (match_tlvs a) \<subseteq> set (match_tlvs b)"
    using assms nonstrict_exact by (simp add: exact_match_def)
  then show ?thesis
    using assms packet_match_accepts [of a p] packet_match_accepts [of b p]
    by (auto simp: exact_match_def)
qed

definition ex_packet :: ofl_match where
  "ex_packet = ofl_structs_match_put8 ex_type_port 0x80001401 6"

theorem match_std_nonstrict_sound_witness:
  "match_std_nonstrict ex_type ex_type_port \<and> packet_match ex_type ex_packet"
proof -
  have n: "match_std_nonstrict ex_type ex_type_port" by code_simp
  have p: "packet_match ex_type_port ex_packet" by code_simp
  show ?thesis
    using n match_std_nonstrict_sound [OF _ _ n p] ex_plain by (simp add: plain_match_def)
qed

text \<open>C20. Two plain matches overlap, in the sense of \<open>match_std_overlap\<close>, exactly when some packet
  matches both.\<close>

theorem match_std_overlap_iff:
  assumes a: "plain_match a" and b: "plain_match b"
    and small: "fields_size (match_tlvs a) + fields_size (match_tlvs b) < 2 ^ 16"
  shows "match_std_overlap a b \<longleftrightarrow> (\<exists>p. match_ok p \<and> packet_match a p \<and> packet_match b p)"
  using overlap_common_packet [OF a b _ small] common_packet_overlap [OF a b] by blast

theorem match_std_overlap_iff_witness:
  "match_std_overlap ex_type ex_type_port \<and>
   (\<exists>p. match_ok p \<and> packet_match ex_type p \<and> packet_match ex_type_port p)"
proof -
  have "fields_size (match_tlvs ex_type) = 6" "fields_size (match_tlvs ex_type_port) = 14"
    by code_simp+
  moreover have o: "match_std_overlap ex_type ex_type_port" by code_simp
  ultimately show ?thesis using match_std_overlap_iff [OF ex_plain] by simp
qed

end
