(* ===== verification/Switch_Types.thy ===== *)
theory Switch_Types
  imports Oxm_Match
begin

text \<open>
  The protocol data the components of the switch share: the actions of
  \<^verbatim>\<open>oflib/ofl-actions.h\<close>, the instructions, buckets and meter bands of
  \<^verbatim>\<open>oflib/ofl-structs.h\<close>, the modification messages of \<^verbatim>\<open>oflib/ofl-messages.h\<close>, the error
  values and the reserved port and group numbers.  A variable length array with its element
  count is a list.
\<close>

section \<open>Errors\<close>

text \<open>\<open>ofl_error (type, code)\<close>, by the name of its code; \<open>0\<close>, success, is \<open>None\<close> in a result
  of type \<open>ofl_err option\<close>.\<close>

datatype ofl_err =
    OFPBRC_IS_SLAVE | OFPBRC_BUFFER_EMPTY | OFPBRC_BAD_TABLE_ID | OFPBRC_BAD_TYPE
  | OFPBAC_BAD_OUT_PORT | OFPBAC_BAD_OUT_GROUP | OFPBAC_MATCH_INCONSISTENT
  | OFPBIC_BAD_TABLE_ID | OFPBIC_UNSUP_INST
  | OFPFMFC_TABLE_FULL | OFPFMFC_BAD_TABLE_ID | OFPFMFC_OVERLAP | OFPFMFC_BAD_COMMAND
  | OFPFMFC_UNKNOWN
  | OFPGMFC_GROUP_EXISTS | OFPGMFC_OUT_OF_GROUPS | OFPGMFC_OUT_OF_BUCKETS
  | OFPGMFC_CHAINING_UNSUPPORTED | OFPGMFC_LOOP | OFPGMFC_UNKNOWN_GROUP
  | OFPMMFC_METER_EXISTS | OFPMMFC_UNKNOWN_METER | OFPMMFC_OUT_OF_METERS | OFPMMFC_OUT_OF_BANDS
  | OFPPMFC_BAD_PORT | OFPPMFC_BAD_HW_ADDR
  | OFPQOFC_BAD_PORT | OFPQOFC_BAD_QUEUE | OFPQOFC_EPERM
  | OFPTFFC_BAD_TABLE | OFPTFFC_BAD_ARGUMENT | OFPBRC_MULTIPART_BUFFER_OVERFLOW

section \<open>Reserved numbers\<close>

definition OFPP_MAX :: u32 where "OFPP_MAX = 0xffffff00"
definition OFPP_IN_PORT :: u32 where "OFPP_IN_PORT = 0xfffffff8"
definition OFPP_TABLE :: u32 where "OFPP_TABLE = 0xfffffff9"
definition OFPP_NORMAL :: u32 where "OFPP_NORMAL = 0xfffffffa"
definition OFPP_FLOOD :: u32 where "OFPP_FLOOD = 0xfffffffb"
definition OFPP_ALL :: u32 where "OFPP_ALL = 0xfffffffc"
definition OFPP_CONTROLLER :: u32 where "OFPP_CONTROLLER = 0xfffffffd"
definition OFPP_LOCAL :: u32 where "OFPP_LOCAL = 0xfffffffe"
definition OFPP_ANY :: u32 where "OFPP_ANY = 0xffffffff"
definition OFPG_MAX :: u32 where "OFPG_MAX = 0xffffff00"
definition OFPG_ALL :: u32 where "OFPG_ALL = 0xfffffffc"
definition OFPG_ANY :: u32 where "OFPG_ANY = 0xffffffff"
definition OFPM_MAX :: u32 where "OFPM_MAX = 0xffff0000"
definition OFPM_ALL :: u32 where "OFPM_ALL = 0xffffffff"

section \<open>Actions and instructions\<close>

datatype ofl_action =
    Output u32 u16
  | CopyTtlOut | CopyTtlIn
  | SetMplsTtl u8 | DecMplsTtl
  | PushVlan u16 | PopVlan
  | PushMpls u16 | PopMpls u16
  | SetQueue u32
  | Group u32
  | SetNwTtl u8 | DecNwTtl
  | SetField ofl_match_tlv
  | PushPbb u16 | PopPbb
  | ExperimenterAct u32
  | UnknownAct u16

primrec action_type :: "ofl_action \<Rightarrow> u16" where
  "action_type (Output p l) = 0"
| "action_type CopyTtlOut = 11"
| "action_type CopyTtlIn = 12"
| "action_type (SetMplsTtl t) = 15"
| "action_type DecMplsTtl = 16"
| "action_type (PushVlan e) = 17"
| "action_type PopVlan = 18"
| "action_type (PushMpls e) = 19"
| "action_type (PopMpls e) = 20"
| "action_type (SetQueue q) = 21"
| "action_type (Group g) = 22"
| "action_type (SetNwTtl t) = 23"
| "action_type DecNwTtl = 24"
| "action_type (SetField f) = 25"
| "action_type (PushPbb e) = 26"
| "action_type PopPbb = 27"
| "action_type (ExperimenterAct x) = 0xffff"
| "action_type (UnknownAct t) = t"

datatype ofl_instruction =
    GotoTable u8
  | WriteMetadata u64 u64
  | WriteActions "ofl_action list"
  | ApplyActions "ofl_action list"
  | ClearActions
  | MeterInst u32
  | ExperimenterInst u32

section \<open>Buckets and bands\<close>

record ofl_bucket =
  weight :: u16
  watch_port :: u32
  watch_group :: u32
  actions :: "ofl_action list"

text \<open>Types and commands arrive in an integer field: the last constructor of each of the
  enumerations below stands for the values that have no name.\<close>

datatype group_type = OFPGT_ALL | OFPGT_SELECT | OFPGT_INDIRECT | OFPGT_FF | OFPGT_OTHER u8

datatype ofl_meter_band =
    DropBand u32 u32
  | DscpRemarkBand u32 u32 u8
  | ExperimenterBand u32 u32 u32

primrec band_rate :: "ofl_meter_band \<Rightarrow> u32" where
  "band_rate (DropBand r b) = r"
| "band_rate (DscpRemarkBand r b p) = r"
| "band_rate (ExperimenterBand r b e) = r"

primrec band_burst :: "ofl_meter_band \<Rightarrow> u32" where
  "band_burst (DropBand r b) = b"
| "band_burst (DscpRemarkBand r b p) = b"
| "band_burst (ExperimenterBand r b e) = b"

section \<open>Modification messages\<close>

datatype flow_mod_command =
  OFPFC_ADD | OFPFC_MODIFY | OFPFC_MODIFY_STRICT | OFPFC_DELETE | OFPFC_DELETE_STRICT
  | OFPFC_OTHER u8

record ofl_msg_flow_mod =
  fm_cookie :: u64
  fm_cookie_mask :: u64
  fm_table_id :: u8
  fm_command :: flow_mod_command
  fm_idle_timeout :: u16
  fm_hard_timeout :: u16
  fm_priority :: u16
  fm_buffer_id :: u32
  fm_out_port :: u32
  fm_out_group :: u32
  fm_flags :: u16
  fm_match :: ofl_match
  fm_instructions :: "ofl_instruction list"

datatype group_mod_command = OFPGC_ADD | OFPGC_MODIFY | OFPGC_DELETE | OFPGC_OTHER u16

record ofl_msg_group_mod =
  gm_command :: group_mod_command
  gm_type :: group_type
  gm_group_id :: u32
  gm_buckets :: "ofl_bucket list"

datatype meter_mod_command = OFPMC_ADD | OFPMC_MODIFY | OFPMC_DELETE | OFPMC_OTHER u16

record ofl_msg_meter_mod =
  mm_command :: meter_mod_command
  mm_flags :: u16
  mm_meter_id :: u32
  mm_bands :: "ofl_meter_band list"

datatype controller_role = OFPCR_ROLE_EQUAL | OFPCR_ROLE_MASTER | OFPCR_ROLE_SLAVE

end
