(* ===== verification/Intrusive_List.thy ===== *)
theory Intrusive_List
  imports OF_Prelude
begin

text \<open>
  The doubly linked intrusive lists of \<^verbatim>\<open>lib/list.c\<close> at pointer level.  A node is an
  address; the two fields of \<^verbatim>\<open>struct list\<close> are functions from addresses to addresses.
  Every operation performs the assignments of the C body in their order.  The relation
  \<open>dlist h l xs\<close> says that the list with head \<open>l\<close> holds the nodes \<open>xs\<close>.  The locale
  \<open>intrusive_list\<close> states what clients rely on; its interpretation on the pointer
  operations closes the gap between \<open>list.c\<close> and the functional lists the other
  components use.
\<close>

section \<open>Nodes and operations\<close>

record lheap =
  lprev :: "addr \<Rightarrow> addr"
  lnext :: "addr \<Rightarrow> addr"

definition set_prev :: "addr \<Rightarrow> addr \<Rightarrow> lheap \<Rightarrow> lheap" where
  "set_prev a v h = h\<lparr>lprev := (lprev h)(a := v)\<rparr>"

definition set_next :: "addr \<Rightarrow> addr \<Rightarrow> lheap \<Rightarrow> lheap" where
  "set_next a v h = h\<lparr>lnext := (lnext h)(a := v)\<rparr>"

lemma set_prev_sel [ptr_simps]:
  "lprev (set_prev a v h) = (lprev h)(a := v)" "lnext (set_prev a v h) = lnext h"
  by (simp_all add: set_prev_def)

lemma set_next_sel [ptr_simps]:
  "lnext (set_next a v h) = (lnext h)(a := v)" "lprev (set_next a v h) = lprev h"
  by (simp_all add: set_next_def)

definition list_init :: "addr \<Rightarrow> lheap \<Rightarrow> lheap" where
  "list_init l h = set_next l l (set_prev l l h)"

definition list_insert :: "addr \<Rightarrow> addr \<Rightarrow> lheap \<Rightarrow> lheap" where
  "list_insert before elem h =
    (let h1 = set_prev elem (lprev h before) h;
         h2 = set_next elem before h1;
         h3 = set_next (lprev h2 before) elem h2
     in set_prev before elem h3)"

definition list_splice :: "addr \<Rightarrow> addr \<Rightarrow> addr \<Rightarrow> lheap \<Rightarrow> lheap" where
  "list_splice before first lst h =
    (if first = lst then h
     else let last1 = lprev h lst;
              h1 = set_next (lprev h first) (lnext h last1) h;
              h2 = set_prev (lnext h1 last1) (lprev h1 first) h1;
              h3 = set_prev first (lprev h2 before) h2;
              h4 = set_next last1 before h3;
              h5 = set_next (lprev h4 before) first h4
          in set_prev before last1 h5)"

definition list_push_front :: "addr \<Rightarrow> addr \<Rightarrow> lheap \<Rightarrow> lheap" where
  "list_push_front l elem h = list_insert (lnext h l) elem h"

definition list_push_back :: "addr \<Rightarrow> addr \<Rightarrow> lheap \<Rightarrow> lheap" where
  "list_push_back l elem h = list_insert l elem h"

definition list_replace :: "addr \<Rightarrow> addr \<Rightarrow> lheap \<Rightarrow> lheap" where
  "list_replace element position h =
    (let h1 = set_next element (lnext h position) h;
         h2 = set_prev (lnext h1 element) element h1;
         h3 = set_prev element (lprev h2 position) h2
     in set_next (lprev h3 element) element h3)"

definition list_remove :: "addr \<Rightarrow> lheap \<Rightarrow> addr \<times> lheap" where
  "list_remove elem h =
    (let h1 = set_next (lprev h elem) (lnext h elem) h;
         h2 = set_prev (lnext h1 elem) (lprev h1 elem) h1
     in (lnext h2 elem, h2))"

definition list_pop_front :: "addr \<Rightarrow> lheap \<Rightarrow> addr \<times> lheap" where
  "list_pop_front l h = (let front = lnext h l in (front, snd (list_remove front h)))"

definition list_pop_back :: "addr \<Rightarrow> lheap \<Rightarrow> addr \<times> lheap" where
  "list_pop_back l h = (let back = lprev h l in (back, snd (list_remove back h)))"

definition list_is_empty :: "addr \<Rightarrow> lheap \<Rightarrow> bool" where
  "list_is_empty l h \<longleftrightarrow> lnext h l = l"

text \<open>The two accessors carry an assertion: \<open>None\<close> is the failed assertion.\<close>

definition list_front :: "addr \<Rightarrow> lheap \<Rightarrow> addr option" where
  "list_front l h = (if list_is_empty l h then None else Some (lnext h l))"

definition list_back :: "addr \<Rightarrow> lheap \<Rightarrow> addr option" where
  "list_back l h = (if list_is_empty l h then None else Some (lprev h l))"

text \<open>The counting loop of \<open>list_size\<close> and the walk of \<open>LIST_FOR_EACH\<close>; \<open>None\<close> is a
  loop that does not come back to the head.\<close>

partial_function (option) list_size_loop :: "addr \<Rightarrow> lheap \<Rightarrow> addr \<Rightarrow> nat \<Rightarrow> nat option" where
  "list_size_loop l h e cnt =
    (if e = l then Some cnt else list_size_loop l h (lnext h e) (Suc cnt))"

definition list_size :: "addr \<Rightarrow> lheap \<Rightarrow> nat option" where
  "list_size l h = list_size_loop l h (lnext h l) 0"

partial_function (option) list_for_each_loop ::
    "addr \<Rightarrow> lheap \<Rightarrow> addr \<Rightarrow> addr list \<Rightarrow> addr list option" where
  "list_for_each_loop l h e seen =
    (if e = l then Some (rev seen) else list_for_each_loop l h (lnext h e) (e # seen))"

definition list_for_each :: "addr \<Rightarrow> lheap \<Rightarrow> addr list option" where
  "list_for_each l h = list_for_each_loop l h (lnext h l) []"

text \<open>The walk that stops at the first node satisfying a condition and yields the node
  in front of which a new one is inserted: the head when no node satisfies it.\<close>

partial_function (option) list_find_loop ::
    "(addr \<Rightarrow> bool) \<Rightarrow> addr \<Rightarrow> lheap \<Rightarrow> addr \<Rightarrow> addr option" where
  "list_find_loop P l h e =
    (if e = l then Some l else if P e then Some e else list_find_loop P l h (lnext h e))"

definition list_insert_where :: "(addr \<Rightarrow> bool) \<Rightarrow> addr \<Rightarrow> addr \<Rightarrow> lheap \<Rightarrow> lheap option" where
  "list_insert_where P l elem h =
    map_option (\<lambda>before. list_insert before elem h) (list_find_loop P l h (lnext h l))"

section \<open>The abstraction relation\<close>

fun links :: "lheap \<Rightarrow> addr list \<Rightarrow> bool" where
  "links h [] = True"
| "links h [a] = True"
| "links h (a # b # r) = (lnext h a = b \<and> lprev h b = a \<and> links h (b # r))"

definition dlist :: "lheap \<Rightarrow> addr \<Rightarrow> addr list \<Rightarrow> bool" where
  "dlist h l xs \<longleftrightarrow> distinct (l # xs) \<and> links h (l # xs @ [l])"


lemma links_append:
  "links h (xs @ ys) \<longleftrightarrow> links h xs \<and> links h ys \<and>
     (xs \<noteq> [] \<and> ys \<noteq> [] \<longrightarrow> lnext h (last xs) = hd ys \<and> lprev h (hd ys) = last xs)"
proof (induction xs)
  case Nil
  then show ?case by simp
next
  case (Cons x xs)
  then show ?case by (cases xs; cases ys) auto
qed

lemma links_Cons:
  "xs \<noteq> [] \<Longrightarrow>
     links h (a # xs) \<longleftrightarrow> lnext h a = hd xs \<and> lprev h (hd xs) = a \<and> links h xs"
  by (cases xs) auto

lemma links_cong:
  assumes "\<And>a. a \<in> set (butlast xs) \<Longrightarrow> lnext h' a = lnext h a"
    and "\<And>a. a \<in> set (tl xs) \<Longrightarrow> lprev h' a = lprev h a"
  shows "links h' xs \<longleftrightarrow> links h xs"
  using assms
proof (induction xs rule: induct_list012)
  case (3 a b r)
  have "links h' (b # r) \<longleftrightarrow> links h (b # r)"
    using 3 by (intro "3.IH"(2)) (auto split: if_splits)
  with "3.prems" show ?case by auto
qed auto

text \<open>The list of a head is the cycle through it; any node of the cycle splits it.\<close>

lemma dlist_split:
  "dlist h l (xs @ ys) \<longleftrightarrow>
     distinct (l # xs @ ys) \<and> links h (l # xs) \<and> links h (ys @ [l]) \<and>
     lnext h (last (l # xs)) = hd (ys @ [l]) \<and> lprev h (hd (ys @ [l])) = last (l # xs)"
  using links_append [of h "l # xs" "ys @ [l]"] by (auto simp: dlist_def)

lemma dlist_prev: "dlist h l (xs @ ys) \<Longrightarrow> lprev h (hd (ys @ [l])) = last (l # xs)"
  by (simp add: dlist_split)

lemma dlist_next: "dlist h l (xs @ ys) \<Longrightarrow> lnext h (last (l # xs)) = hd (ys @ [l])"
  by (simp add: dlist_split)

lemma dlist_distinct: "dlist h l xs \<Longrightarrow> distinct (l # xs)"
  by (simp add: dlist_def)

lemma hd_snoc_in: "hd (ys @ [l]) \<in> insert l (set ys)"
  by (cases ys) auto

lemma notin_butlast_last: "distinct xs \<Longrightarrow> xs \<noteq> [] \<Longrightarrow> last xs \<notin> set (butlast xs)"
  by (metis append_butlast_last_id distinct_butlast not_distinct_conv_prefix)

lemma notin_tl_hd: "distinct xs \<Longrightarrow> hd xs \<notin> set (tl xs)"
  by (cases xs) auto

section \<open>The operations on lists\<close>

lemma dlist_init: "dlist (list_init l h) l []"
  by (simp add: dlist_def list_init_def ptr_simps)

lemma list_insert_sel [ptr_simps]:
  assumes "elem \<noteq> before"
  shows "lprev (list_insert before elem h) = (lprev h)(elem := lprev h before, before := elem)"
    and "lnext (list_insert before elem h) = (lnext h)(elem := before, lprev h before := elem)"
  using assms by (simp_all add: list_insert_def Let_def ptr_simps)

theorem dlist_insert:
  assumes d: "dlist h l (xs @ ys)" and e: "elem \<notin> insert l (set (xs @ ys))"
  shows "dlist (list_insert (hd (ys @ [l])) elem h) l (xs @ elem # ys)"
proof -
  let ?b = "hd (ys @ [l])" and ?p = "last (l # xs)"
  let ?h = "list_insert ?b elem h"
  have dist: "distinct (l # xs @ ys)" and prev: "lprev h ?b = ?p"
    and pre: "links h (l # xs)" and post: "links h (ys @ [l])"
    using d by (simp_all add: dlist_split)
  have neq: "elem \<noteq> ?b" "elem \<noteq> ?p"
    using e hd_snoc_in [of ys l] last_in_set [of "l # xs"] by auto
  have bx: "?b \<notin> set xs" using dist by (cases ys) auto
  have py: "?p \<notin> set ys" using dist last_in_set [of "l # xs"] by auto
  have dys: "distinct (ys @ [l])" using dist by auto
  have ey: "elem \<notin> set (tl (ys @ [l]))"
    using e by (cases ys) auto
  have "?p \<notin> set (butlast (l # xs))"
    using dist by (intro notin_butlast_last) auto
  then have pre': "links ?h (l # xs)"
    using pre e neq bx
    by (subst links_cong [where h = h]) (auto simp: ptr_simps prev dest: in_set_butlastD)
  have "?b \<notin> set (tl (ys @ [l]))" by (rule notin_tl_hd [OF dys])
  then have post': "links ?h (ys @ [l])"
    using post e neq py ey
    by (subst links_cong [where h = h]) (auto simp: ptr_simps prev butlast_append)
  show ?thesis
    unfolding dlist_split
    using dist e pre' post' neq
    by (auto simp: links_Cons ptr_simps prev)
qed


lemma list_remove_sel [ptr_simps]:
  "fst (list_remove e h) = lnext h e"
  "lprev (snd (list_remove e h)) = (lprev h)(lnext h e := lprev h e)"
  "lnext (snd (list_remove e h)) = (lnext h)(lprev h e := lnext h e)"
  by (auto simp: list_remove_def Let_def ptr_simps)

text \<open>A node linked to itself, as \<open>list_init\<close> leaves it, is removed without effect on
  any list: flow entries are taken out of timeout lists they were never put in.\<close>

lemma list_remove_self:
  "lnext h e = e \<Longrightarrow> lprev h e = e \<Longrightarrow> snd (list_remove e h) = h"
  by (cases h) (simp add: list_remove_def set_next_def set_prev_def Let_def fun_upd_idem)

theorem dlist_remove:
  assumes d: "dlist h l (xs @ e # ys)"
  shows "dlist (snd (list_remove e h)) l (xs @ ys)" and "fst (list_remove e h) = hd (ys @ [l])"
proof -
  let ?n = "hd (ys @ [l])" and ?p = "last (l # xs)"
  let ?h = "snd (list_remove e h)"
  have dist: "distinct (l # xs @ e # ys)" and pre: "links h (l # xs)"
    and e_post: "links h (e # ys @ [l])" and prev: "lprev h e = ?p"
    using d by (simp_all add: dlist_split)
  from e_post have nxt: "lnext h e = ?n" and post: "links h (ys @ [l])"
    by (simp_all add: links_Cons)
  have nx: "?n \<notin> set xs" using dist by (cases ys) auto
  have py: "?p \<notin> set ys" using dist last_in_set [of "l # xs"] by auto
  have "?p \<notin> set (butlast (l # xs))"
    using dist by (intro notin_butlast_last) auto
  then have pre': "links ?h (l # xs)"
    using pre nx by (subst links_cong [where h = h]) (auto simp: ptr_simps prev nxt)
  have "?n \<notin> set (tl (ys @ [l]))"
    using dist by (intro notin_tl_hd) auto
  then have post': "links ?h (ys @ [l])"
    using post py by (subst links_cong [where h = h]) (auto simp: ptr_simps prev nxt butlast_append)
  show "dlist ?h l (xs @ ys)"
    unfolding dlist_split using dist pre' post' by (auto simp: ptr_simps prev nxt)
  show "fst (list_remove e h) = hd (ys @ [l])"
    by (simp add: ptr_simps nxt)
qed

lemma list_replace_sel [ptr_simps]:
  assumes "element \<noteq> position" and "lnext h position \<noteq> position"
  shows "lprev (list_replace element position h) =
           (lprev h)(lnext h position := element, element := lprev h position)"
    and "lnext (list_replace element position h) =
           (lnext h)(element := lnext h position, lprev h position := element)"
  using assms by (auto simp: list_replace_def Let_def ptr_simps)

theorem dlist_replace:
  assumes d: "dlist h l (xs @ p # ys)" and e: "e \<notin> insert l (set (xs @ p # ys))"
  shows "dlist (list_replace e p h) l (xs @ e # ys)"
proof -
  let ?n = "hd (ys @ [l])" and ?q = "last (l # xs)"
  let ?h = "list_replace e p h"
  have dist: "distinct (l # xs @ p # ys)" and pre: "links h (l # xs)"
    and p_post: "links h (p # ys @ [l])" and prev: "lprev h p = ?q"
    using d by (simp_all add: dlist_split)
  from p_post have nxt: "lnext h p = ?n" and post: "links h (ys @ [l])"
    by (simp_all add: links_Cons)
  have ne: "e \<noteq> p" "e \<noteq> ?n" "e \<noteq> ?q" "?n \<noteq> p"
    using e dist hd_snoc_in [of ys l] last_in_set [of "l # xs"] by auto
  have nx: "?n \<notin> set xs" using dist by (cases ys) auto
  have qy: "?q \<notin> set ys" using dist last_in_set [of "l # xs"] by auto
  have ey: "e \<notin> set (tl (ys @ [l]))" using e by (cases ys) auto
  have "?q \<notin> set (butlast (l # xs))"
    using dist by (intro notin_butlast_last) auto
  then have pre': "links ?h (l # xs)"
    using pre nx ne e
    by (subst links_cong [where h = h]) (auto simp: ptr_simps prev nxt dest: in_set_butlastD)
  have "?n \<notin> set (tl (ys @ [l]))"
    using dist by (intro notin_tl_hd) auto
  then have post': "links ?h (ys @ [l])"
    using post qy ne e ey
    by (subst links_cong [where h = h]) (auto simp: ptr_simps prev nxt butlast_append)
  show ?thesis
    unfolding dlist_split using dist e ne pre' post'
    by (auto simp: ptr_simps prev nxt links_Cons)
qed

text \<open>Replacing the head itself moves a whole list, the empty one included, to a new
  head: this is how the flow references of a modified group or meter are kept.\<close>

theorem dlist_replace_head:
  assumes d: "dlist h l xs" and e: "e \<notin> insert l (set xs)"
  shows "dlist (list_replace e l h) e xs"
proof (cases "xs = []")
  case True
  with d e show ?thesis
    by (simp add: dlist_def list_replace_def Let_def ptr_simps)
next
  case False
  let ?h = "list_replace e l h"
  have dist: "distinct (l # xs)" and cyc: "links h (l # xs @ [l])"
    using d by (auto simp: dlist_def)
  from cyc have nxt: "lnext h l = hd xs" and lnk: "links h xs" and prev: "lprev h l = last xs"
    using False by (auto simp: links_Cons links_append)
  have ne: "hd xs \<noteq> l" "e \<noteq> l" "e \<noteq> hd xs" "e \<noteq> last xs"
    using e dist False hd_in_set [of xs] last_in_set [of xs] by auto
  have "links ?h xs"
    using lnk ne e dist False notin_butlast_last [of xs] notin_tl_hd [of xs]
    by (subst links_cong [where h = h])
       (auto simp: ptr_simps prev nxt dest: in_set_butlastD list.set_sel(2))
  then show ?thesis
    using False ne e dist
    by (simp add: dlist_def links_Cons links_append ptr_simps prev nxt)
qed

lemma list_splice_sel [ptr_simps]:
  assumes ne: "first \<noteq> lst" "before \<noteq> lst" "z \<noteq> a" "before \<noteq> first"
    and z: "lprev h lst = z" and a: "lprev h first = a" and zn: "lnext h z = lst"
  shows "lprev (list_splice before first lst h) =
           (lprev h)(lst := a, first := lprev h before, before := z)"
    and "lnext (list_splice before first lst h) =
           (lnext h)(a := lst, z := before, lprev h before := first)"
  using ne z a zn by (simp_all add: list_splice_def Let_def ptr_simps)

lemma links_frame:
  assumes "links h xs" and "A \<inter> set (butlast xs) = {}" and "B \<inter> set (tl xs) = {}"
    and "\<And>a. a \<notin> A \<Longrightarrow> lnext h' a = lnext h a" and "\<And>a. a \<notin> B \<Longrightarrow> lprev h' a = lprev h a"
  shows "links h' xs"
  using assms by (subst links_cong [where h = h]) auto

lemma notin_list_parts:
  "a \<notin> set xs \<Longrightarrow> a \<notin> set (butlast xs)" "a \<notin> set xs \<Longrightarrow> a \<notin> set (tl xs)"
  by (metis in_set_butlastD) (metis list.sel(2) list.set_sel(2))

text \<open>Splicing moves the non-empty segment \<open>bs\<close> of one list in front of a node of another.\<close>

theorem dlist_splice:
  assumes m: "dlist h m (as @ bs @ cs)" and l: "dlist h l (xs @ ys)" and "bs \<noteq> []"
    and disj: "insert m (set (as @ bs @ cs)) \<inter> insert l (set (xs @ ys)) = {}"
    and b: "b = hd (ys @ [l])" and c: "c = hd (cs @ [m])" and f: "f = hd bs"
  shows "dlist (list_splice b f c h) m (as @ cs)"
    and "dlist (list_splice b f c h) l (xs @ bs @ ys)"
proof -
  obtain p where p: "p = last (l # xs)" by simp
  obtain z where z: "z = last bs" by simp
  obtain a where a: "a = last (m # as)" by simp
  obtain M L X Y where segs: "M = m # as" "L = cs @ [m]" "X = l # xs" "Y = ys @ [l]" by simp
  let ?h = "list_splice b f c h"
  have dm: "distinct M" "distinct L" "distinct bs" and seg: "links h M" "links h bs" "links h L"
    and pf: "lprev h f = a" and zc: "lnext h z = c" "lprev h c = z"
    using m \<open>bs \<noteq> []\<close> by (auto simp: dlist_split links_append segs c f z a)
  have dl: "distinct X" "distinct Y" and segl: "links h X" "links h Y" and pb: "lprev h b = p"
    using l by (simp_all add: dlist_split segs b p)
  have M: "\<And>x. x \<in> set bs \<Longrightarrow> x \<notin> set M \<and> x \<notin> set L \<and> x \<notin> set X \<and> x \<notin> set Y"
      "\<And>x. x \<in> set X \<union> set Y \<Longrightarrow> x \<notin> set M \<and> x \<notin> set L"
    using m l disj by (auto simp: dlist_def segs)
  have ends: "a = last M" "p = last X" "c = hd L" "b = hd Y" "M \<noteq> []" "L \<noteq> []" "X \<noteq> []" "Y \<noteq> []"
    using a p c b segs by auto
  have mem: "a \<in> set M" "z \<in> set bs" "p \<in> set X" "c \<in> set L" "f \<in> set bs" "b \<in> set Y"
    using ends f z \<open>bs \<noteq> []\<close> by auto
  have mid: "a \<notin> set (butlast M)" "p \<notin> set (butlast X)" "z \<notin> set (butlast bs)"
      "c \<notin> set (tl L)" "b \<notin> set (tl Y)" "f \<notin> set (tl bs)"
    using dm dl ends f z \<open>bs \<noteq> []\<close> by (simp_all add: notin_butlast_last notin_tl_hd)
  have zM: "z \<notin> set M" "z \<notin> set L" "z \<notin> set X" "z \<notin> set Y"
    and fM: "f \<notin> set M" "f \<notin> set L" "f \<notin> set X" "f \<notin> set Y"
    using M(1) mem by blast+
  have pM: "p \<notin> set M" "p \<notin> set L" and bM: "b \<notin> set M" "b \<notin> set L"
    using M(2) mem by blast+
  have ne: "f \<noteq> c" "b \<noteq> c" "z \<noteq> a" "b \<noteq> f" "p \<noteq> a" "p \<noteq> z"
    using mem zM fM pM bM by metis+
  have sel: "lprev ?h = (lprev h)(c := a, f := p, b := z)"
    "lnext ?h = (lnext h)(a := c, z := b, p := f)"
    using list_splice_sel [of f c b z a h] ne pf zc pb by simp_all
  have cross: "c \<notin> set (tl M)" "a \<notin> set (butlast L)" "b \<notin> set (tl X)" "p \<notin> set (butlast Y)"
    using m l mem by (auto simp: dlist_def segs a b c p)
  have frame: "links ?h S"
    if "links h S" "{a, z, p} \<inter> set (butlast S) = {}" "{c, f, b} \<inter> set (tl S) = {}" for S
    using that by (rule links_frame) (auto simp: sel)
  have ac: "a \<notin> set X" "a \<notin> set Y" "a \<notin> set bs" "c \<notin> set X" "c \<notin> set Y" "c \<notin> set bs"
      "p \<notin> set bs" "b \<notin> set bs"
    using M mem by blast+
  note out = mid cross zM fM pM bM ac
  have new: "links ?h M" "links ?h L" "links ?h X" "links ?h Y" "links ?h bs"
    using seg segl by (auto intro!: frame simp: out notin_list_parts)
  have nx: "lnext ?h a = c" "lprev ?h c = a" "lnext ?h z = b" "lprev ?h b = z"
      "lnext ?h p = f" "lprev ?h f = p"
    using ne by (simp_all add: sel)
  have dist: "distinct (m # as @ cs)" "distinct (l # xs @ bs @ ys)"
    using m l disj by (auto simp: dlist_def)
  show "dlist ?h m (as @ cs)"
    using new(1,2) nx(1,2) dist(1) unfolding dlist_split segs a c by blast
  have "links ?h (bs @ Y)" and hd: "hd (bs @ Y) = f"
    using new nx \<open>bs \<noteq> []\<close> ends by (simp_all add: links_append f flip: z)
  then show "dlist ?h l (xs @ bs @ ys)"
    using new(3) nx(5,6) dist(2) unfolding dlist_split segs p by simp
qed

section \<open>Walks\<close>

text \<open>Walking the \<open>next\<close> fields from any node of the list reaches the head: the loops of
  \<open>list_size\<close>, of \<open>LIST_FOR_EACH\<close> and of the insertion idiom return.\<close>

lemma dlist_step: "dlist h l (xs @ y # ys) \<Longrightarrow> lnext h y = hd (ys @ [l]) \<and> y \<noteq> l"
  using dlist_next [of h l "xs @ [y]" ys] dlist_distinct [of h l "xs @ y # ys"] by auto

lemma list_size_loop_dlist:
  "dlist h l (xs @ ys) \<Longrightarrow> list_size_loop l h (hd (ys @ [l])) cnt = Some (cnt + length ys)"
proof (induction ys arbitrary: xs cnt)
  case Nil
  then show ?case by (simp add: list_size_loop.simps)
next
  case (Cons y ys)
  then have "list_size_loop l h (hd (ys @ [l])) (Suc cnt) = Some (Suc cnt + length ys)"
    by (intro Cons.IH [of "xs @ [y]"]) simp
  with dlist_step [OF Cons.prems] show ?case
    by (simp add: list_size_loop.simps [of l h y])
qed

theorem list_size_dlist: "dlist h l xs \<Longrightarrow> list_size l h = Some (length xs)"
  using list_size_loop_dlist [of h l "[]" xs 0] dlist_next [of h l "[]" xs]
  by (simp add: list_size_def)

lemma list_for_each_loop_dlist:
  "dlist h l (xs @ ys) \<Longrightarrow> list_for_each_loop l h (hd (ys @ [l])) seen = Some (rev seen @ ys)"
proof (induction ys arbitrary: xs seen)
  case Nil
  then show ?case by (simp add: list_for_each_loop.simps)
next
  case (Cons y ys)
  then have "list_for_each_loop l h (hd (ys @ [l])) (y # seen) = Some (rev (y # seen) @ ys)"
    by (intro Cons.IH [of "xs @ [y]"]) simp
  with dlist_step [OF Cons.prems] show ?case
    by (simp add: list_for_each_loop.simps [of l h y])
qed

theorem list_for_each_dlist: "dlist h l xs \<Longrightarrow> list_for_each l h = Some xs"
  using list_for_each_loop_dlist [of h l "[]" xs "[]"] dlist_next [of h l "[]" xs]
  by (simp add: list_for_each_def)

lemma list_find_loop_dlist:
  "dlist h l (xs @ ys) \<Longrightarrow>
     list_find_loop P l h (hd (ys @ [l])) = Some (hd (dropWhile (\<lambda>y. \<not> P y) ys @ [l]))"
proof (induction ys arbitrary: xs)
  case Nil
  then show ?case by (simp add: list_find_loop.simps)
next
  case (Cons y ys)
  then have "list_find_loop P l h (hd (ys @ [l])) = Some (hd (dropWhile (\<lambda>y. \<not> P y) ys @ [l]))"
    by (intro Cons.IH [of "xs @ [y]"]) simp
  with dlist_step [OF Cons.prems] show ?case
    by (simp add: list_find_loop.simps [of P l h y])
qed

lemma list_is_empty_dlist: "dlist h l xs \<Longrightarrow> list_is_empty l h \<longleftrightarrow> xs = []"
  using dlist_next [of h l "[]" xs] dlist_distinct [of h l xs]
  by (cases xs) (auto simp: list_is_empty_def)

lemma list_front_dlist:
  "dlist h l xs \<Longrightarrow> list_front l h = (case xs of [] \<Rightarrow> None | x # _ \<Rightarrow> Some x)"
  using dlist_next [of h l "[]" xs] list_is_empty_dlist [of h l xs]
  by (auto simp: list_front_def split: list.split)

lemma list_back_dlist:
  "dlist h l xs \<Longrightarrow> list_back l h = (if xs = [] then None else Some (last xs))"
  using dlist_prev [of h l xs "[]"] list_is_empty_dlist [of h l xs]
  by (auto simp: list_back_def)

section \<open>The interface clients rely on\<close>

text \<open>
  \<open>repr s l xs\<close>: in state \<open>s\<close> the list with head \<open>l\<close> holds \<open>xs\<close>.  Insertion takes the
  successor of the new node, which is the head for the last position.
\<close>

locale intrusive_list =
  fixes repr :: "'h \<Rightarrow> addr \<Rightarrow> addr list \<Rightarrow> bool"
    and ins :: "addr \<Rightarrow> addr \<Rightarrow> 'h \<Rightarrow> 'h"
    and rem :: "addr \<Rightarrow> 'h \<Rightarrow> addr \<times> 'h"
    and repl :: "addr \<Rightarrow> addr \<Rightarrow> 'h \<Rightarrow> 'h"
  assumes repr_distinct: "repr s l xs \<Longrightarrow> distinct (l # xs)"
    and ins_repr: "repr s l (xs @ ys) \<Longrightarrow> e \<notin> insert l (set (xs @ ys)) \<Longrightarrow>
        repr (ins (hd (ys @ [l])) e s) l (xs @ e # ys)"
    and rem_repr: "repr s l (xs @ e # ys) \<Longrightarrow> repr (snd (rem e s)) l (xs @ ys)"
    and repl_repr: "repr s l (xs @ p # ys) \<Longrightarrow> e \<notin> insert l (set (xs @ p # ys)) \<Longrightarrow>
        repr (repl e p s) l (xs @ e # ys)"
begin

lemma ins_where_repr:
  assumes "repr s l xs" and "e \<notin> insert l (set xs)"
  shows "repr (ins (hd (dropWhile (\<lambda>y. \<not> P y) xs @ [l])) e s) l (insert_before P e xs)"
  using ins_repr [of s l "takeWhile (\<lambda>y. \<not> P y) xs" "dropWhile (\<lambda>y. \<not> P y) xs" e] assms
  by (simp add: insert_before_split)

lemma ins_back_repr: "repr s l xs \<Longrightarrow> e \<notin> insert l (set xs) \<Longrightarrow> repr (ins l e s) l (xs @ [e])"
  using ins_repr [of s l xs "[]" e] by simp

lemma ins_front_repr:
  "repr s l xs \<Longrightarrow> e \<notin> insert l (set xs) \<Longrightarrow> repr (ins (hd (xs @ [l])) e s) l (e # xs)"
  using ins_repr [of s l "[]" xs e] by simp

lemma rem_remove1: "repr s l xs \<Longrightarrow> e \<in> set xs \<Longrightarrow> repr (snd (rem e s)) l (remove1 e xs)"
  using rem_repr repr_distinct by (metis distinct.simps(2) remove1_split)

lemma repl_replace1:
  assumes "repr s l xs" and "p \<in> set xs" and "e \<notin> insert l (set xs)"
  shows "repr (repl e p s) l (replace1 p e xs)"
proof -
  from assms(2) obtain ys zs where split: "xs = ys @ p # zs" and "p \<notin> set ys"
    by (meson split_list_first)
  then have "replace1 p e xs = ys @ e # zs" by (induction ys arbitrary: xs) auto
  with split assms repl_repr show ?thesis by simp
qed

text \<open>The safe iteration that removes the nodes satisfying a condition leaves the others.\<close>

lemma rem_where_suffix:
  "repr s l (xs @ ys) \<Longrightarrow>
     repr (fold (\<lambda>e s. if P e then snd (rem e s) else s) ys s) l (xs @ filter (\<lambda>e. \<not> P e) ys)"
proof (induction ys arbitrary: s xs)
  case Nil
  then show ?case by simp
next
  case (Cons y ys)
  show ?case
  proof (cases "P y")
    case True
    then show ?thesis using Cons.IH [OF rem_repr [OF Cons.prems]] by simp
  next
    case False
    then show ?thesis using Cons.IH [of s "xs @ [y]"] Cons.prems by simp
  qed
qed

lemma rem_where_repr:
  "repr s l xs \<Longrightarrow>
     repr (fold (\<lambda>e s. if P e then snd (rem e s) else s) xs s) l (filter (\<lambda>e. \<not> P e) xs)"
  using rem_where_suffix [of s l "[]" xs P] by simp

end

interpretation il: intrusive_list dlist list_insert list_remove list_replace
  by unfold_locales (auto dest: dlist_distinct intro: dlist_insert dlist_remove dlist_replace)

section \<open>The remaining operations\<close>

lemma dlist_push_front:
  "dlist h l xs \<Longrightarrow> e \<notin> insert l (set xs) \<Longrightarrow> dlist (list_push_front l e h) l (e # xs)"
  using il.ins_front_repr [of h l xs e] dlist_next [of h l "[]" xs]
  by (simp add: list_push_front_def)

lemma dlist_push_back:
  "dlist h l xs \<Longrightarrow> e \<notin> insert l (set xs) \<Longrightarrow> dlist (list_push_back l e h) l (xs @ [e])"
  by (simp add: list_push_back_def il.ins_back_repr)

lemma dlist_pop_front:
  assumes "dlist h l (x # xs)"
  shows "fst (list_pop_front l h) = x" and "dlist (snd (list_pop_front l h)) l xs"
  using il.rem_repr [of h l "[]" x xs] dlist_next [of h l "[]" "x # xs"] assms
  by (simp_all add: list_pop_front_def Let_def)

lemma dlist_pop_back:
  assumes "dlist h l (xs @ [x])"
  shows "fst (list_pop_back l h) = x" and "dlist (snd (list_pop_back l h)) l xs"
  using il.rem_repr [of h l xs x "[]"] dlist_prev [of h l "xs @ [x]" "[]"] assms
  by (simp_all add: list_pop_back_def Let_def)

theorem dlist_insert_where:
  assumes "dlist h l xs" and "e \<notin> insert l (set xs)"
  shows "\<exists>h'. list_insert_where P l e h = Some h' \<and> dlist h' l (insert_before P e xs)"
  using list_find_loop_dlist [of h l "[]" xs P] dlist_next [of h l "[]" xs]
    il.ins_where_repr [OF assms, of P] assms(1)
  by (simp add: list_insert_where_def)

end
