(* ===== verification/Action_Set.thy ===== *)
theory Action_Set
  imports Switch_Types Intrusive_List
begin

text \<open>
  The action set of a packet, \<^verbatim>\<open>udatapath/action_set.c\<close>: a list of entries in the execution
  order of the specification, with at most one action of a kind.  A \<open>SetField\<close> action is of a
  kind of its own for every field header.  The list operations are given twice: on plain lists,
  which the pipeline uses, and on the linked nodes the source walks; \<open>write_action_ptr_refines\<close>
  relates them.
\<close>

section \<open>Entries\<close>

definition action_set_order :: "ofl_action \<Rightarrow> nat" where
  "action_set_order act =
    (case act of
       CopyTtlOut \<Rightarrow> 40
     | CopyTtlIn \<Rightarrow> 10
     | SetField f \<Rightarrow> 60
     | SetMplsTtl t \<Rightarrow> 60
     | DecMplsTtl \<Rightarrow> 50
     | PushPbb e \<Rightarrow> 30
     | PopPbb \<Rightarrow> 20
     | PushVlan e \<Rightarrow> 30
     | PopVlan \<Rightarrow> 20
     | PushMpls e \<Rightarrow> 30
     | PopMpls e \<Rightarrow> 20
     | SetQueue q \<Rightarrow> 70
     | Group g \<Rightarrow> 80
     | SetNwTtl t \<Rightarrow> 60
     | DecNwTtl \<Rightarrow> 50
     | Output p l \<Rightarrow> 90
     | ExperimenterAct e \<Rightarrow> 75
     | UnknownAct t \<Rightarrow> 79)"

record action_set_entry =
  entry_action :: ofl_action
  entry_order :: nat

type_synonym action_set = "action_set_entry list"

definition action_set_create :: action_set where
  "action_set_create = []"

definition action_set_create_entry :: "ofl_action \<Rightarrow> action_set_entry" where
  "action_set_create_entry act = \<lparr>entry_action = act, entry_order = action_set_order act\<rparr>"

definition action_set_clone :: "action_set \<Rightarrow> action_set" where
  "action_set_clone s = map (\<lambda>e. action_set_create_entry (entry_action e)) s"

text \<open>The test of the loop: same type and, for \<open>SetField\<close>, same field header.  With a different
  header the loop goes on without the comparison of the orders.\<close>

definition same_type :: "action_set_entry \<Rightarrow> action_set_entry \<Rightarrow> bool" where
  "same_type e n \<longleftrightarrow> action_type (entry_action e) = action_type (entry_action n)"

fun other_field :: "ofl_action \<Rightarrow> ofl_action \<Rightarrow> bool" where
  "other_field (SetField f) (SetField g) \<longleftrightarrow> tlv_header f \<noteq> tlv_header g"
| "other_field _ _ \<longleftrightarrow> False"

fun write_walk :: "action_set_entry \<Rightarrow> action_set \<Rightarrow> action_set" where
  "write_walk n [] = [n]"
| "write_walk n (e # es) =
    (if same_type e n then
       (if other_field (entry_action e) (entry_action n) then e # write_walk n es else n # es)
     else if entry_order n < entry_order e then n # e # es
     else e # write_walk n es)"

definition action_set_write_action :: "action_set \<Rightarrow> ofl_action \<Rightarrow> action_set" where
  "action_set_write_action s act = write_walk (action_set_create_entry act) s"

fun action_set_write_actions :: "action_set \<Rightarrow> ofl_action list \<Rightarrow> action_set" where
  "action_set_write_actions s [] = s"
| "action_set_write_actions s (a # as) = action_set_write_actions (action_set_write_action s a) as"

definition action_set_clear_actions :: "action_set \<Rightarrow> action_set" where
  "action_set_clear_actions s = fold remove1 s s"

section \<open>The linked nodes\<close>

text \<open>\<open>ent\<close> gives the entry that contains a node; \<open>new\<close> is the node of the fresh entry.\<close>

partial_function (option) write_loop_ptr ::
    "(addr \<Rightarrow> action_set_entry) \<Rightarrow> addr \<Rightarrow> addr \<Rightarrow> lheap \<Rightarrow> addr \<Rightarrow> lheap option" where
  "write_loop_ptr ent new set_actions h node =
    (if node = set_actions then Some (list_insert node new h)
     else if same_type (ent node) (ent new) then
       (if other_field (entry_action (ent node)) (entry_action (ent new))
        then write_loop_ptr ent new set_actions h (lnext h node)
        else Some (list_replace new node h))
     else if entry_order (ent new) < entry_order (ent node) then Some (list_insert node new h)
     else write_loop_ptr ent new set_actions h (lnext h node))"

definition write_action_ptr ::
    "(addr \<Rightarrow> action_set_entry) \<Rightarrow> addr \<Rightarrow> addr \<Rightarrow> lheap \<Rightarrow> lheap option" where
  "write_action_ptr ent new set_actions h = write_loop_ptr ent new set_actions h (lnext h set_actions)"

lemma write_loop_ptr_dlist:
  assumes "dlist h l (xs @ ys)" and "new \<notin> insert l (set (xs @ ys))"
  shows "\<exists>h' zs. write_loop_ptr ent new l h (hd (ys @ [l])) = Some h' \<and>
    dlist h' l (xs @ zs) \<and> map ent zs = write_walk (ent new) (map ent ys)"
  using assms
proof (induction ys arbitrary: xs)
  case Nil
  have "dlist (list_insert l new h) l (xs @ [new])"
    using il.ins_back_repr [of h l xs new] Nil by simp
  then show ?case by (intro exI [of _ "list_insert l new h"] exI [of _ "[new]"])
      (simp add: write_loop_ptr.simps)
next
  case (Cons y ys)
  note step = dlist_step [OF Cons.prems(1)]
  have go: "\<exists>h' zs. write_loop_ptr ent new l h (hd (ys @ [l])) = Some h' \<and>
      dlist h' l (xs @ y # zs) \<and> map ent zs = write_walk (ent new) (map ent ys)"
    using Cons.IH [of "xs @ [y]"] Cons.prems by simp
  have ins: "dlist (list_insert y new h) l (xs @ new # y # ys)"
    using il.ins_repr [of h l xs "y # ys" new] Cons.prems by simp
  have repl: "dlist (list_replace new y h) l (xs @ new # ys)"
    using il.repl_repr [of h l xs y ys new] Cons.prems by simp
  consider (walk) "same_type (ent y) (ent new)" "other_field (entry_action (ent y)) (entry_action (ent new))"
    | (repl) "same_type (ent y) (ent new)" "\<not> other_field (entry_action (ent y)) (entry_action (ent new))"
    | (ins) "\<not> same_type (ent y) (ent new)" "entry_order (ent new) < entry_order (ent y)"
    | (walk2) "\<not> same_type (ent y) (ent new)" "\<not> entry_order (ent new) < entry_order (ent y)"
    by blast
  then show ?case
  proof cases
    case walk
    from go obtain h' zs where "write_loop_ptr ent new l h (hd (ys @ [l])) = Some h'"
      "dlist h' l (xs @ y # zs)" "map ent zs = write_walk (ent new) (map ent ys)" by blast
    with walk step show ?thesis
      by (intro exI [of _ h'] exI [of _ "y # zs"]) (simp add: write_loop_ptr.simps [of ent new l h y])
  next
    case repl
    with step \<open>dlist (list_replace new y h) l (xs @ new # ys)\<close> show ?thesis
      by (intro exI [of _ "list_replace new y h"] exI [of _ "new # ys"])
        (simp add: write_loop_ptr.simps [of ent new l h y])
  next
    case ins
    with step \<open>dlist (list_insert y new h) l (xs @ new # y # ys)\<close> show ?thesis
      by (intro exI [of _ "list_insert y new h"] exI [of _ "new # y # ys"])
        (simp add: write_loop_ptr.simps [of ent new l h y])
  next
    case walk2
    from go obtain h' zs where "write_loop_ptr ent new l h (hd (ys @ [l])) = Some h'"
      "dlist h' l (xs @ y # zs)" "map ent zs = write_walk (ent new) (map ent ys)" by blast
    with walk2 step show ?thesis
      by (intro exI [of _ h'] exI [of _ "y # zs"]) (simp add: write_loop_ptr.simps [of ent new l h y])
  qed
qed

section \<open>The invariant\<close>

fun kind :: "ofl_action \<Rightarrow> u16 \<times> u32 option" where
  "kind (SetField f) = (25, Some (tlv_header f))"
| "kind a = (action_type a, None)"

text \<open>An action whose type value is one of the known ones carries that constructor.\<close>

definition known_action :: "ofl_action \<Rightarrow> bool" where
  "known_action a \<longleftrightarrow> (\<forall>t. a \<noteq> UnknownAct t)"

definition action_set_inv :: "action_set \<Rightarrow> bool" where
  "action_set_inv s \<longleftrightarrow>
     (\<forall>e \<in> set s. entry_order e = action_set_order (entry_action e) \<and> known_action (entry_action e)) \<and>
     sorted (map entry_order s) \<and> distinct (map (kind \<circ> entry_action) s)"

lemma kind_eq_iff:
  assumes "known_action a" "known_action b"
  shows "kind a = kind b \<longleftrightarrow> action_type a = action_type b \<and> \<not> other_field a b"
  using assms by (cases a; cases b) (simp_all add: known_action_def)

lemma same_type_order:
  assumes "known_action a" "known_action b" "action_type a = action_type b"
  shows "action_set_order a = action_set_order b"
  using assms by (cases a; cases b) (simp_all add: known_action_def action_set_order_def)


lemma action_set_inv_Cons:
  "action_set_inv (e # s) \<longleftrightarrow> entry_order e = action_set_order (entry_action e) \<and>
     known_action (entry_action e) \<and> (\<forall>x \<in> set s. entry_order e \<le> entry_order x) \<and>
     (\<forall>x \<in> set s. kind (entry_action x) \<noteq> kind (entry_action e)) \<and> action_set_inv s"
  by (auto simp: action_set_inv_def image_iff)

lemma kind_order:
  assumes "known_action a" "known_action b" "kind a = kind b"
  shows "action_set_order a = action_set_order b"
  using assms same_type_order kind_eq_iff by blast

lemma write_walk_correct:
  assumes "action_set_inv s" and n: "n = action_set_create_entry a" "known_action a"
  shows "action_set_inv (write_walk n s) \<and>
    set (write_walk n s) = insert n {e \<in> set s. kind (entry_action e) \<noteq> kind a}"
  using assms(1)
proof (induction s)
  case Nil
  then show ?case using n by (simp add: action_set_inv_def action_set_create_entry_def)
next
  case (Cons e s)
  have n': "entry_action n = a" "entry_order n = action_set_order a"
    using n by (simp_all add: action_set_create_entry_def)
  have e: "entry_order e = action_set_order (entry_action e)" "known_action (entry_action e)"
    "\<And>x. x \<in> set s \<Longrightarrow> entry_order e \<le> entry_order x"
    "\<And>x. x \<in> set s \<Longrightarrow> kind (entry_action x) \<noteq> kind (entry_action e)" "action_set_inv s"
    using Cons.prems by (auto simp: action_set_inv_Cons)
  note IH = Cons.IH [OF e(5)]
  have ke: "kind (entry_action e) = kind a \<longleftrightarrow> same_type e n \<and> \<not> other_field (entry_action e) (entry_action n)"
    using kind_eq_iff [OF e(2) n(2)] n' by (simp add: same_type_def)
  have walk: ?case if w: "write_walk n (e # s) = e # write_walk n s"
    and ord: "entry_order e \<le> entry_order n" and k: "kind (entry_action e) \<noteq> kind a"
  proof -
    have "action_set_inv (e # write_walk n s)"
      unfolding action_set_inv_Cons using IH e ord k n' by auto
    moreover have "set (e # write_walk n s) = insert n {x \<in> set (e # s). kind (entry_action x) \<noteq> kind a}"
      using IH k by auto
    ultimately show ?thesis unfolding w by blast
  qed
  show ?case
  proof (cases "same_type e n")
    case st: True
    then have ord: "entry_order e = entry_order n"
      using same_type_order [OF e(2) n(2)] e(1) n' by (simp add: same_type_def)
    show ?thesis
    proof (cases "other_field (entry_action e) (entry_action n)")
      case True
      then show ?thesis using walk st ord ke by simp
    next
      case False
      with st ke have k: "kind (entry_action e) = kind a" by simp
      have "action_set_inv (n # s)"
        unfolding action_set_inv_Cons using e n' n(2) ord k by simp
      moreover have "{x \<in> set (e # s). kind (entry_action x) \<noteq> kind a} = set s"
        using e(4) k by auto
      ultimately show ?thesis using st False by simp
    qed
  next
    case nst: False
    then have k: "kind (entry_action e) \<noteq> kind a" using ke by simp
    show ?thesis
    proof (cases "entry_order n < entry_order e")
      case True
      have ks: "kind (entry_action x) \<noteq> kind a" if "x \<in> set (e # s)" for x
      proof
        assume "kind (entry_action x) = kind a"
        moreover have "known_action (entry_action x)" "entry_order x = action_set_order (entry_action x)"
          using that Cons.prems by (auto simp: action_set_inv_def)
        ultimately have "entry_order x = entry_order n" using kind_order n(2) n' by metis
        moreover have "entry_order e \<le> entry_order x" using that e(3) by auto
        ultimately show False using True by simp
      qed
      have "action_set_inv (n # e # s)"
        unfolding action_set_inv_Cons [of n] using Cons.prems n' n(2) True e(3) ks
        by (auto intro: less_imp_le order.strict_trans2)
      moreover have "{x \<in> set (e # s). kind (entry_action x) \<noteq> kind a} = set (e # s)"
        using ks by auto
      ultimately show ?thesis using nst True by simp
    next
      case False
      then show ?thesis using walk nst k by simp
    qed
  qed
qed

lemma action_set_inv_create [inv_intros]: "action_set_inv action_set_create"
  by (simp add: action_set_inv_def action_set_create_def)

lemma action_set_inv_write [inv_intros]:
  "action_set_inv s \<Longrightarrow> known_action a \<Longrightarrow> action_set_inv (action_set_write_action s a)"
  using write_walk_correct by (simp add: action_set_write_action_def)

lemma action_set_inv_write_actions [inv_intros]:
  "action_set_inv s \<Longrightarrow> (\<forall>a \<in> set as. known_action a) \<Longrightarrow>
     action_set_inv (action_set_write_actions s as)"
  by (induction as arbitrary: s) (auto intro: inv_intros)

lemma fold_remove1_prefix: "fold remove1 xs (xs @ ys) = ys"
  by (induction xs) auto

lemma action_set_clear_empty [simp]: "action_set_clear_actions s = []"
  using fold_remove1_prefix [of s "[]"] by (simp add: action_set_clear_actions_def)

lemma action_set_clone_id: "action_set_inv s \<Longrightarrow> action_set_clone s = s"
  by (induction s)
    (auto simp: action_set_clone_def action_set_create_entry_def action_set_inv_Cons)

section \<open>Contents by kind\<close>

definition action_of_kind :: "action_set \<Rightarrow> u16 \<times> u32 option \<Rightarrow> ofl_action option" where
  "action_of_kind s k = map_option entry_action (List.find (\<lambda>e. kind (entry_action e) = k) s)"

lemma find_kind:
  assumes "action_set_inv s" "e \<in> set s"
  shows "action_of_kind s (kind (entry_action e)) = Some (entry_action e)"
  using assms find_Some_distinct [of "kind \<circ> entry_action" s e]
  by (simp add: action_of_kind_def action_set_inv_def)

lemma action_of_kind_None: "action_of_kind s k = None \<longleftrightarrow> (\<forall>e \<in> set s. kind (entry_action e) \<noteq> k)"
  by (simp add: action_of_kind_def find_None_iff) blast

lemma action_of_kind_write:
  assumes "action_set_inv s" "known_action a"
  shows "action_of_kind (action_set_write_action s a) k =
    (if k = kind a then Some a else action_of_kind s k)"
proof -
  let ?n = "action_set_create_entry a" and ?s = "action_set_write_action s a"
  have inv: "action_set_inv ?s" and st: "set ?s = insert ?n {e \<in> set s. kind (entry_action e) \<noteq> kind a}"
    using write_walk_correct [OF assms(1) refl assms(2)] by (auto simp: action_set_write_action_def)
  have n: "entry_action ?n = a" by (simp add: action_set_create_entry_def)
  show ?thesis
  proof (cases "k = kind a")
    case True
    then show ?thesis using find_kind [OF inv, of ?n] st n by simp
  next
    case False
    show ?thesis
    proof (cases "action_of_kind s k")
      case None
      then have "action_of_kind ?s k = None" using st n False by (auto simp: action_of_kind_None)
      with None False show ?thesis by simp
    next
      case (Some b)
      then obtain e where e: "e \<in> set s" "kind (entry_action e) = k" "entry_action e = b"
        by (auto simp: action_of_kind_def dest: find_SomeD)
      then have "e \<in> set ?s" using st False by auto
      from find_kind [OF inv this] e Some False show ?thesis by simp
    qed
  qed
qed

text \<open>After writing a list of actions the last one of a kind is the one in the set.\<close>

definition last_of_kind :: "ofl_action list \<Rightarrow> u16 \<times> u32 option \<Rightarrow> ofl_action option" where
  "last_of_kind as k = List.find (\<lambda>a. kind a = k) (rev as)"

lemma last_of_kind_Cons:
  "last_of_kind (a # as) k =
     (case last_of_kind as k of Some b \<Rightarrow> Some b | None \<Rightarrow> if kind a = k then Some a else None)"
proof -
  have "List.find P (xs @ ys) = (case List.find P xs of Some b \<Rightarrow> Some b | None \<Rightarrow> List.find P ys)"
    for P and xs ys :: "ofl_action list" by (induction xs) auto
  then show ?thesis by (auto simp: last_of_kind_def split: option.split)
qed

lemma write_actions_last:
  assumes "action_set_inv s" "\<forall>a \<in> set as. known_action a"
  shows "action_of_kind (action_set_write_actions s as) k =
    (case last_of_kind as k of Some a \<Rightarrow> Some a | None \<Rightarrow> action_of_kind s k)"
  using assms
proof (induction as arbitrary: s)
  case Nil
  then show ?case by (simp add: last_of_kind_def)
next
  case (Cons a as)
  then show ?case
    by (auto simp: last_of_kind_Cons action_of_kind_write action_set_inv_write split: option.split)
qed

section \<open>Properties\<close>

text \<open>C9. Writing a list of actions keeps the action set in execution order with one action of a
  kind, and for every kind the last action written wins over what the set held before.\<close>

theorem action_set_last_write_wins:
  assumes "action_set_inv s" and "\<forall>a \<in> set as. known_action a"
  shows "action_set_inv (action_set_write_actions s as) \<and>
    action_of_kind (action_set_write_actions s as) k =
      (case last_of_kind as k of Some a \<Rightarrow> Some a | None \<Rightarrow> action_of_kind s k)"
  using assms action_set_inv_write_actions write_actions_last by blast

theorem action_set_last_write_wins_witness:
  "action_of_kind (action_set_write_actions action_set_create [Output 1 0, Group 5, PopVlan, Output 2 0])
     (kind (Output 7 7)) = Some (Output 2 0) \<and>
   map entry_action (action_set_write_actions action_set_create [Output 1 0, Group 5, PopVlan, Output 2 0])
     = [PopVlan, Group 5, Output 2 0]"
  using action_set_last_write_wins [OF action_set_inv_create,
      of "[Output 1 0, Group 5, PopVlan, Output 2 0]" "kind (Output 7 7)"]
  by (simp add: known_action_def last_of_kind_def action_set_create_def action_set_write_action_def
      action_set_create_entry_def same_type_def action_set_order_def)

text \<open>C11. The walk over the linked nodes, with replacement and insertion in the middle of the
  list, always ends and leaves a well-linked list that holds the result of the list-level write.\<close>

theorem write_action_ptr_refines:
  assumes "dlist h l xs" and "new \<notin> insert l (set xs)"
    and "ent new = action_set_create_entry a"
  shows "\<exists>h' ys. write_action_ptr ent new l h = Some h' \<and> dlist h' l ys \<and>
    map ent ys = action_set_write_action (map ent xs) a"
  using write_loop_ptr_dlist [of h l "[]" xs new ent] assms dlist_next [of h l "[]" xs]
  by (simp add: write_action_ptr_def action_set_write_action_def)

definition ex_ent :: "addr \<Rightarrow> action_set_entry" where
  "ex_ent n = action_set_create_entry (if n = 2 then PopVlan else Output 1 0)"

theorem write_action_ptr_refines_witness:
  "\<exists>h' ys. write_action_ptr ex_ent 2 0 (list_push_back 0 1 (list_init 0 \<lparr>lprev = id, lnext = id\<rparr>)) = Some h' \<and>
    dlist h' 0 ys \<and> map ex_ent ys = [action_set_create_entry PopVlan, action_set_create_entry (Output 1 0)]"
  using write_action_ptr_refines [OF dlist_push_back [OF dlist_init [of 0 "\<lparr>lprev = id, lnext = id\<rparr>"]],
      of 1 2 ex_ent PopVlan]
  by (simp add: ex_ent_def action_set_write_action_def action_set_create_entry_def same_type_def
      action_set_order_def)

end
