(* ===== verification/Packet_Handle.thy ===== *)
theory Packet_Handle
  imports Oxm_Match
begin

text \<open>
  The handler that extracts the match fields of a packet, \<^verbatim>\<open>udatapath/packet_handle_std.c\<close>.  The
  dissection of a frame is done by the NetBee library through \<^verbatim>\<open>nbee_link/nbee_link.cpp\<close>; here it is
  the argument \<open>parse\<close>, which returns the fields and the positions of the headers, or fails.
  A pointer into the frame is an offset, a null pointer is \<open>None\<close>.  A field of the handler that
  is not initialised when the handler is allocated is an argument.
\<close>

section \<open>Handlers\<close>

record protocols_std =
  pr_eth :: "nat option"
  pr_eth_snap :: "nat option"
  pr_vlan :: "nat option"
  pr_vlan_last :: "nat option"
  pr_mpls :: "nat option"
  pr_pbb :: "nat option"
  pr_ipv4 :: "nat option"
  pr_ipv6 :: "nat option"
  pr_arp :: "nat option"
  pr_tcp :: "nat option"
  pr_udp :: "nat option"
  pr_sctp :: "nat option"
  pr_icmp :: "nat option"
  pr_ehddp :: "nat option"

definition protocol_reset :: protocols_std where
  "protocol_reset =
    \<lparr>pr_eth = None, pr_eth_snap = None, pr_vlan = None, pr_vlan_last = None, pr_mpls = None,
     pr_pbb = None, pr_ipv4 = None, pr_ipv6 = None, pr_arp = None, pr_tcp = None, pr_udp = None,
     pr_sctp = None, pr_icmp = None, pr_ehddp = None\<rparr>"

record packet_handle_std =
  hs_proto :: protocols_std
  hs_match :: ofl_match
  hs_valid :: bool
  hs_table_miss :: bool

type_synonym packet_parser = "byte list \<Rightarrow> (ofl_match \<times> protocols_std) option"

definition OXM_OF_IN_PORT :: u32 where "OXM_OF_IN_PORT = 0x80000004"
definition OXM_OF_METADATA :: u32 where "OXM_OF_METADATA = 0x80000408"
definition OXM_OF_TUNNEL_ID :: u32 where "OXM_OF_TUNNEL_ID = 0x80004C08"

text \<open>The two loops over the nodes with the hash of a header: the value of the last node is kept.\<close>

definition saved_value :: "u32 \<Rightarrow> ofl_match \<Rightarrow> u64" where
  "saved_value header m =
    fold (\<lambda>f v. load64 (tlv_value f)) (hmap_with_hash (match_fields m) (tlv_hash header)) 0"

definition packet_handle_std_validate ::
    "packet_parser \<Rightarrow> byte list \<Rightarrow> u32 \<Rightarrow> packet_handle_std \<Rightarrow> packet_handle_std" where
  "packet_handle_std_validate parse frame in_port h =
    (if hs_valid h then h
     else
       let metadata = saved_value OXM_OF_METADATA (hs_match h);
           tunnel_id = saved_value OXM_OF_TUNNEL_ID (hs_match h)
       in case parse frame of
            None \<Rightarrow> h\<lparr>hs_match := ofl_structs_match_init, hs_proto := protocol_reset\<rparr>
          | Some (m, proto) \<Rightarrow>
             h\<lparr>hs_proto := proto, hs_valid := True,
               hs_match :=
                 ofl_structs_match_put64
                   (ofl_structs_match_put64 (ofl_structs_match_put32 m OXM_OF_IN_PORT in_port)
                      OXM_OF_METADATA metadata)
                   OXM_OF_TUNNEL_ID tunnel_id\<rparr>)"

definition packet_handle_std_create :: "packet_parser \<Rightarrow> bool \<Rightarrow> byte list \<Rightarrow> u32 \<Rightarrow> packet_handle_std" where
  "packet_handle_std_create parse miss frame in_port =
    packet_handle_std_validate parse frame in_port
      \<lparr>hs_proto = protocol_reset, hs_match = ofl_structs_match_init, hs_valid = False, hs_table_miss = miss\<rparr>"

definition packet_handle_std_clone :: "packet_parser \<Rightarrow> bool \<Rightarrow> byte list \<Rightarrow> u32 \<Rightarrow> packet_handle_std" where
  "packet_handle_std_clone parse miss frame in_port =
    packet_handle_std_validate parse frame in_port
      \<lparr>hs_proto = protocol_reset, hs_match = ofl_structs_match_init, hs_valid = False, hs_table_miss = miss\<rparr>"

text \<open>The checks return the handler with them: they validate it first.\<close>

definition packet_handle_std_is_ttl_valid ::
    "packet_parser \<Rightarrow> byte list \<Rightarrow> u32 \<Rightarrow> packet_handle_std \<Rightarrow> bool \<times> packet_handle_std" where
  "packet_handle_std_is_ttl_valid parse frame in_port h0 =
    (let h = packet_handle_std_validate parse frame in_port h0
     in ((case pr_mpls (hs_proto h) of
            None \<Rightarrow> True
          | Some off \<Rightarrow> 1 < (ntohl (load32 (drop off frame)) AND 0x000000ff)) \<and>
         (case pr_ipv4 (hs_proto h) of
            None \<Rightarrow> True
          | Some off \<Rightarrow> 1 \<le> byte_at frame (off + 8)), h))"

definition packet_handle_std_is_fragment ::
    "packet_parser \<Rightarrow> byte list \<Rightarrow> u32 \<Rightarrow> packet_handle_std \<Rightarrow> bool \<times> packet_handle_std" where
  "packet_handle_std_is_fragment parse frame in_port h =
    (False, packet_handle_std_validate parse frame in_port h)"

definition packet_handle_std_match ::
    "packet_parser \<Rightarrow> byte list \<Rightarrow> u32 \<Rightarrow> packet_handle_std \<Rightarrow> ofl_match \<Rightarrow> bool \<times> packet_handle_std" where
  "packet_handle_std_match parse frame in_port h0 m =
    (let h = (if hs_valid h0 then h0 else packet_handle_std_validate parse frame in_port h0)
     in (hs_valid h \<and> packet_match m (hs_match h), h))"

section \<open>The hash of a header\<close>

text \<open>Every step of \<open>hash_int\<close> is a bijection of the 32-bit words, so the nodes with the hash of a
  header are the nodes with the header.\<close>

lemma inj_mult_inverse:
  assumes "k * l = (1 :: u32)" shows "k * x = k * y \<longleftrightarrow> x = y"
proof
  assume "k * x = k * y"
  then have "l * (k * x) = l * (k * y)" by simp
  then have "k * l * x = k * l * y" by (simp add: ac_simps)
  then show "x = y" using assms by simp
qed simp

lemma sub_shift_mult: "x - push_bit k x = (1 - 2 ^ k) * x" for x :: u32
  by (simp add: push_bit_eq_mult algebra_simps)

lemma xor_shift_down_inj:
  assumes k: "0 < k" and e: "x XOR drop_bit k x = y XOR drop_bit k y"
  shows "x = (y :: u32)"
proof -
  have "bit x i = bit y i" for i
  proof (induction "32 - i" arbitrary: i rule: less_induct)
    case less
    have "bit (x XOR drop_bit k x) i = bit (y XOR drop_bit k y) i" using e by simp
    then have b: "(bit x i \<noteq> bit x (k + i)) = (bit y i \<noteq> bit y (k + i))"
      by (simp add: bit_xor_iff bit_drop_bit_eq)
    show ?case
    proof (cases "i < 32")
      case True
      then have "bit x (k + i) = bit y (k + i)" using k by (intro less) simp
      with b show ?thesis by auto
    next
      case False
      then show ?thesis using bit_imp_le_length [of x i] bit_imp_le_length [of y i] by auto
    qed
  qed
  then show ?thesis by (simp add: bit_eq_iff)
qed

lemma xor_shift_up_inj:
  assumes k: "0 < k" and e: "x XOR push_bit k x = y XOR push_bit k y"
  shows "x = (y :: u32)"
proof -
  have "bit x i = bit y i" for i
  proof (induction i rule: less_induct)
    case (less i)
    have "bit (x XOR push_bit k x) i = bit (y XOR push_bit k y) i" using e by simp
    then have b: "i < 32 \<Longrightarrow> (bit x i \<noteq> (k \<le> i \<and> bit x (i - k))) = (bit y i \<noteq> (k \<le> i \<and> bit y (i - k)))"
      by (simp add: bit_xor_iff bit_push_bit_iff)
    show ?case
    proof (cases "i < 32")
      case True
      have "k \<le> i \<Longrightarrow> bit x (i - k) = bit y (i - k)" using k by (intro less) simp
      with b [OF True] show ?thesis by auto
    next
      case False
      then show ?thesis using bit_imp_le_length [of x i] bit_imp_le_length [of y i] by auto
    qed
  qed
  then show ?thesis by (simp add: bit_eq_iff)
qed

lemma sub_shift_inj:
  "x - push_bit 6 x = y - push_bit 6 y \<longleftrightarrow> x = y"
  "x - push_bit 9 x = y - push_bit 9 y \<longleftrightarrow> x = y"
  "x - push_bit 3 x = y - push_bit 3 y \<longleftrightarrow> x = (y :: u32)"
  unfolding sub_shift_mult
  using inj_mult_inverse [of "1 - 2 ^ 6" 1090785345 x y] inj_mult_inverse [of "1 - 2 ^ 9" 134480385 x y]
    inj_mult_inverse [of "1 - 2 ^ 3" 1227133513 x y]
  by simp_all

lemma xor_shift_inj:
  "x XOR drop_bit 17 x = y XOR drop_bit 17 y \<longleftrightarrow> x = y"
  "x XOR drop_bit 15 x = y XOR drop_bit 15 y \<longleftrightarrow> x = y"
  "x XOR push_bit 4 x = y XOR push_bit 4 y \<longleftrightarrow> x = y"
  "x XOR push_bit 10 x = y XOR push_bit 10 y \<longleftrightarrow> x = (y :: u32)"
  using xor_shift_down_inj [of 17 x y] xor_shift_down_inj [of 15 x y] xor_shift_up_inj [of 4 x y]
    xor_shift_up_inj [of 10 x y] by auto

lemma hash_int_inj: "hash_int a basis = hash_int b basis \<longleftrightarrow> a = b"
  unfolding hash_int_def Let_def by (simp only: xor_shift_inj sub_shift_inj add_right_cancel)

lemma tlv_hash_inj: "tlv_hash a = tlv_hash b \<longleftrightarrow> a = b"
proof -
  have u: "unat (tlv_hash h) = unat (hash_int h 0)" for h
  proof -
    have "unat (hash_int h 0) < 2 ^ 32" using unsigned_less [of "hash_int h 0"] by simp
    then show ?thesis by (simp add: tlv_hash_def unsigned_ucast_eq take_bit_nat_eq_self)
  qed
  have "tlv_hash a = tlv_hash b \<longleftrightarrow> hash_int a 0 = hash_int b 0"
    unfolding word_unat_eq_iff u ..
  then show ?thesis by (simp add: hash_int_inj)
qed

section \<open>Properties\<close>

text \<open>The value a validation saves is the one a lookup of the header finds.\<close>

lemma with_hash_cases:
  assumes ok: "match_ok m"
  shows "hmap_with_hash (match_fields m) (tlv_hash h) =
    (case oxm_match_lookup h m of None \<Rightarrow> [] | Some f \<Rightarrow> [f])"
proof -
  let ?L = "hmap_with_hash (match_fields m) (tlv_hash h)"
  let ?b = "hm_buckets (match_fields m)" and ?i = "bucket_of (tlv_hash h) (hm_mask (match_fields m))"
  have i: "?i < length ?b" using ok by (simp add: match_ok_def bucket_of_less)
  have hd: "tlv_header f = h" if f: "f \<in> set ?L" for f
  proof -
    obtain nd where nd: "nd \<in> set (?b ! ?i)" "fst nd = tlv_hash h" "f = snd nd"
      using f unfolding hmap_with_hash_def set_map set_filter by blast
    have "nd \<in> set (hm_elems (match_fields m))"
      unfolding hm_elems_def set_concat using nth_mem [OF i] nd(1) by blast
    moreover have "\<forall>nd \<in> set (hm_elems (match_fields m)). fst nd = tlv_hash (tlv_header (snd nd))"
      using ok unfolding match_ok_def by blast
    ultimately have "tlv_hash h = tlv_hash (tlv_header f)" using nd(2,3) by metis
    then show ?thesis unfolding tlv_hash_inj by (rule sym)
  qed
  have "distinct (map (tlv_header \<circ> snd) (?b ! ?i))"
  proof -
    have "distinct (concat (map (map (tlv_header \<circ> snd)) ?b))"
      using ok by (simp add: match_ok_def match_tlvs_def hm_elems_def map_concat comp_def)
    then show ?thesis using nth_mem [OF i] by (simp add: distinct_concat_iff)
  qed
  then have dist: "distinct (map tlv_header ?L)"
    unfolding hmap_with_hash_def map_map by (rule distinct_map_filter)
  have look: "oxm_match_lookup h m = List.find (\<lambda>f. tlv_header f = h) ?L" by (simp add: oxm_match_lookup_def)
  show ?thesis
  proof (cases ?L)
    case Nil
    then show ?thesis by (simp add: look)
  next
    case (Cons f r)
    have hf: "tlv_header f = h" by (rule hd) (simp add: Cons)
    have "r = []"
    proof (cases r)
      case (Cons g r')
      have "tlv_header g = h" by (rule hd) (simp add: \<open>?L = f # r\<close> Cons)
      moreover have "distinct (map tlv_header (f # g # r'))"
        using dist unfolding \<open>?L = f # r\<close> Cons .
      ultimately show ?thesis using hf by simp
    qed
    then show ?thesis unfolding look Cons using hf by simp
  qed
qed

lemma saved_value_lookup:
  assumes "match_ok m"
  shows "saved_value h m = (case oxm_match_lookup h m of None \<Rightarrow> 0 | Some f \<Rightarrow> load64 (tlv_value f))"
  unfolding saved_value_def with_hash_cases [OF assms] by (simp split: option.split)

lemma put_step:
  assumes ok: "match_ok m" and h: "h \<notin> tlv_header ` set (match_tlvs m)" and v: "length v = oxm_length h"
    and small: "fields_size (match_tlvs m) + length v + 4 < 2 ^ 16"
  shows "match_ok (match_put m h v) \<and>
    fields_size (match_tlvs (match_put m h v)) = fields_size (match_tlvs m) + length v + 4 \<and>
    tlv_header ` set (match_tlvs (match_put m h v)) = insert h (tlv_header ` set (match_tlvs m)) \<and>
    (\<forall>k. oxm_match_lookup k (match_put m h v) =
       (if k = h then Some \<lparr>tlv_header = h, tlv_value = v\<rparr> else oxm_match_lookup k m))"
proof -
  have ms: "mset (match_tlvs (match_put m h v)) = add_mset \<lparr>tlv_header = h, tlv_value = v\<rparr> (mset (match_tlvs m))"
    by (rule fields_match_put [OF ok])
  have size: "fields_size fs = sum_mset (image_mset (\<lambda>f. length (tlv_value f) + 4) (mset fs))" for fs
    unfolding fields_size_def mset_map [symmetric] sum_mset_sum_list ..
  have "fields_size (match_tlvs (match_put m h v)) = fields_size (match_tlvs m) + length v + 4"
    unfolding size ms by simp
  moreover have "set (match_tlvs (match_put m h v)) = insert \<lparr>tlv_header = h, tlv_value = v\<rparr> (set (match_tlvs m))"
    using arg_cong [OF ms, of set_mset] by simp
  ultimately show ?thesis using match_ok_put [OF ok h v small] lookup_match_put [OF ok h v small] by simp
qed

text \<open>C34. Validating a handler again after the frame was changed keeps the metadata and the tunnel
  identifier, which are not part of the frame, restores the input port, and takes every other
  field from the new dissection.\<close>

theorem validate_keeps_metadata:
  assumes "\<not> hs_valid h" and "match_ok (hs_match h)" and "parse frame = Some (m, proto)" and "match_ok m"
    and "\<forall>f \<in> set (match_tlvs m). tlv_header f \<notin> {OXM_OF_IN_PORT, OXM_OF_METADATA, OXM_OF_TUNNEL_ID}"
    and "fields_size (match_tlvs m) < 2 ^ 15"
  shows "hs_valid (packet_handle_std_validate parse frame in_port h) \<and>
    match_ok (hs_match (packet_handle_std_validate parse frame in_port h)) \<and>
    oxm_match_lookup k (hs_match (packet_handle_std_validate parse frame in_port h)) =
      (if k = OXM_OF_IN_PORT then Some \<lparr>tlv_header = k, tlv_value = store32 in_port\<rparr>
       else if k \<in> {OXM_OF_METADATA, OXM_OF_TUNNEL_ID} then
         Some \<lparr>tlv_header = k, tlv_value = store64
           (case oxm_match_lookup k (hs_match h) of None \<Rightarrow> 0 | Some f \<Rightarrow> load64 (tlv_value f))\<rparr>
       else oxm_match_lookup k m)"
proof -
  let ?m1 = "match_put m OXM_OF_IN_PORT (store32 in_port)"
  let ?m2 = "match_put ?m1 OXM_OF_METADATA (store64 (saved_value OXM_OF_METADATA (hs_match h)))"
  let ?m3 = "match_put ?m2 OXM_OF_TUNNEL_ID (store64 (saved_value OXM_OF_TUNNEL_ID (hs_match h)))"
  have v: "packet_handle_std_validate parse frame in_port h = h\<lparr>hs_proto := proto, hs_valid := True, hs_match := ?m3\<rparr>"
    using assms(1,3) by (simp add: packet_handle_std_validate_def ofl_structs_match_put32_def
        ofl_structs_match_put64_def Let_def)
  have ne: "OXM_OF_METADATA \<noteq> OXM_OF_IN_PORT" "OXM_OF_TUNNEL_ID \<noteq> OXM_OF_IN_PORT"
    "OXM_OF_TUNNEL_ID \<noteq> OXM_OF_METADATA"
    by (simp_all add: OXM_OF_IN_PORT_def OXM_OF_METADATA_def OXM_OF_TUNNEL_ID_def)
  have len: "length (store32 x) = oxm_length OXM_OF_IN_PORT" "length (store64 y) = oxm_length OXM_OF_METADATA"
    "length (store64 y) = oxm_length OXM_OF_TUNNEL_ID" for x y
    by (simp_all add: oxm_length_def OXM_OF_IN_PORT_def OXM_OF_METADATA_def OXM_OF_TUNNEL_ID_def)
  have n0: "OXM_OF_IN_PORT \<notin> tlv_header ` set (match_tlvs m)" "OXM_OF_METADATA \<notin> tlv_header ` set (match_tlvs m)"
    "OXM_OF_TUNNEL_ID \<notin> tlv_header ` set (match_tlvs m)"
    using assms(5) by auto
  note s1 = put_step [OF assms(4) n0(1) len(1) [of in_port]]
  have p1: "fields_size (match_tlvs m) + length (store32 in_port) + 4 < 2 ^ 16" using assms(6) by simp
  note s1 = s1 [OF p1]
  let ?v2 = "store64 (saved_value OXM_OF_METADATA (hs_match h))"
  have n1: "OXM_OF_METADATA \<notin> tlv_header ` set (match_tlvs ?m1)" using s1 n0 ne by simp
  have p2: "fields_size (match_tlvs ?m1) + length ?v2 + 4 < 2 ^ 16" using s1 assms(6) by simp
  note s2 = put_step [OF conjunct1 [OF s1] n1 len(2) p2]
  let ?v3 = "store64 (saved_value OXM_OF_TUNNEL_ID (hs_match h))"
  have n2: "OXM_OF_TUNNEL_ID \<notin> tlv_header ` set (match_tlvs ?m2)" using s1 s2 n0 ne by simp
  have p3: "fields_size (match_tlvs ?m2) + length ?v3 + 4 < 2 ^ 16" using s1 s2 assms(6) by simp
  note s3 = put_step [OF conjunct1 [OF s2] n2 len(3) p3]
  have "oxm_match_lookup k ?m3 =
      (if k = OXM_OF_TUNNEL_ID then Some \<lparr>tlv_header = k, tlv_value = ?v3\<rparr>
       else if k = OXM_OF_METADATA then Some \<lparr>tlv_header = k, tlv_value = ?v2\<rparr>
       else if k = OXM_OF_IN_PORT then Some \<lparr>tlv_header = k, tlv_value = store32 in_port\<rparr>
       else oxm_match_lookup k m)"
    using s1 s2 s3 by simp
  then show ?thesis
    using s3 ne by (simp add: v saved_value_lookup [OF assms(2)])
qed

definition ex_handle :: packet_handle_std where
  "ex_handle = \<lparr>hs_proto = protocol_reset, hs_match = ofl_structs_match_put64 ofl_structs_match_init OXM_OF_METADATA 5,
    hs_valid = False, hs_table_miss = False\<rparr>"

definition ex_parse :: packet_parser where
  "ex_parse frame = Some (ofl_structs_match_init, protocol_reset)"

theorem validate_keeps_metadata_witness:
  "oxm_match_lookup OXM_OF_METADATA (hs_match (packet_handle_std_validate ex_parse [] 3 ex_handle)) =
     Some \<lparr>tlv_header = OXM_OF_METADATA, tlv_value = store64 5\<rparr> \<and>
   oxm_match_lookup OXM_OF_IN_PORT (hs_match (packet_handle_std_validate ex_parse [] 3 ex_handle)) =
     Some \<lparr>tlv_header = OXM_OF_IN_PORT, tlv_value = store32 3\<rparr>"
proof -
  have len: "length (store64 5) = oxm_length OXM_OF_METADATA"
    by (simp add: oxm_length_def OXM_OF_METADATA_def)
  have z: "fields_size (match_tlvs ofl_structs_match_init) = 0" by (simp add: fields_size_def)
  have p: "match_ok (hs_match ex_handle) \<and> oxm_match_lookup OXM_OF_METADATA (hs_match ex_handle) =
      Some \<lparr>tlv_header = OXM_OF_METADATA, tlv_value = store64 5\<rparr>"
    using put_step [OF match_ok_init _ len] z by (simp add: ex_handle_def ofl_structs_match_put64_def)
  have v: "\<not> hs_valid ex_handle" by (simp add: ex_handle_def)
  have e: "ex_parse [] = Some (ofl_structs_match_init, protocol_reset)" by (simp add: ex_parse_def)
  have ne: "OXM_OF_METADATA \<noteq> OXM_OF_IN_PORT" by (simp add: OXM_OF_IN_PORT_def OXM_OF_METADATA_def)
  have em: "\<forall>f \<in> set (match_tlvs ofl_structs_match_init).
      tlv_header f \<notin> {OXM_OF_IN_PORT, OXM_OF_METADATA, OXM_OF_TUNNEL_ID}" by simp
  have sm: "fields_size (match_tlvs ofl_structs_match_init) < 2 ^ 15" by (simp add: fields_size_def)
  note V = validate_keeps_metadata [where parse = ex_parse and frame = "[]" and in_port = 3,
      OF v conjunct1 [OF p] e match_ok_init em sm]
  show ?thesis using V [of OXM_OF_METADATA] V [of OXM_OF_IN_PORT] p ne by simp
qed

end
