(* ===== verification/Ofpbuf.thy ===== *)
theory Ofpbuf
  imports OF_Prelude
begin

text \<open>
  The byte buffers of \<^verbatim>\<open>lib/ofpbuf.c\<close>.  The allocated region is the concatenation of three parts:
  the headroom before the data, the data in use and the tailroom after it.  Bytes the allocator
  returns are unknown: they are read from the argument \<open>junk\<close>.  A failed assertion ends the
  process and is \<open>None\<close>.  The pointers to the protocol headers, which the datapath does not
  use, are left out.
\<close>

section \<open>Buffers\<close>

record ofpbuf =
  ob_head :: "byte list"
  ob_data :: "byte list"
  ob_tail :: "byte list"

type_synonym allocator = "nat \<Rightarrow> byte"

definition fresh_bytes :: "allocator \<Rightarrow> nat \<Rightarrow> byte list" where
  "fresh_bytes junk n = map junk [0..<n]"

lemma length_fresh_bytes [simp]: "length (fresh_bytes junk n) = n"
  by (simp add: fresh_bytes_def)

definition ofpbuf_use :: "byte list \<Rightarrow> ofpbuf" where
  "ofpbuf_use base = \<lparr>ob_head = [], ob_data = [], ob_tail = base\<rparr>"

definition ofpbuf_init :: "allocator \<Rightarrow> nat \<Rightarrow> ofpbuf" where
  "ofpbuf_init junk sz = ofpbuf_use (if sz \<noteq> 0 then fresh_bytes junk sz else [])"

definition ofpbuf_new :: "allocator \<Rightarrow> nat \<Rightarrow> ofpbuf" where
  "ofpbuf_new junk sz = ofpbuf_init junk sz"

definition ofpbuf_headroom :: "ofpbuf \<Rightarrow> nat" where
  "ofpbuf_headroom b = length (ob_head b)"

definition ofpbuf_tailroom :: "ofpbuf \<Rightarrow> nat" where
  "ofpbuf_tailroom b = length (ob_tail b)"

definition ob_size :: "ofpbuf \<Rightarrow> nat" where
  "ob_size b = length (ob_data b)"

definition ob_allocated :: "ofpbuf \<Rightarrow> nat" where
  "ob_allocated b = ofpbuf_headroom b + ob_size b + ofpbuf_tailroom b"

text \<open>\<open>xrealloc\<close> keeps the old bytes up to the new size.\<close>

definition ofpbuf_resize_tailroom :: "allocator \<Rightarrow> nat \<Rightarrow> ofpbuf \<Rightarrow> ofpbuf" where
  "ofpbuf_resize_tailroom junk n b =
    b\<lparr>ob_tail := take n (ob_tail b) @ drop (ofpbuf_tailroom b) (fresh_bytes junk n)\<rparr>"

definition ofpbuf_prealloc_tailroom :: "allocator \<Rightarrow> nat \<Rightarrow> ofpbuf \<Rightarrow> ofpbuf" where
  "ofpbuf_prealloc_tailroom junk sz b =
    (if ofpbuf_tailroom b < sz then ofpbuf_resize_tailroom junk (max sz 64) b else b)"

definition ofpbuf_prealloc_headroom :: "nat \<Rightarrow> ofpbuf \<Rightarrow> ofpbuf option" where
  "ofpbuf_prealloc_headroom sz b = (if sz \<le> ofpbuf_headroom b then Some b else None)"

definition ofpbuf_trim :: "allocator \<Rightarrow> ofpbuf \<Rightarrow> ofpbuf" where
  "ofpbuf_trim junk b = (if 0 < ofpbuf_tailroom b then ofpbuf_resize_tailroom junk 0 b else b)"

section \<open>Growing at the tail\<close>

definition ofpbuf_put_uninit :: "allocator \<Rightarrow> nat \<Rightarrow> ofpbuf \<Rightarrow> ofpbuf" where
  "ofpbuf_put_uninit junk sz b =
    (let b1 = ofpbuf_prealloc_tailroom junk sz b
     in b1\<lparr>ob_data := ob_data b1 @ take sz (ob_tail b1), ob_tail := drop sz (ob_tail b1)\<rparr>)"

text \<open>The bytes the caller writes through the pointer that \<open>ofpbuf_put_uninit\<close> returned.\<close>

definition write_back :: "byte list \<Rightarrow> ofpbuf \<Rightarrow> ofpbuf" where
  "write_back p b = b\<lparr>ob_data := take (ob_size b - length p) (ob_data b) @ p\<rparr>"

definition ofpbuf_put_zeros :: "allocator \<Rightarrow> nat \<Rightarrow> ofpbuf \<Rightarrow> ofpbuf" where
  "ofpbuf_put_zeros junk sz b = write_back (replicate sz 0) (ofpbuf_put_uninit junk sz b)"

definition ofpbuf_put :: "allocator \<Rightarrow> byte list \<Rightarrow> ofpbuf \<Rightarrow> ofpbuf" where
  "ofpbuf_put junk p b = write_back p (ofpbuf_put_uninit junk (length p) b)"

definition ofpbuf_reserve :: "allocator \<Rightarrow> nat \<Rightarrow> ofpbuf \<Rightarrow> ofpbuf option" where
  "ofpbuf_reserve junk sz b =
    (if ob_size b \<noteq> 0 then None
     else let b1 = ofpbuf_prealloc_tailroom junk sz b
          in Some (b1\<lparr>ob_head := ob_head b1 @ take sz (ob_tail b1), ob_tail := drop sz (ob_tail b1)\<rparr>))"

definition ofpbuf_new_with_headroom :: "allocator \<Rightarrow> nat \<Rightarrow> nat \<Rightarrow> ofpbuf option" where
  "ofpbuf_new_with_headroom junk sz headroom = ofpbuf_reserve junk headroom (ofpbuf_new junk (sz + headroom))"

definition ofpbuf_clone_data :: "allocator \<Rightarrow> byte list \<Rightarrow> ofpbuf" where
  "ofpbuf_clone_data junk p = ofpbuf_put junk p (ofpbuf_new junk (length p))"

definition ofpbuf_clone :: "allocator \<Rightarrow> ofpbuf \<Rightarrow> ofpbuf" where
  "ofpbuf_clone junk b = ofpbuf_clone_data junk (ob_data b)"

definition ofpbuf_clone_with_headroom :: "allocator \<Rightarrow> ofpbuf \<Rightarrow> nat \<Rightarrow> ofpbuf option" where
  "ofpbuf_clone_with_headroom junk b headroom =
    map_option (ofpbuf_put junk (ob_data b)) (ofpbuf_new_with_headroom junk (ob_size b) headroom)"

section \<open>Growing and shrinking at the head\<close>

definition ofpbuf_push_uninit :: "nat \<Rightarrow> ofpbuf \<Rightarrow> ofpbuf option" where
  "ofpbuf_push_uninit sz b =
    map_option (\<lambda>b. let k = ofpbuf_headroom b - sz
                    in b\<lparr>ob_head := take k (ob_head b), ob_data := drop k (ob_head b) @ ob_data b\<rparr>)
      (ofpbuf_prealloc_headroom sz b)"

definition write_front :: "byte list \<Rightarrow> ofpbuf \<Rightarrow> ofpbuf" where
  "write_front p b = b\<lparr>ob_data := p @ drop (length p) (ob_data b)\<rparr>"

definition ofpbuf_push_zeros :: "nat \<Rightarrow> ofpbuf \<Rightarrow> ofpbuf option" where
  "ofpbuf_push_zeros sz b = map_option (write_front (replicate sz 0)) (ofpbuf_push_uninit sz b)"

definition ofpbuf_push :: "byte list \<Rightarrow> ofpbuf \<Rightarrow> ofpbuf option" where
  "ofpbuf_push p b = map_option (write_front p) (ofpbuf_push_uninit (length p) b)"

text \<open>A position in the data, or the null pointer.\<close>

definition ofpbuf_at :: "ofpbuf \<Rightarrow> nat \<Rightarrow> nat \<Rightarrow> nat option" where
  "ofpbuf_at b offset sz = (if offset + sz \<le> ob_size b then Some offset else None)"

definition ofpbuf_clear :: "ofpbuf \<Rightarrow> ofpbuf" where
  "ofpbuf_clear b = \<lparr>ob_head = [], ob_data = [], ob_tail = ob_head b @ ob_data b @ ob_tail b\<rparr>"

definition ofpbuf_pull :: "nat \<Rightarrow> ofpbuf \<Rightarrow> ofpbuf option" where
  "ofpbuf_pull sz b =
    (if sz \<le> ob_size b
     then Some (b\<lparr>ob_head := ob_head b @ take sz (ob_data b), ob_data := drop sz (ob_data b)\<rparr>)
     else None)"

text \<open>The null pointer of \<open>ofpbuf_try_pull\<close> comes with the unchanged buffer.\<close>

definition ofpbuf_try_pull :: "nat \<Rightarrow> ofpbuf \<Rightarrow> bool \<times> ofpbuf" where
  "ofpbuf_try_pull sz b = (case ofpbuf_pull sz b of Some b1 \<Rightarrow> (True, b1) | None \<Rightarrow> (False, b))"

section \<open>Lemmas\<close>

lemma put_uninit_room:
  "sz \<le> ofpbuf_tailroom (ofpbuf_prealloc_tailroom junk sz b)"
  by (auto simp: ofpbuf_prealloc_tailroom_def ofpbuf_resize_tailroom_def ofpbuf_tailroom_def)

lemma prealloc_tailroom_frame [simp]:
  "ob_data (ofpbuf_prealloc_tailroom junk sz b) = ob_data b"
  "ob_head (ofpbuf_prealloc_tailroom junk sz b) = ob_head b"
  by (simp_all add: ofpbuf_prealloc_tailroom_def ofpbuf_resize_tailroom_def)

lemma ob_data_put [simp]: "ob_data (ofpbuf_put junk p b) = ob_data b @ p"
  using put_uninit_room [of "length p" junk b]
  by (simp add: ofpbuf_put_def write_back_def ofpbuf_put_uninit_def ob_size_def ofpbuf_tailroom_def Let_def)

lemma ob_head_put [simp]: "ob_head (ofpbuf_put junk p b) = ob_head b"
  by (simp add: ofpbuf_put_def write_back_def ofpbuf_put_uninit_def Let_def)

lemma tailroom_put:
  "ofpbuf_tailroom (ofpbuf_put junk p b) =
     (if length p \<le> ofpbuf_tailroom b then ofpbuf_tailroom b - length p else max (length p) 64 - length p)"
  by (auto simp: ofpbuf_put_def write_back_def ofpbuf_put_uninit_def Let_def ofpbuf_prealloc_tailroom_def
      ofpbuf_resize_tailroom_def ofpbuf_tailroom_def)

lemma ofpbuf_clone_eq: "ofpbuf_clone junk b = \<lparr>ob_head = [], ob_data = ob_data b, ob_tail = []\<rparr>"
proof -
  let ?c = "ofpbuf_clone junk b"
  have n: "ofpbuf_new junk (length (ob_data b)) =
      \<lparr>ob_head = [], ob_data = [], ob_tail = fresh_bytes junk (length (ob_data b))\<rparr>"
    by (simp add: ofpbuf_new_def ofpbuf_init_def ofpbuf_use_def fresh_bytes_def)
  have "ob_data ?c = ob_data b" "ob_head ?c = []"
    by (simp_all add: ofpbuf_clone_def ofpbuf_clone_data_def n)
  moreover have "ofpbuf_tailroom ?c = 0"
    using tailroom_put [of junk "ob_data b" "ofpbuf_new junk (length (ob_data b))"]
    by (simp add: ofpbuf_clone_def ofpbuf_clone_data_def n ofpbuf_tailroom_def)
  ultimately show ?thesis by (cases ?c) (simp add: ofpbuf_tailroom_def)
qed

lemma ofpbuf_new_with_headroom_eq:
  "\<exists>b. ofpbuf_new_with_headroom junk sz headroom = Some b \<and> ob_data b = [] \<and>
     ofpbuf_headroom b = headroom \<and> ofpbuf_tailroom b = sz"
  by (auto simp: ofpbuf_new_with_headroom_def ofpbuf_reserve_def ofpbuf_new_def ofpbuf_init_def ofpbuf_use_def
      ob_size_def ofpbuf_prealloc_tailroom_def ofpbuf_resize_tailroom_def ofpbuf_headroom_def
      ofpbuf_tailroom_def Let_def)

lemma ofpbuf_push_some:
  "length p \<le> ofpbuf_headroom b \<Longrightarrow>
     ofpbuf_push p b = Some (b\<lparr>ob_head := take (ofpbuf_headroom b - length p) (ob_head b),
                               ob_data := p @ ob_data b\<rparr>)"
  by (simp add: ofpbuf_push_def ofpbuf_push_uninit_def ofpbuf_prealloc_headroom_def write_front_def
      ofpbuf_headroom_def Let_def)

section \<open>Properties\<close>


definition ex_buf :: ofpbuf where
  "ex_buf = \<lparr>ob_head = [0, 0], ob_data = [], ob_tail = [0, 0, 0]\<rparr>"


end
