(* ===== verification/Packet_Buffers.thy ===== *)
theory Packet_Buffers
  imports Action_Set Packet_Handle Ofpbuf
begin

text \<open>
  Packets and the buffers that hold them for the controller: \<^verbatim>\<open>udatapath/packet.c\<close> and
  \<^verbatim>\<open>udatapath/dp_buffers.c\<close>.  Packets live in a heap; a freed packet is absent from it, and an
  operation that would read or write a freed packet, or a null packet pointer, yields \<open>None\<close>.
  The invariant says that a buffer points only to live packets that know they are in it, so
  that no operation faults and no packet is freed while the controller can still name it.
  Times are seconds; an operation reads the clock once.
\<close>

unbundle bit_operations_syntax

section \<open>Packets\<close>

record packet =
  pkt_buffer :: ofpbuf
  pkt_in_port :: u32
  pkt_action_set :: action_set
  pkt_packet_out :: bool
  pkt_out_group :: u32
  pkt_out_port :: u32
  pkt_out_port_max_len :: u16
  pkt_out_queue :: u32
  pkt_table_id :: u8
  pkt_buffer_id :: u32
  pkt_handle_std :: packet_handle_std

definition NO_BUFFER :: u32 where "NO_BUFFER = 0xffffffff"

abbreviation pkt_data :: "packet \<Rightarrow> byte list" where
  "pkt_data k \<equiv> ob_data (pkt_buffer k)"

definition packet_create :: "packet_parser \<Rightarrow> bool \<Rightarrow> u32 \<Rightarrow> ofpbuf \<Rightarrow> bool \<Rightarrow> packet" where
  "packet_create parse miss in_port buf packet_out =
    \<lparr>pkt_buffer = buf, pkt_in_port = in_port, pkt_action_set = action_set_create,
     pkt_packet_out = packet_out, pkt_out_group = OFPG_ANY, pkt_out_port = OFPP_ANY,
     pkt_out_port_max_len = 0, pkt_out_queue = 0, pkt_table_id = 0, pkt_buffer_id = NO_BUFFER,
     pkt_handle_std = packet_handle_std_create parse miss (ob_data buf) in_port\<rparr>"

definition packet_clone :: "packet_parser \<Rightarrow> allocator \<Rightarrow> bool \<Rightarrow> packet \<Rightarrow> packet" where
  "packet_clone parse junk miss pkt =
    \<lparr>pkt_buffer = ofpbuf_clone junk (pkt_buffer pkt), pkt_in_port = pkt_in_port pkt,
     pkt_action_set = action_set_create,
     pkt_packet_out = pkt_packet_out pkt, pkt_out_group = OFPG_ANY, pkt_out_port = OFPP_ANY,
     pkt_out_port_max_len = 0, pkt_out_queue = 0, pkt_table_id = pkt_table_id pkt,
     pkt_buffer_id = NO_BUFFER,
     pkt_handle_std = packet_handle_std_clone parse miss (pkt_data pkt) (pkt_in_port pkt)\<rparr>"

section \<open>Buffers\<close>

definition PKT_BUFFER_BITS :: nat where "PKT_BUFFER_BITS = 8"
definition PKT_COOKIE_BITS :: nat where "PKT_COOKIE_BITS = 24"
definition N_PKT_BUFFERS :: nat where "N_PKT_BUFFERS = 256"
definition PKT_BUFFER_MASK :: u32 where "PKT_BUFFER_MASK = 0xff"
definition OVERWRITE_SECS :: nat where "OVERWRITE_SECS = 1"

record packet_buffer =
  pb_pkt :: "addr option"
  pb_cookie :: u32
  pb_timeout :: nat

record dp_buffers =
  buffer_idx :: u64
  buffers_num :: nat
  buffers :: "packet_buffer list"
  pkts :: "addr \<Rightarrow> packet option"

definition dp_buffers_create :: "(addr \<Rightarrow> packet option) \<Rightarrow> dp_buffers" where
  "dp_buffers_create heap =
    \<lparr>buffer_idx = - 1, buffers_num = N_PKT_BUFFERS,
     buffers = replicate N_PKT_BUFFERS \<lparr>pb_pkt = None, pb_cookie = 0xffffffff, pb_timeout = 0\<rparr>,
     pkts = heap\<rparr>"

definition dp_buffers_size :: "dp_buffers \<Rightarrow> nat" where
  "dp_buffers_size dpb = buffers_num dpb"

definition slot_of :: "u32 \<Rightarrow> nat" where
  "slot_of bid = unat (bid AND PKT_BUFFER_MASK)"

definition dp_buffers_is_alive :: "nat \<Rightarrow> dp_buffers \<Rightarrow> u32 \<Rightarrow> bool" where
  "dp_buffers_is_alive now dpb bid =
    (let p = buffers dpb ! slot_of bid
     in pb_cookie p = drop_bit PKT_BUFFER_BITS bid \<and> now < pb_timeout p)"

definition set_slot :: "nat \<Rightarrow> packet_buffer \<Rightarrow> dp_buffers \<Rightarrow> dp_buffers" where
  "set_slot i p dpb = dpb\<lparr>buffers := (buffers dpb)[i := p]\<rparr>"

definition set_buffer_id :: "addr \<Rightarrow> u32 \<Rightarrow> dp_buffers \<Rightarrow> dp_buffers option" where
  "set_buffer_id a bid dpb =
    (case pkts dpb a of
       None \<Rightarrow> None
     | Some k \<Rightarrow> Some (dpb\<lparr>pkts := (pkts dpb)(a \<mapsto> k\<lparr>pkt_buffer_id := bid\<rparr>)\<rparr>))"

text \<open>\<open>dp_buffers_discard\<close> with \<open>destroy = false\<close>, the only way \<open>packet_destroy\<close> calls it.\<close>

definition dp_buffers_forget :: "dp_buffers \<Rightarrow> u32 \<Rightarrow> dp_buffers" where
  "dp_buffers_forget dpb bid =
    (let i = slot_of bid; p = buffers dpb ! i
     in if pb_cookie p = drop_bit PKT_BUFFER_BITS bid then set_slot i (p\<lparr>pb_pkt := None\<rparr>) dpb else dpb)"

definition packet_destroy :: "nat \<Rightarrow> addr \<Rightarrow> dp_buffers \<Rightarrow> dp_buffers option" where
  "packet_destroy now a dpb =
    (case pkts dpb a of
       None \<Rightarrow> None
     | Some k \<Rightarrow>
        if pkt_buffer_id k \<noteq> NO_BUFFER \<and> dp_buffers_is_alive now dpb (pkt_buffer_id k) then Some dpb
        else let dpb1 = (if pkt_buffer_id k \<noteq> NO_BUFFER then dp_buffers_forget dpb (pkt_buffer_id k)
                         else dpb)
             in Some (dpb1\<lparr>pkts := (pkts dpb1)(a := None)\<rparr>))"

definition dp_buffers_discard :: "nat \<Rightarrow> dp_buffers \<Rightarrow> u32 \<Rightarrow> bool \<Rightarrow> dp_buffers option" where
  "dp_buffers_discard now dpb bid destroy =
    (let i = slot_of bid; p = buffers dpb ! i
     in if pb_cookie p = drop_bit PKT_BUFFER_BITS bid then
          (case (if destroy then
                   (case pb_pkt p of
                      None \<Rightarrow> None
                    | Some a \<Rightarrow> Option.bind (set_buffer_id a NO_BUFFER dpb) (packet_destroy now a))
                 else Some dpb) of
             None \<Rightarrow> None
           | Some dpb1 \<Rightarrow> Some (set_slot i (p\<lparr>pb_pkt := None\<rparr>) dpb1))
        else Some dpb)"

definition next_cookie :: "u32 \<Rightarrow> u32" where
  "next_cookie c = (if c + 1 \<ge> 0xffffff then 0 else c + 1)"

definition buffer_id_of :: "u64 \<Rightarrow> u32 \<Rightarrow> u32" where
  "buffer_id_of idx cookie = ucast idx OR push_bit PKT_BUFFER_BITS cookie"

text \<open>The second half of \<open>dp_buffers_save\<close>: the slot is free.\<close>

definition save_in_slot :: "nat \<Rightarrow> addr \<Rightarrow> dp_buffers \<Rightarrow> (u32 \<times> dp_buffers) option" where
  "save_in_slot now a dpb =
    (let i = unat (buffer_idx dpb); p = buffers dpb ! i;
         cookie = next_cookie (pb_cookie p);
         bid = buffer_id_of (buffer_idx dpb) cookie;
         dpb1 = set_slot i \<lparr>pb_pkt = Some a, pb_cookie = cookie, pb_timeout = now + OVERWRITE_SECS\<rparr> dpb
     in map_option (\<lambda>dpb2. (bid, dpb2)) (set_buffer_id a bid dpb1))"

definition dp_buffers_save :: "nat \<Rightarrow> addr \<Rightarrow> dp_buffers \<Rightarrow> (u32 \<times> dp_buffers) option" where
  "dp_buffers_save now a dpb =
    (case pkts dpb a of
       None \<Rightarrow> None
     | Some k \<Rightarrow>
        if pkt_buffer_id k \<noteq> NO_BUFFER \<and> dp_buffers_is_alive now dpb (pkt_buffer_id k)
        then Some (pkt_buffer_id k, dpb)
        else let idx = (buffer_idx dpb + 1) AND 0xff;
                 dpb1 = dpb\<lparr>buffer_idx := idx\<rparr>;
                 p = buffers dpb1 ! unat idx
             in case pb_pkt p of
                  Some b \<Rightarrow>
                    if now < pb_timeout p then Some (NO_BUFFER, dpb1)
                    else Option.bind (set_buffer_id b NO_BUFFER dpb1) (\<lambda>dpb2.
                         Option.bind (packet_destroy now b dpb2) (save_in_slot now a))
                | None \<Rightarrow> save_in_slot now a dpb1)"

definition dp_buffers_retrieve :: "dp_buffers \<Rightarrow> u32 \<Rightarrow> (addr option \<times> dp_buffers) option" where
  "dp_buffers_retrieve dpb bid =
    (let i = slot_of bid; p = buffers dpb ! i
     in if pb_cookie p = drop_bit PKT_BUFFER_BITS bid then
          (case pb_pkt p of
             None \<Rightarrow> Some (None, dpb)
           | Some a \<Rightarrow>
              (case pkts dpb a of
                 None \<Rightarrow> None
               | Some k \<Rightarrow>
                  Some (Some a, set_slot i (p\<lparr>pb_pkt := None\<rparr>)
                    (dpb\<lparr>pkts := (pkts dpb)(a \<mapsto> k\<lparr>pkt_buffer_id := NO_BUFFER,
                                                  pkt_packet_out := False\<rparr>)\<rparr>))))
        else Some (None, dpb))"

section \<open>Buffer identifiers\<close>

lemma word_less_bit: "w < 2 ^ k \<Longrightarrow> k < LENGTH('a) \<Longrightarrow> bit w i \<Longrightarrow> i < k" for w :: "'a :: len word"
  using less_mask_eq [of w k] bit_and_iff [of w "mask k" i] by (simp add: bit_mask_iff)

lemma buffer_id_parts:
  assumes "idx < 256" and "c < 2 ^ 24"
  shows "buffer_id_of idx c AND PKT_BUFFER_MASK = ucast idx"
    and "drop_bit PKT_BUFFER_BITS (buffer_id_of idx c) = c"
proof -
  have i: "i < 8" if "bit idx i" for i using word_less_bit [of idx 8 i] assms that by simp
  have c: "i < 24" if "bit c i" for i using word_less_bit [of c 24 i] assms that by simp
  have m: "PKT_BUFFER_MASK = mask 8" by (simp add: PKT_BUFFER_MASK_def mask_eq_exp_minus_1)
  show "buffer_id_of idx c AND PKT_BUFFER_MASK = ucast idx"
    unfolding m buffer_id_of_def PKT_BUFFER_BITS_def
    by (rule bit_word_eqI) (auto simp: bit_and_iff bit_or_iff bit_mask_iff bit_push_bit_iff bit_ucast_iff dest: i)
  show "drop_bit PKT_BUFFER_BITS (buffer_id_of idx c) = c"
    unfolding buffer_id_of_def PKT_BUFFER_BITS_def
    by (rule bit_word_eqI) (auto simp: bit_or_iff bit_drop_bit_eq bit_push_bit_iff bit_ucast_iff dest: i c)
qed

lemma next_cookie_less: "next_cookie c < 0xffffff"
  by (simp add: next_cookie_def not_le)

lemma slot_of_id: "idx < 256 \<Longrightarrow> c < 2 ^ 24 \<Longrightarrow> slot_of (buffer_id_of idx c) = unat idx"
  unfolding slot_of_def using buffer_id_parts(1) [of idx c] 
  by (simp add: unsigned_ucast_eq take_bit_nat_eq_self word_less_nat_alt)

lemma buffer_id_not_NO:
  assumes "idx < 256" and "c < 0xffffff"
  shows "buffer_id_of idx c \<noteq> NO_BUFFER"
proof
  assume "buffer_id_of idx c = NO_BUFFER"
  moreover have "c < 2 ^ 24" using assms(2) by (simp add: word_less_nat_alt)
  ultimately have "c = drop_bit 8 NO_BUFFER"
    using buffer_id_parts(2) [of idx c] assms(1) by (simp add: PKT_BUFFER_BITS_def)
  then show False using assms(2) by (simp add: NO_BUFFER_def)
qed


section \<open>The invariant\<close>

definition slot_ok :: "dp_buffers \<Rightarrow> nat \<Rightarrow> bool" where
  "slot_ok dpb i \<longleftrightarrow>
    (let p = buffers dpb ! i
     in case pb_pkt p of
          None \<Rightarrow> True
        | Some a \<Rightarrow> pb_cookie p < 0xffffff \<and> (\<exists>k. pkts dpb a = Some k \<and>
            pkt_buffer_id k = buffer_id_of (of_nat i) (pb_cookie p)))"

definition packet_ok :: "dp_buffers \<Rightarrow> addr \<Rightarrow> packet \<Rightarrow> bool" where
  "packet_ok dpb a k \<longleftrightarrow> pkt_buffer_id k \<noteq> NO_BUFFER \<longrightarrow>
     pb_pkt (buffers dpb ! slot_of (pkt_buffer_id k)) = Some a \<and>
     pb_cookie (buffers dpb ! slot_of (pkt_buffer_id k)) = drop_bit PKT_BUFFER_BITS (pkt_buffer_id k)"

definition buf_inv :: "dp_buffers \<Rightarrow> bool" where
  "buf_inv dpb \<longleftrightarrow> length (buffers dpb) = N_PKT_BUFFERS \<and> (\<forall>i < N_PKT_BUFFERS. slot_ok dpb i) \<and>
     (\<forall>a k. pkts dpb a = Some k \<longrightarrow> packet_ok dpb a k)"

lemma slot_of_less: "slot_of bid < N_PKT_BUFFERS"
proof -
  have "unat (bid AND PKT_BUFFER_MASK) \<le> unat PKT_BUFFER_MASK"
    by (rule word_and_le1 [THEN word_le_nat_alt [THEN iffD1]])
  then show ?thesis by (simp add: slot_of_def N_PKT_BUFFERS_def PKT_BUFFER_MASK_def)
qed

lemma of_nat_slot: "i < N_PKT_BUFFERS \<Longrightarrow> (of_nat i :: u64) < 256 \<and> unat (of_nat i :: u64) = i"
  by (simp add: N_PKT_BUFFERS_def word_less_nat_alt unat_of_nat)

lemma cookie_24: "c < 0xffffff \<Longrightarrow> c < 2 ^ 24" for c :: u32
  by (simp add: word_less_nat_alt)

lemma slot_of_slot_id:
  assumes "i < N_PKT_BUFFERS" "c < 0xffffff"
  shows "slot_of (buffer_id_of (of_nat i) c) = i"
    and "drop_bit PKT_BUFFER_BITS (buffer_id_of (of_nat i) c) = c"
    and "buffer_id_of (of_nat i) c \<noteq> NO_BUFFER"
  using slot_of_id [of "of_nat i" c] buffer_id_parts(2) [of "of_nat i" c]
    buffer_id_not_NO [of "of_nat i" c] of_nat_slot [OF assms(1)] cookie_24 [OF assms(2)] assms(2)
  by simp_all

lemma buf_inv_create:
  assumes "\<And>a k. heap a = Some k \<Longrightarrow> pkt_buffer_id k = NO_BUFFER"
  shows "buf_inv (dp_buffers_create heap)"
  using assms by (auto simp: buf_inv_def dp_buffers_create_def slot_ok_def packet_ok_def)

lemma buf_invD:
  assumes "buf_inv dpb"
  shows "length (buffers dpb) = N_PKT_BUFFERS"
    and "pkts dpb a = Some k \<Longrightarrow> pkt_buffer_id k \<noteq> NO_BUFFER \<Longrightarrow>
      pb_pkt (buffers dpb ! slot_of (pkt_buffer_id k)) = Some a"
    and "pkts dpb a = Some k \<Longrightarrow> pkt_buffer_id k \<noteq> NO_BUFFER \<Longrightarrow>
      pb_cookie (buffers dpb ! slot_of (pkt_buffer_id k)) = drop_bit PKT_BUFFER_BITS (pkt_buffer_id k)"
  using assms by (auto simp: buf_inv_def packet_ok_def)

lemma buf_inv_slot:
  assumes "buf_inv dpb" "i < N_PKT_BUFFERS" "pb_pkt (buffers dpb ! i) = Some a"
  obtains k where "pkts dpb a = Some k" "pb_cookie (buffers dpb ! i) < 0xffffff"
    "pkt_buffer_id k = buffer_id_of (of_nat i) (pb_cookie (buffers dpb ! i))"
    "pkt_buffer_id k \<noteq> NO_BUFFER" "slot_of (pkt_buffer_id k) = i"
proof -
  have "slot_ok dpb i" using assms by (simp add: buf_inv_def)
  then obtain k where k: "pkts dpb a = Some k" "pb_cookie (buffers dpb ! i) < 0xffffff"
    "pkt_buffer_id k = buffer_id_of (of_nat i) (pb_cookie (buffers dpb ! i))"
    using assms(3) by (auto simp: slot_ok_def Let_def)
  with slot_of_slot_id [OF assms(2) k(2)] show ?thesis using that by simp
qed

lemma buf_inv_unbuffered:
  assumes "buf_inv dpb" "pkts dpb a = Some k" "pkt_buffer_id k = NO_BUFFER" "i < N_PKT_BUFFERS"
  shows "pb_pkt (buffers dpb ! i) \<noteq> Some a"
  using assms by (metis buf_inv_slot option.inject)

text \<open>Emptying the slot of a packet and either freeing the packet or resetting its identifier
  keeps the invariant.\<close>

lemma buf_inv_release:
  assumes inv: "buf_inv dpb" and i: "i < N_PKT_BUFFERS"
    and slot: "pb_pkt (buffers dpb ! i) = Some a"
    and r: "\<And>k'. r = Some k' \<Longrightarrow> pkt_buffer_id k' = NO_BUFFER"
  shows "buf_inv (set_slot i ((buffers dpb ! i)\<lparr>pb_pkt := None\<rparr>) (dpb\<lparr>pkts := (pkts dpb)(a := r)\<rparr>))"
  unfolding buf_inv_def
proof (intro conjI allI impI)
  let ?d = "set_slot i ((buffers dpb ! i)\<lparr>pb_pkt := None\<rparr>) (dpb\<lparr>pkts := (pkts dpb)(a := r)\<rparr>)"
  obtain k where k: "pkts dpb a = Some k" "pkt_buffer_id k \<noteq> NO_BUFFER" "slot_of (pkt_buffer_id k) = i"
    using buf_inv_slot [OF inv i slot] .
  show "length (buffers ?d) = N_PKT_BUFFERS" using buf_invD(1) [OF inv] by (simp add: set_slot_def)
  show "slot_ok ?d j" if j: "j < N_PKT_BUFFERS" for j
  proof (cases "j = i")
    case True
    then show ?thesis using j buf_invD(1) [OF inv] by (simp add: slot_ok_def set_slot_def)
  next
    case False
    have "slot_ok dpb j" using inv j by (simp add: buf_inv_def)
    moreover have "pb_pkt (buffers dpb ! j) \<noteq> Some a"
    proof
      assume "pb_pkt (buffers dpb ! j) = Some a"
      from buf_inv_slot [OF inv j this] k False show False by (metis option.inject)
    qed
    ultimately show ?thesis
      using False by (auto simp: slot_ok_def set_slot_def Let_def split: option.splits)
  qed
  show "packet_ok ?d b kb" if "pkts ?d b = Some kb" for b kb
  proof (cases "b = a")
    case True
    then show ?thesis using that r by (simp add: packet_ok_def set_slot_def)
  next
    case False
    then have b: "pkts dpb b = Some kb" using that by (simp add: set_slot_def)
    show ?thesis
    proof (cases "pkt_buffer_id kb = NO_BUFFER")
      case ne: False
      have "pb_pkt (buffers dpb ! slot_of (pkt_buffer_id kb)) = Some b"
        using buf_invD(2) [OF inv b ne] .
      then have "slot_of (pkt_buffer_id kb) \<noteq> i" using slot False by auto
      then show ?thesis using buf_invD(2,3) [OF inv b ne] by (simp add: packet_ok_def set_slot_def)
    qed (simp add: packet_ok_def)
  qed
qed


lemma buf_inv_free_unbuffered:
  assumes inv: "buf_inv dpb" and a: "pkts dpb a = Some k" "pkt_buffer_id k = NO_BUFFER"
  shows "buf_inv (dpb\<lparr>pkts := (pkts dpb)(a := None)\<rparr>)"
proof -
  have "slot_ok (dpb\<lparr>pkts := (pkts dpb)(a := None)\<rparr>) i" if i: "i < N_PKT_BUFFERS" for i
  proof -
    have "slot_ok dpb i" using inv i by (simp add: buf_inv_def)
    then show ?thesis using buf_inv_unbuffered [OF inv a i]
      by (auto simp: slot_ok_def Let_def split: option.splits)
  qed
  then show ?thesis using inv by (auto simp: buf_inv_def packet_ok_def)
qed

lemma buf_inv_idx [simp]: "buf_inv (dpb\<lparr>buffer_idx := idx\<rparr>) = buf_inv dpb"
  by (auto simp: buf_inv_def slot_ok_def packet_ok_def Let_def split: option.splits)

lemma packet_destroy_ok:
  assumes inv: "buf_inv dpb" and a: "pkts dpb a = Some k"
  shows "\<exists>dpb'. packet_destroy now a dpb = Some dpb' \<and> buf_inv dpb' \<and>
    (dpb' = dpb \<or> pkts dpb' = (pkts dpb)(a := None))"
proof (cases "pkt_buffer_id k = NO_BUFFER")
  case True
  then show ?thesis using a buf_inv_free_unbuffered [OF inv a True] by (simp add: packet_destroy_def)
next
  case False
  let ?i = "slot_of (pkt_buffer_id k)"
  show ?thesis
  proof (cases "dp_buffers_is_alive now dpb (pkt_buffer_id k)")
    case True
    then show ?thesis using a False inv by (simp add: packet_destroy_def)
  next
    case dead: False
    have "buf_inv (set_slot ?i ((buffers dpb ! ?i)\<lparr>pb_pkt := None\<rparr>) (dpb\<lparr>pkts := (pkts dpb)(a := None)\<rparr>))"
      by (rule buf_inv_release [OF inv slot_of_less buf_invD(2) [OF inv a False]]) simp
    moreover have "packet_destroy now a dpb =
        Some (set_slot ?i ((buffers dpb ! ?i)\<lparr>pb_pkt := None\<rparr>) (dpb\<lparr>pkts := (pkts dpb)(a := None)\<rparr>))"
      using a False dead buf_invD(3) [OF inv a False]
      by (simp add: packet_destroy_def dp_buffers_forget_def Let_def set_slot_def)
    ultimately show ?thesis by (simp add: set_slot_def)
  qed
qed

lemma dp_buffers_retrieve_ok:
  assumes inv: "buf_inv dpb"
  shows "\<exists>r dpb'. dp_buffers_retrieve dpb bid = Some (r, dpb') \<and> buf_inv dpb'"
proof -
  let ?i = "slot_of bid"
  show ?thesis
  proof (cases "pb_cookie (buffers dpb ! ?i) = drop_bit PKT_BUFFER_BITS bid")
    case False
    then show ?thesis using inv by (simp add: dp_buffers_retrieve_def Let_def)
  next
    case True
    show ?thesis
    proof (cases "pb_pkt (buffers dpb ! ?i)")
      case None
      then show ?thesis using True inv by (simp add: dp_buffers_retrieve_def Let_def)
    next
      case (Some a)
      obtain k where k: "pkts dpb a = Some k" using buf_inv_slot [OF inv slot_of_less Some] .
      let ?k = "k\<lparr>pkt_buffer_id := NO_BUFFER, pkt_packet_out := False\<rparr>"
      have "buf_inv (set_slot ?i ((buffers dpb ! ?i)\<lparr>pb_pkt := None\<rparr>) (dpb\<lparr>pkts := (pkts dpb)(a \<mapsto> ?k)\<rparr>))"
        by (rule buf_inv_release [OF inv slot_of_less Some]) auto
      then show ?thesis using True Some k by (simp add: dp_buffers_retrieve_def Let_def)
    qed
  qed
qed

lemma save_in_slot_ok:
  assumes inv: "buf_inv dpb" and idx: "buffer_idx dpb < 256"
    and free: "pb_pkt (buffers dpb ! unat (buffer_idx dpb)) = None"
    and a: "pkts dpb a = Some k" "pkt_buffer_id k = NO_BUFFER"
  shows "\<exists>bid dpb'. save_in_slot now a dpb = Some (bid, dpb') \<and> buf_inv dpb' \<and> bid \<noteq> NO_BUFFER \<and>
    pkts dpb' = (pkts dpb)(a \<mapsto> k\<lparr>pkt_buffer_id := bid\<rparr>) \<and>
    buffers dpb' ! slot_of bid =
      \<lparr>pb_pkt = Some a, pb_cookie = drop_bit PKT_BUFFER_BITS bid, pb_timeout = now + OVERWRITE_SECS\<rparr>"
proof -
  let ?i = "unat (buffer_idx dpb)"
  define c where "c = next_cookie (pb_cookie (buffers dpb ! ?i))"
  define bid where "bid = buffer_id_of (buffer_idx dpb) c"
  define p where "p = \<lparr>pb_pkt = Some a, pb_cookie = c, pb_timeout = now + OVERWRITE_SECS\<rparr>"
  define d where "d = dpb\<lparr>buffers := (buffers dpb)[?i := p], pkts := (pkts dpb)(a \<mapsto> k\<lparr>pkt_buffer_id := bid\<rparr>)\<rparr>"
  have i: "?i < N_PKT_BUFFERS" using idx by (simp add: N_PKT_BUFFERS_def word_less_nat_alt)
  have c: "c < 0xffffff" by (simp add: c_def next_cookie_less)
  have ci: "(of_nat ?i :: u64) = buffer_idx dpb" by simp
  note bid = slot_of_slot_id [OF i c, unfolded ci, folded bid_def]
  note len = buf_invD(1) [OF inv]
  have save: "save_in_slot now a dpb = Some (bid, d)"
    using a by (simp add: save_in_slot_def Let_def set_slot_def set_buffer_id_def d_def p_def bid_def c_def)
  have slot: "slot_ok d j" if j: "j < N_PKT_BUFFERS" for j
  proof (cases "j = ?i")
    case True
    have "pkt_buffer_id (k\<lparr>pkt_buffer_id := bid\<rparr>) = buffer_id_of (of_nat j) c"
      using ci True by (simp add: bid_def)
    then show ?thesis using True c i len by (simp add: slot_ok_def d_def p_def)
  next
    case False
    have "slot_ok dpb j" using inv j by (simp add: buf_inv_def)
    then show ?thesis using False buf_inv_unbuffered [OF inv a j]
      by (auto simp: slot_ok_def d_def Let_def split: option.splits)
  qed
  have pack: "packet_ok d b kb" if b: "pkts d b = Some kb" for b kb
  proof (cases "b = a")
    case True
    then show ?thesis using b bid i len by (auto simp: d_def packet_ok_def p_def)
  next
    case False
    then have b': "pkts dpb b = Some kb" using b by (simp add: d_def)
    show ?thesis
    proof (cases "pkt_buffer_id kb = NO_BUFFER")
      case ne: False
      have "slot_of (pkt_buffer_id kb) \<noteq> ?i" using buf_invD(2) [OF inv b' ne] free by auto
      then show ?thesis using buf_invD(2,3) [OF inv b' ne] by (simp add: packet_ok_def d_def)
    qed (simp add: packet_ok_def)
  qed
  have "buf_inv d" using slot pack len by (simp add: buf_inv_def d_def)
  moreover have "buffers d ! slot_of bid = p \<and> pb_cookie p = drop_bit PKT_BUFFER_BITS bid"
    using bid i len by (simp add: d_def p_def)
  ultimately show ?thesis
    using save bid by (intro exI [of _ bid] exI [of _ d]) (simp add: d_def p_def)
qed


lemma save_in_slot_forget:
  assumes "unat (buffer_idx d) < length (buffers d)"
  shows "save_in_slot now a (set_slot (unat (buffer_idx d))
      ((buffers d ! unat (buffer_idx d))\<lparr>pb_pkt := None\<rparr>) d) = save_in_slot now a d"
  using assms
  by (simp add: save_in_slot_def Let_def set_slot_def set_buffer_id_def split: option.split)

text \<open>A packet may be saved when it is not in a buffer, or in one that is still alive.\<close>

definition can_save :: "nat \<Rightarrow> dp_buffers \<Rightarrow> addr \<Rightarrow> bool" where
  "can_save now dpb a \<longleftrightarrow> (\<exists>k. pkts dpb a = Some k \<and>
     (pkt_buffer_id k = NO_BUFFER \<or> dp_buffers_is_alive now dpb (pkt_buffer_id k)))"

lemma and_0xff_less: "w AND 0xff < 256" for w :: u64
proof -
  have "w AND 0xff \<le> 0xff" by (rule word_and_le1)
  then show ?thesis by (rule order.strict_trans1) simp
qed

lemma dp_buffers_save_ok:
  assumes inv: "buf_inv dpb" and can: "can_save now dpb a"
  shows "\<exists>bid dpb'. dp_buffers_save now a dpb = Some (bid, dpb') \<and> buf_inv dpb' \<and>
    (bid \<noteq> NO_BUFFER \<longrightarrow> pb_pkt (buffers dpb' ! slot_of bid) = Some a \<and>
      pb_cookie (buffers dpb' ! slot_of bid) = drop_bit PKT_BUFFER_BITS bid \<and>
      now < pb_timeout (buffers dpb' ! slot_of bid))"
proof -
  obtain k where k: "pkts dpb a = Some k"
    "pkt_buffer_id k = NO_BUFFER \<or> dp_buffers_is_alive now dpb (pkt_buffer_id k)"
    using can by (auto simp: can_save_def)
  show ?thesis
  proof (cases "pkt_buffer_id k = NO_BUFFER")
    case False
    with k(2) have al: "dp_buffers_is_alive now dpb (pkt_buffer_id k)" by simp
    then have "now < pb_timeout (buffers dpb ! slot_of (pkt_buffer_id k))"
      by (simp add: dp_buffers_is_alive_def Let_def)
    with buf_invD(2,3) [OF inv k(1) False] show ?thesis
      using k(1) False al inv by (simp add: dp_buffers_save_def)
  next
    case True
    define d where "d = dpb\<lparr>buffer_idx := (buffer_idx dpb + 1) AND 0xff\<rparr>"
    let ?i = "unat (buffer_idx d)"
    have d: "buf_inv d" "buffer_idx d < 256" "pkts d = pkts dpb" "buffers d = buffers dpb"
      using inv and_0xff_less by (simp_all add: d_def)
    have i: "?i < N_PKT_BUFFERS" using d(2) by (simp add: N_PKT_BUFFERS_def word_less_nat_alt)
    have eq: "dp_buffers_save now a dpb = (case pb_pkt (buffers d ! ?i) of
          Some b \<Rightarrow>
            if now < pb_timeout (buffers d ! ?i) then Some (NO_BUFFER, d)
            else Option.bind (set_buffer_id b NO_BUFFER d) (\<lambda>dpb2.
                 Option.bind (packet_destroy now b dpb2) (save_in_slot now a))
        | None \<Rightarrow> save_in_slot now a d)"
      using k(1) True by (simp add: dp_buffers_save_def Let_def d_def split: option.split)
    have fin: ?thesis if f: "dp_buffers_save now a dpb = save_in_slot now a d'"
      and d': "buf_inv d'" "buffer_idx d' < 256" "pb_pkt (buffers d' ! unat (buffer_idx d')) = None"
        "pkts d' a = Some k" for d'
      using save_in_slot_ok [OF d' True, of now] f
      by (auto simp: OVERWRITE_SECS_def)
    show ?thesis
    proof (cases "pb_pkt (buffers d ! ?i)")
      case None
      then show ?thesis using fin [of d] d k(1) eq by simp
    next
      case (Some b)
      show ?thesis
      proof (cases "now < pb_timeout (buffers d ! ?i)")
        case busy: True
        then show ?thesis using d(1) Some eq by simp
      next
        case False
        obtain kb where kb: "pkts d b = Some kb" using buf_inv_slot [OF d(1) i Some] .
        have ab: "a \<noteq> b" using buf_inv_unbuffered [OF d(1) _ True i] k(1) d(3) Some by auto
        define d2 where "d2 = d\<lparr>pkts := (pkts d)(b := None)\<rparr>"
        define d3 where "d3 = set_slot ?i ((buffers d ! ?i)\<lparr>pb_pkt := None\<rparr>) d2"
        have "dp_buffers_save now a dpb = save_in_slot now a d2"
          using Some False kb by (simp add: eq set_buffer_id_def packet_destroy_def d2_def)
        also have "\<dots> = save_in_slot now a d3"
          using save_in_slot_forget [of d2 now a] i d(4) buf_invD(1) [OF inv]
          by (simp add: d3_def d2_def)
        finally have s: "dp_buffers_save now a dpb = save_in_slot now a d3" .
        have "buf_inv d3" unfolding d3_def d2_def
          by (rule buf_inv_release [OF d(1) i Some]) simp
        moreover have "buffer_idx d3 = buffer_idx d" "pkts d3 a = Some k"
          "pb_pkt (buffers d3 ! ?i) = None"
          using ab k(1) d(3,4) i buf_invD(1) [OF inv]
          by (simp_all add: d3_def d2_def set_slot_def)
        ultimately show ?thesis using fin [OF s] d(2) by simp
      qed
    qed
  qed
qed


section \<open>Sequences of operations\<close>

inductive buf_step :: "dp_buffers \<Rightarrow> dp_buffers \<Rightarrow> bool" where
  create: "pkts d a = None \<Longrightarrow> pkt_buffer_id k = NO_BUFFER \<Longrightarrow>
    buf_step d (d\<lparr>pkts := (pkts d)(a \<mapsto> k)\<rparr>)"
| edit: "pkts d a = Some k \<Longrightarrow> pkt_buffer_id k' = pkt_buffer_id k \<Longrightarrow>
    buf_step d (d\<lparr>pkts := (pkts d)(a \<mapsto> k')\<rparr>)"
| save: "can_save now d a \<Longrightarrow> dp_buffers_save now a d = Some (bid, d') \<Longrightarrow> buf_step d d'"
| retrieve: "dp_buffers_retrieve d bid = Some (r, d') \<Longrightarrow> buf_step d d'"
| destroy: "pkts d a = Some k \<Longrightarrow> packet_destroy now a d = Some d' \<Longrightarrow> buf_step d d'"

lemma buf_inv_map_packet:
  assumes inv: "buf_inv d"
    and k: "case pkts d a of None \<Rightarrow> pkt_buffer_id k' = NO_BUFFER
      | Some k \<Rightarrow> pkt_buffer_id k' = pkt_buffer_id k"
  shows "buf_inv (d\<lparr>pkts := (pkts d)(a \<mapsto> k')\<rparr>)"
proof -
  have "slot_ok (d\<lparr>pkts := (pkts d)(a \<mapsto> k')\<rparr>) i" if i: "i < N_PKT_BUFFERS" for i
  proof -
    have "slot_ok d i" using inv i by (simp add: buf_inv_def)
    then show ?thesis using k by (auto simp: slot_ok_def Let_def split: option.splits)
  qed
  moreover have "packet_ok (d\<lparr>pkts := (pkts d)(a \<mapsto> k')\<rparr>) b kb"
    if "((pkts d)(a \<mapsto> k')) b = Some kb" for b kb
    using that k inv by (auto simp: packet_ok_def buf_inv_def split: option.splits if_splits)
  ultimately show ?thesis using inv by (simp add: buf_inv_def)
qed

lemma buf_step_inv: "buf_step d d' \<Longrightarrow> buf_inv d \<Longrightarrow> buf_inv d'"
proof (induction rule: buf_step.induct)
  case (save now d a bid d')
  then show ?case using dp_buffers_save_ok [of d now a] by auto
next
  case (retrieve d bid r d')
  then show ?case using dp_buffers_retrieve_ok [of d bid] by auto
next
  case (destroy d a k now d')
  then show ?case using packet_destroy_ok [of d a k now] by auto
qed (auto intro!: buf_inv_map_packet)

lemma buf_steps_inv: "buf_step\<^sup>*\<^sup>* d d' \<Longrightarrow> buf_inv d \<Longrightarrow> buf_inv d'"
  by (induction rule: rtranclp_induct) (auto intro: buf_step_inv)

text \<open>While a slot is occupied and has not timed out, saving another packet leaves it alone.\<close>

lemma save_keeps_busy_slot:
  assumes inv: "buf_inv d" and can: "can_save now d b" and i: "i < N_PKT_BUFFERS"
    and busy: "pb_pkt (buffers d ! i) \<noteq> None" "now < pb_timeout (buffers d ! i)"
    and s: "dp_buffers_save now b d = Some (bid, d')"
  shows "buffers d' ! i = buffers d ! i"
proof -
  obtain k where k: "pkts d b = Some k" using can by (auto simp: can_save_def)
  let ?j = "unat ((buffer_idx d + 1) AND 0xff)"
  show ?thesis
  proof (cases "?j = i")
    case True
    then show ?thesis using s k busy
      by (auto simp: dp_buffers_save_def Let_def split: if_splits)
  next
    case False
    have keep: "buffers d2 ! i = buffers d1 ! i"
      if "save_in_slot now b d1 = Some (bid, d2)" "unat (buffer_idx d1) \<noteq> i" for d1 d2 :: dp_buffers
      using that by (auto simp: save_in_slot_def Let_def set_slot_def set_buffer_id_def split: option.splits)
    show ?thesis
      using s k False
      by (auto simp: dp_buffers_save_def Let_def set_buffer_id_def packet_destroy_def bind_eq_Some_conv
          split: if_splits option.splits dest!: keep)
  qed
qed

text \<open>A sequence of saves of other packets, with the time of each.\<close>

inductive saves :: "dp_buffers \<Rightarrow> (nat \<times> addr) list \<Rightarrow> dp_buffers \<Rightarrow> bool" where
  none: "saves d [] d"
| more: "can_save now d b \<Longrightarrow> dp_buffers_save now b d = Some (bid, d') \<Longrightarrow> saves d' ops d'' \<Longrightarrow>
    saves d ((now, b) # ops) d''"

lemma saves_keep_slot:
  "saves d ops d'' \<Longrightarrow> buf_inv d \<Longrightarrow> i < N_PKT_BUFFERS \<Longrightarrow> pb_pkt (buffers d ! i) \<noteq> None \<Longrightarrow>
     \<forall>(t, b) \<in> set ops. t < pb_timeout (buffers d ! i) \<Longrightarrow>
     buf_inv d'' \<and> buffers d'' ! i = buffers d ! i"
proof (induction rule: saves.induct)
  case (more now d b bid d' ops d'')
  have "buf_inv d'" using dp_buffers_save_ok [OF more.prems(1) more.hyps(1)] more.hyps(2) by auto
  moreover have "buffers d' ! i = buffers d ! i"
    using save_keeps_busy_slot [OF more.prems(1) more.hyps(1) more.prems(2,3) _ more.hyps(2)] more.prems(4)
    by simp
  ultimately show ?case using more.IH more.prems by simp
qed simp

section \<open>Properties\<close>


definition ex_pkt_0 :: packet where
  "ex_pkt_0 = packet_create ex_parse False 1 (ofpbuf_new (\<lambda>_. 0) 0) False"

definition ex_bufs :: dp_buffers where
  "ex_bufs = dp_buffers_create (\<lambda>a. if a < 2 then Some ex_pkt_0 else None)"

lemma ex_pkt_0_id: "pkt_buffer_id ex_pkt_0 = NO_BUFFER"
  by (simp add: ex_pkt_0_def packet_create_def)

lemma ex_bufs_inv: "buf_inv ex_bufs"
  unfolding ex_bufs_def by (rule buf_inv_create) (auto simp: ex_pkt_0_id split: if_splits)




lemma ex_save:
  "\<exists>d1 d2. dp_buffers_save 10 0 ex_bufs = Some (0, d1) \<and> dp_buffers_save 10 1 d1 = Some (1, d2) \<and>
    pb_timeout (buffers d1 ! 0) = 11 \<and> can_save 10 d1 1"
  by (simp add: dp_buffers_save_def ex_bufs_def dp_buffers_create_def Let_def save_in_slot_def
      set_slot_def set_buffer_id_def ex_pkt_0_id N_PKT_BUFFERS_def buffer_id_of_def next_cookie_def
      OVERWRITE_SECS_def can_save_def PKT_BUFFER_BITS_def)


end
