(* ===== verification/Mac_Table.thy ===== *)
theory Mac_Table
  imports Byte_Words
begin

text \<open>
  The tables of discovered and learned addresses, \<open>struct mac_to_port\<close> of
  \<^verbatim>\<open>udatapath/dp_ports.c\<close>: a singly linked list with pointers to its first and last element and
  an element count.  Nodes live in a heap; a freed node is absent.  A loop that reads a freed
  node where the value matters, or that does not end, has the value \<open>None\<close>.  The clean-up
  loops read the link of a node they have just freed when they remove the only element; what
  they read there is the parameter \<open>stale\<close>, and the results hold for every choice of it.

  Times are milliseconds.  The source computes \<open>time * 0.8\<close> in floating point and truncates
  the sum with the clock, which is \<open>4 * time div 5\<close> for the magnitudes the clock has.
\<close>

section \<open>Byte order and addresses as integers\<close>

unbundle bit_operations_syntax

definition bigtolittle16 :: "u16 \<Rightarrow> u16" where
  "bigtolittle16 num = drop_bit 8 num OR push_bit 8 num"

definition bigtolittle32 :: "u32 \<Rightarrow> u32" where
  "bigtolittle32 num =
     (drop_bit 24 num AND 0xff) OR (push_bit 8 num AND 0xff0000) OR
     (drop_bit 8 num AND 0xff00) OR (push_bit 24 num AND 0xff000000)"

definition bigtolittle64 :: "u64 \<Rightarrow> u64" where
  "bigtolittle64 num =
     (drop_bit 56 num AND 0x00000000000000FF) OR (drop_bit 40 num AND 0x000000000000FF00) OR
     (drop_bit 24 num AND 0x0000000000FF0000) OR (drop_bit 8 num AND 0x00000000FF000000) OR
     (push_bit 8 num AND 0x000000FF00000000) OR (push_bit 24 num AND 0x0000FF0000000000) OR
     (push_bit 40 num AND 0x00FF000000000000) OR (push_bit 56 num AND 0xFF00000000000000)"

text \<open>Both loops count from 5 down to 0.\<close>

definition mac2int :: "byte list \<Rightarrow> u64" where
  "mac2int hwaddr =
     snd (fold (\<lambda>i (p, ret). (drop 1 p, ret OR push_bit (8 * i) (ucast (byte_at p 0))))
       [5, 4, 3, 2, 1, 0] (hwaddr, 0))"

definition int2mac :: "u64 \<Rightarrow> byte list" where
  "int2mac mac = map (\<lambda>i. ucast (drop_bit (8 * i) mac)) [5, 4, 3, 2, 1, 0]"

section \<open>Nodes and tables\<close>

record mac_port_time =
  Mac :: "byte list"
  port_in :: u16
  valid_time_entry :: nat
  nuevo_puerto :: bool
  num_sec :: u64
  nxt :: "addr option"

record mac_to_port =
  inicio :: "addr option"
  fin :: "addr option"
  num_element :: int
  nodes :: "addr \<Rightarrow> mac_port_time option"

definition mac_to_port_new :: "mac_to_port \<Rightarrow> mac_to_port" where
  "mac_to_port_new t = t\<lparr>inicio := None, fin := None, num_element := 0\<rparr>"

definition set_node :: "addr \<Rightarrow> mac_port_time \<Rightarrow> mac_to_port \<Rightarrow> mac_to_port" where
  "set_node a n t = t\<lparr>nodes := (nodes t)(a \<mapsto> n)\<rparr>"

definition free_node :: "addr \<Rightarrow> mac_to_port \<Rightarrow> mac_to_port" where
  "free_node a t = t\<lparr>nodes := (nodes t)(a := None)\<rparr>"

definition expiry :: "nat \<Rightarrow> int \<Rightarrow> nat" where
  "expiry now time = nat (int now + (4 * time) div 5)"

text \<open>\<open>new\<close> is the address the allocation returns; it does not fail, as \<open>xmalloc\<close> aborts instead.
  \<open>actual->next = nuevo\<close> needs the last node to be live.\<close>

definition mac_to_port_add ::
    "nat \<Rightarrow> addr \<Rightarrow> mac_to_port \<Rightarrow> byte list \<Rightarrow> u16 \<Rightarrow> int \<Rightarrow> u64 \<Rightarrow> mac_to_port option" where
  "mac_to_port_add now new t mac port time sec =
    (let n = \<lparr>Mac = take 6 mac, port_in = port, valid_time_entry = expiry now time,
              nuevo_puerto = True, num_sec = sec, nxt = None\<rparr>;
         t1 = set_node new n t;
         linked = (if inicio t = None then Some (t1\<lparr>inicio := Some new\<rparr>)
                   else (case fin t of
                           None \<Rightarrow> None
                         | Some l \<Rightarrow>
                            (case nodes t1 l of
                               None \<Rightarrow> None
                             | Some nl \<Rightarrow> Some (set_node l (nl\<lparr>nxt := Some new\<rparr>) t1))))
     in map_option (\<lambda>t2. t2\<lparr>fin := Some new, num_element := num_element t2 + 1\<rparr>) linked)"

text \<open>The walk all searches share: the first node with the address.\<close>

partial_function (option) find_mac ::
    "(addr \<Rightarrow> mac_port_time option) \<Rightarrow> byte list \<Rightarrow> addr option \<Rightarrow> addr option option" where
  "find_mac h mac aux =
    (case aux of
       None \<Rightarrow> Some None
     | Some a \<Rightarrow>
        (case h a of
           None \<Rightarrow> None
         | Some n \<Rightarrow> if Mac n = mac then Some (Some a) else find_mac h mac (nxt n)))"

definition mac_to_port_check_timeout :: "nat \<Rightarrow> mac_to_port \<Rightarrow> byte list \<Rightarrow> int option" where
  "mac_to_port_check_timeout now t mac =
     map_option (\<lambda>r. case r of
         None \<Rightarrow> 2
       | Some a \<Rightarrow> if now > valid_time_entry (the (nodes t a)) then 1 else 0)
     (find_mac (nodes t) mac (inicio t))"

definition mac_to_port_update ::
    "nat \<Rightarrow> mac_to_port \<Rightarrow> byte list \<Rightarrow> u16 \<Rightarrow> int \<Rightarrow> u64 \<Rightarrow> (int \<times> mac_to_port) option" where
  "mac_to_port_update now t mac port time sec =
    (if num_element t > 0 then
       map_option (\<lambda>r. case r of
           None \<Rightarrow> (1, t)
         | Some a \<Rightarrow>
            (let n = the (nodes t a);
                 n1 = n\<lparr>nuevo_puerto := (port_in n \<noteq> port), port_in := port, num_sec := sec\<rparr>;
                 n2 = (if expiry now time \<ge> valid_time_entry n1
                       then n1\<lparr>valid_time_entry := expiry now time\<rparr> else n1)
             in (0, set_node a n2 t)))
       (find_mac (nodes t) mac (inicio t))
     else Some (1, t))"

definition mac_to_port_time_refresh ::
    "nat \<Rightarrow> mac_to_port \<Rightarrow> byte list \<Rightarrow> u64 \<Rightarrow> u64 \<Rightarrow> (int \<times> mac_to_port) option" where
  "mac_to_port_time_refresh now t mac time sec =
    (if num_element t > 0 then
       map_option (\<lambda>r. case r of
           None \<Rightarrow> (- 1, t)
         | Some a \<Rightarrow>
            (let n = the (nodes t a);
                 n1 = n\<lparr>nuevo_puerto := False, num_sec := sec\<rparr>;
                 e = expiry now (int (unat time));
                 n2 = (if e > valid_time_entry n1 then n1\<lparr>valid_time_entry := e\<rparr> else n1)
             in (0, set_node a n2 t)))
       (find_mac (nodes t) mac (inicio t))
     else Some (- 1, t))"

definition mac_to_port_found_port :: "nat \<Rightarrow> mac_to_port \<Rightarrow> byte list \<Rightarrow> u64 \<Rightarrow> int option" where
  "mac_to_port_found_port now t mac sec =
    (if num_element t > 0 then
       map_option (\<lambda>r. case r of
           None \<Rightarrow> - 1
         | Some a \<Rightarrow>
            (let n = the (nodes t a)
             in if now \<le> valid_time_entry n \<and> num_sec n = sec then int (unat (port_in n)) else 0))
       (find_mac (nodes t) mac (inicio t))
     else Some (- 1))"

text \<open>The result of \<open>mac_to_port_found_mac_position\<close> is the return value and the address copied
  out, if any.  \<open>position - 1\<close> is computed in 64 bits.\<close>

partial_function (option) position_loop ::
    "nat \<Rightarrow> (addr \<Rightarrow> mac_port_time option) \<Rightarrow> u64 \<Rightarrow> nat \<Rightarrow> addr option \<Rightarrow> (int \<times> byte list option) option" where
  "position_loop now h position pos aux =
    (case aux of
       None \<Rightarrow> Some (- 1, None)
     | Some a \<Rightarrow>
        (case h a of
           None \<Rightarrow> None
         | Some n \<Rightarrow>
            if of_nat pos = position - 1 then
              (if now \<le> valid_time_entry n then Some (int pos, Some (Mac n)) else Some (0, None))
            else position_loop now h position (Suc pos) (nxt n)))"

definition mac_to_port_found_mac_position ::
    "nat \<Rightarrow> mac_to_port \<Rightarrow> u64 \<Rightarrow> (int \<times> byte list option) option" where
  "mac_to_port_found_mac_position now t position =
    (if num_element t > 0 then position_loop now (nodes t) position 0 (inicio t) else Some (- 1, None))"

section \<open>Removal\<close>

definition next_of :: "mac_to_port \<Rightarrow> (addr \<Rightarrow> addr option) \<Rightarrow> addr \<Rightarrow> addr option" where
  "next_of t stale a = (case nodes t a of Some n \<Rightarrow> nxt n | None \<Rightarrow> stale a)"

definition set_next_of :: "addr option \<Rightarrow> addr option \<Rightarrow> mac_to_port \<Rightarrow> mac_to_port option" where
  "set_next_of p v t =
    (case p of
       None \<Rightarrow> None
     | Some a \<Rightarrow>
        (case nodes t a of None \<Rightarrow> None | Some n \<Rightarrow> Some (set_node a (n\<lparr>nxt := v\<rparr>) t)))"

text \<open>The unlinking code the three removal loops share, with the new \<open>anterior\<close> and whether the
  first element was removed; then the free and the decrement.\<close>

definition unlink :: "mac_to_port \<Rightarrow> addr option \<Rightarrow> addr \<Rightarrow> (mac_to_port \<times> addr option \<times> bool) option" where
  "unlink t anterior actual =
    (case nodes t actual of
       None \<Rightarrow> None
     | Some n \<Rightarrow>
        map_option (\<lambda>(t1, ant, ini).
            let t2 = free_node actual t1
            in ((if num_element t2 > 0 then t2\<lparr>num_element := num_element t2 - 1\<rparr> else t2), ant, ini))
         (if inicio t = Some actual \<and> fin t = Some actual then
            Some (t\<lparr>inicio := None, fin := None, num_element := 0\<rparr>, anterior, False)
          else if inicio t = Some actual then Some (t\<lparr>inicio := nxt n\<rparr>, nxt n, True)
          else if fin t = Some actual then
            map_option (\<lambda>t1. (t1\<lparr>fin := anterior\<rparr>, anterior, False)) (set_next_of anterior None t)
          else map_option (\<lambda>t1. (t1, anterior, False)) (set_next_of anterior (nxt n) t)))"

partial_function (option) delete_timeout_loop ::
    "(addr \<Rightarrow> addr option) \<Rightarrow> nat \<Rightarrow> mac_to_port \<Rightarrow> addr option \<Rightarrow> addr option \<Rightarrow> mac_to_port option" where
  "delete_timeout_loop stale now t anterior actual =
    (case actual of
       None \<Rightarrow> Some t
     | Some a \<Rightarrow>
        if num_element t \<le> 0 then Some t
        else
          (case nodes t a of
             None \<Rightarrow> None
           | Some n \<Rightarrow>
              (case (if now \<ge> valid_time_entry n then unlink t anterior a else Some (t, actual, False)) of
                 None \<Rightarrow> None
               | Some (t1, ant, ini) \<Rightarrow>
                  delete_timeout_loop stale now t1 ant
                    (case ant of None \<Rightarrow> None | Some b \<Rightarrow> if ini then inicio t1 else next_of t1 stale b))))"

definition mac_to_port_delete_timeout ::
    "(addr \<Rightarrow> addr option) \<Rightarrow> nat \<Rightarrow> mac_to_port \<Rightarrow> mac_to_port option" where
  "mac_to_port_delete_timeout stale now t = delete_timeout_loop stale now t (inicio t) (inicio t)"

partial_function (option) delete_ehddp_loop ::
    "(addr \<Rightarrow> addr option) \<Rightarrow> bool \<Rightarrow> mac_to_port \<Rightarrow> addr option \<Rightarrow> addr option \<Rightarrow> mac_to_port option" where
  "delete_ehddp_loop stale limpiar t anterior actual =
    (case actual of
       None \<Rightarrow> Some t
     | Some a \<Rightarrow>
        if num_element t \<le> 0 then Some t
        else
          (case (if limpiar then unlink t anterior a
                 else (case anterior of
                         None \<Rightarrow> None
                       | Some b \<Rightarrow> Some (t, next_of t stale b, False))) of
             None \<Rightarrow> None
           | Some (t1, ant, ini) \<Rightarrow>
              delete_ehddp_loop stale limpiar t1 ant
                (case ant of None \<Rightarrow> None | Some b \<Rightarrow> if ini then ant else next_of t1 stale b)))"

definition mac_to_port_delete_timeout_ehddp ::
    "(addr \<Rightarrow> addr option) \<Rightarrow> nat \<Rightarrow> mac_to_port \<Rightarrow> mac_to_port option" where
  "mac_to_port_delete_timeout_ehddp stale now t =
    (if num_element t > 0 then
       (case inicio t of
          None \<Rightarrow> None
        | Some a \<Rightarrow>
           (case nodes t a of
              None \<Rightarrow> None
            | Some n \<Rightarrow>
               delete_ehddp_loop stale (now > valid_time_entry n) t (inicio t) (inicio t)))
     else delete_ehddp_loop stale False t (inicio t) (inicio t))"

partial_function (option) delete_position_loop ::
    "(addr \<Rightarrow> addr option) \<Rightarrow> int \<Rightarrow> int \<Rightarrow> mac_to_port \<Rightarrow> addr option \<Rightarrow> addr option \<Rightarrow> mac_to_port option" where
  "delete_position_loop stale position pos_act t anterior actual =
    (case actual of
       None \<Rightarrow> Some t
     | Some a \<Rightarrow>
        if num_element t \<le> 0 then Some t
        else
          (case (if pos_act = position then map_option (\<lambda>(t1, ant, _). (t1, ant, pos_act)) (unlink t anterior a)
                 else (case anterior of
                         None \<Rightarrow> None
                       | Some b \<Rightarrow> Some (t, next_of t stale b, pos_act + 1))) of
             None \<Rightarrow> None
           | Some (t1, ant, pos1) \<Rightarrow>
              delete_position_loop stale position pos1 t1 ant
                (case ant of None \<Rightarrow> None | Some b \<Rightarrow> next_of t1 stale b)))"

definition mac_to_port_delete_position ::
    "(addr \<Rightarrow> addr option) \<Rightarrow> mac_to_port \<Rightarrow> int \<Rightarrow> mac_to_port option" where
  "mac_to_port_delete_position stale t position =
     delete_position_loop stale position 1 t (inicio t) (inicio t)"


section \<open>The list a table represents\<close>

fun seg :: "(addr \<Rightarrow> mac_port_time option) \<Rightarrow> addr option \<Rightarrow> addr list \<Rightarrow> addr option \<Rightarrow> bool" where
  "seg h p [] q \<longleftrightarrow> p = q"
| "seg h p (a # as) q \<longleftrightarrow> p = Some a \<and> (\<exists>n. h a = Some n \<and> seg h (nxt n) as q)"

definition mac_ok :: "mac_to_port \<Rightarrow> addr list \<Rightarrow> bool" where
  "mac_ok t as \<longleftrightarrow> seg (nodes t) (inicio t) as None \<and> distinct as \<and>
     fin t = (if as = [] then None else Some (last as)) \<and> num_element t = int (length as)"

definition entry :: "mac_to_port \<Rightarrow> addr \<Rightarrow> mac_port_time" where
  "entry t a = (the (nodes t a))\<lparr>nxt := None\<rparr>"

definition entries :: "mac_to_port \<Rightarrow> addr list \<Rightarrow> mac_port_time list" where
  "entries t as = map (entry t) as"

lemma seg_append: "seg h p (as @ bs) q \<longleftrightarrow> (\<exists>r. seg h p as r \<and> seg h r bs q)"
  by (induction as arbitrary: p) auto

lemma seg_live: "seg h p as q \<Longrightarrow> a \<in> set as \<Longrightarrow> h a \<noteq> None"
  by (induction as arbitrary: p) auto

lemma seg_cong: "(\<And>a. a \<in> set as \<Longrightarrow> h' a = h a) \<Longrightarrow> seg h' p as q = seg h p as q"
  by (induction as arbitrary: p) auto

lemma seg_hd: "seg h p as q \<Longrightarrow> as \<noteq> [] \<Longrightarrow> p = Some (hd as)"
  by (cases as) auto

lemma seg_payload:
  assumes "\<And>a. a \<in> set as \<Longrightarrow> map_option nxt (h' a) = map_option nxt (h a)"
  shows "seg h' p as q = seg h p as q"
  using assms
proof (induction as arbitrary: p)
  case (Cons a as)
  then have "map_option nxt (h' a) = map_option nxt (h a)" "\<And>p. seg h' p as q = seg h p as q" by auto
  then show ?case by (cases "h a"; cases "h' a") auto
qed simp

text \<open>Redirecting the link of the last node of a segment.\<close>

lemma seg_redirect:
  assumes "seg h p (as @ [a]) q" "distinct (as @ [a])" "h a = Some n"
  shows "seg (h(a \<mapsto> n\<lparr>nxt := r\<rparr>)) p (as @ [a]) r"
proof -
  have "seg h p as (Some a)" using assms(1) by (auto simp: seg_append)
  then have "seg (h(a \<mapsto> n\<lparr>nxt := r\<rparr>)) p as (Some a)"
    using assms(2) by (subst seg_cong) auto
  then show ?thesis by (auto simp: seg_append)
qed

lemma find_mac_seg:
  "seg h p as None \<Longrightarrow> find_mac h mac p = Some (List.find (\<lambda>a. Mac (the (h a)) = mac) as)"
proof (induction as arbitrary: p)
  case Nil
  then show ?case by (simp add: find_mac.simps)
next
  case (Cons a as)
  then show ?case by (auto simp: find_mac.simps [of h mac "Some a"])
qed

lemma mac_ok_new: "mac_ok (mac_to_port_new t) []"
  by (simp add: mac_ok_def mac_to_port_new_def)

lemma mac_ok_add:
  assumes ok: "mac_ok t as" and new: "new \<notin> set as"
  shows "\<exists>t'. mac_to_port_add now new t mac port time sec = Some t' \<and> mac_ok t' (as @ [new]) \<and>
    entries t' (as @ [new]) = entries t as @
      [\<lparr>Mac = take 6 mac, port_in = port, valid_time_entry = expiry now time,
        nuevo_puerto = True, num_sec = sec, nxt = None\<rparr>]"
proof (cases as rule: rev_cases)
  case Nil
  then show ?thesis using ok
    by (simp add: mac_to_port_add_def Let_def mac_ok_def set_node_def entries_def entry_def)
next
  case (snoc bs l)
  have sg: "seg (nodes t) (inicio t) (bs @ [l]) None" and d: "distinct (bs @ [l])"
    and f: "fin t = Some l" and m: "num_element t = int (length (bs @ [l]))"
    using ok snoc by (auto simp: mac_ok_def)
  have ini: "inicio t = Some (hd (bs @ [l]))" using seg_hd [OF sg] by simp
  obtain nl where nl: "nodes t l = Some nl" using seg_live [OF sg, of l] by auto
  have ln: "l \<noteq> new" using new snoc by auto
  let ?n = "\<lparr>Mac = take 6 mac, port_in = port, valid_time_entry = expiry now time,
        nuevo_puerto = True, num_sec = sec, nxt = None\<rparr>"
  let ?h = "(nodes t)(new \<mapsto> ?n, l \<mapsto> nl\<lparr>nxt := Some new\<rparr>)"
  have "seg ((nodes t)(l \<mapsto> nl\<lparr>nxt := Some new\<rparr>)) (inicio t) (bs @ [l]) (Some new)"
    by (rule seg_redirect [OF sg d nl])
  then have "seg ?h (inicio t) (bs @ [l]) (Some new)"
    by (subst seg_cong [where h = "(nodes t)(l \<mapsto> nl\<lparr>nxt := Some new\<rparr>)"]) (use new snoc in auto)
  then have "seg ?h (inicio t) ((bs @ [l]) @ [new]) None"
    unfolding seg_append [of _ _ "bs @ [l]"] using ln by auto
  moreover have "map (\<lambda>a. (the (?h a))\<lparr>nxt := None\<rparr>) bs = map (\<lambda>a. (the (nodes t a))\<lparr>nxt := None\<rparr>) bs"
    using d new snoc by auto
  ultimately show ?thesis
    using ini f nl m d new ln snoc
    by (simp add: mac_to_port_add_def Let_def mac_ok_def set_node_def entries_def entry_def)
qed


lemma mac_okD:
  assumes "mac_ok t (ks @ a # rs)"
  shows "inicio t = Some a \<longleftrightarrow> ks = []" and "fin t = Some a \<longleftrightarrow> rs = []"
    and "num_element t = 1 + int (length ks + length rs)"
    and "\<exists>n. nodes t a = Some n \<and> seg (nodes t) (nxt n) rs None \<and> seg (nodes t) (inicio t) ks (Some a)"
proof -
  have sg: "seg (nodes t) (inicio t) (ks @ a # rs) None" and d: "distinct (ks @ a # rs)"
    using assms by (auto simp: mac_ok_def)
  show "inicio t = Some a \<longleftrightarrow> ks = []" using seg_hd [OF sg] d by (cases ks) auto
  show "fin t = Some a \<longleftrightarrow> rs = []"
    using assms d by (cases rs rule: rev_cases) (auto simp: mac_ok_def)
  show "num_element t = 1 + int (length ks + length rs)" using assms by (simp add: mac_ok_def)
  show "\<exists>n. nodes t a = Some n \<and> seg (nodes t) (nxt n) rs None \<and> seg (nodes t) (inicio t) ks (Some a)"
    using sg by (auto simp: seg_append)
qed

lemma unlink_ok:
  assumes ok: "mac_ok t (ks @ a # rs)" and ant: "ks \<noteq> [] \<Longrightarrow> anterior = Some (last ks)"
  shows "\<exists>t1. unlink t anterior a =
      Some (t1, (if ks = [] \<and> rs \<noteq> [] then Some (hd rs) else anterior), ks = [] \<and> rs \<noteq> []) \<and>
    mac_ok t1 (ks @ rs) \<and> (\<forall>b \<in> set (ks @ rs). entry t1 b = entry t b)"
proof -
  obtain n where n: "nodes t a = Some n" "seg (nodes t) (nxt n) rs None"
    "seg (nodes t) (inicio t) ks (Some a)" using mac_okD(4) [OF ok] by auto
  have d: "distinct (ks @ a # rs)" using ok by (simp add: mac_ok_def)
  note D = mac_okD(1-3) [OF ok]
  show ?thesis
  proof (cases ks rule: rev_cases)
    case Nil
    show ?thesis
    proof (cases rs)
      case Nil
      with \<open>ks = []\<close> D n show ?thesis
        by (simp add: unlink_def free_node_def mac_ok_def)
    next
      case (Cons r rs')
      have "seg ((nodes t)(a := None)) (nxt n) rs None" using n(2) d by (subst seg_cong) auto
      moreover have "nxt n = Some r" using n(2) Cons by simp
      moreover have "fin t = Some (last rs)" using ok Cons \<open>ks = []\<close> by (simp add: mac_ok_def)
      ultimately show ?thesis
        using D n(1) d Cons \<open>ks = []\<close> by (auto simp: unlink_def free_node_def mac_ok_def entry_def)
    qed
  next
    case (snoc bs l)
    then have an: "anterior = Some l" using ant by simp
    have sl: "seg (nodes t) (inicio t) (bs @ [l]) (Some a)" using n(3) snoc by simp
    obtain nl where nl: "nodes t l = Some nl" using seg_live [OF sl, of l] by auto
    have ini: "inicio t \<noteq> Some a" using D(1) snoc by simp
    let ?h = "\<lambda>v. ((nodes t)(l \<mapsto> nl\<lparr>nxt := v\<rparr>))(a := None)"
    have sk: "seg (?h v) (inicio t) (bs @ [l]) v" for v
    proof -
      have "seg ((nodes t)(l \<mapsto> nl\<lparr>nxt := v\<rparr>)) (inicio t) (bs @ [l]) v"
        using seg_redirect [OF sl _ nl] d snoc by simp
      then show ?thesis using d snoc
        by (subst seg_cong [where h = "(nodes t)(l \<mapsto> nl\<lparr>nxt := v\<rparr>)"]) auto
    qed
    have sr: "seg (?h v) (nxt n) rs None" for v using n(2) d snoc by (subst seg_cong) auto
    have sg: "seg (?h (nxt n)) (inicio t) (ks @ rs) None"
      using sk [of "nxt n"] sr [of "nxt n"] snoc unfolding seg_append [of _ _ ks] by auto
    have pay: "\<forall>b \<in> set (ks @ rs). (the (?h v b))\<lparr>nxt := None\<rparr> = (the (nodes t b))\<lparr>nxt := None\<rparr>" for v
      using d nl snoc by auto
    show ?thesis
    proof (cases "rs = []")
      case True
      then have "nxt n = None" using n(2) by simp
      with True sg pay [of None] D n(1) nl an ini d snoc show ?thesis
        by (simp add: unlink_def set_next_of_def set_node_def free_node_def mac_ok_def entry_def)
    next
      case False
      then have "fin t = Some (last rs)" using ok snoc by (simp add: mac_ok_def)
      with False sg pay [of "nxt n"] D n(1) nl an ini d snoc show ?thesis
        by (simp add: unlink_def set_next_of_def set_node_def free_node_def mac_ok_def entry_def)
    qed
  qed
qed

text \<open>The clean-up loop, from a position where the nodes before it are to stay.\<close>

lemma delete_timeout_loop_ok:
  assumes "mac_ok t (ks @ rs)" and "ks \<noteq> [] \<Longrightarrow> anterior = Some (last ks)"
  shows "\<exists>t'. delete_timeout_loop stale now t anterior (if rs = [] then None else Some (hd rs)) = Some t' \<and>
    mac_ok t' (ks @ filter (\<lambda>a. now < valid_time_entry (entry t a)) rs) \<and>
    (\<forall>b \<in> set (ks @ filter (\<lambda>a. now < valid_time_entry (entry t a)) rs). entry t' b = entry t b)"
  using assms
proof (induction rs arbitrary: t ks anterior)
  case Nil
  then show ?case by (simp add: delete_timeout_loop.simps)
next
  case (Cons a rs)
  obtain n where n: "nodes t a = Some n" "seg (nodes t) (nxt n) rs None" "num_element t > 0"
    using mac_okD(3,4) [OF Cons.prems(1)] by auto
  have v: "valid_time_entry n = valid_time_entry (entry t a)" using n(1) by (simp add: entry_def)
  have nx: "nxt n = (if rs = [] then None else Some (hd rs))" using n(2) seg_hd [OF n(2)] by auto
  show ?case
  proof (cases "now < valid_time_entry n")
    case True
    have "mac_ok t ((ks @ [a]) @ rs)" using Cons.prems(1) by simp
    from Cons.IH [OF this, of "Some a"] n True v nx show ?thesis
      by (simp add: delete_timeout_loop.simps [of stale now t anterior "Some a"] next_of_def)
  next
    case False
    obtain t1 where t1: "unlink t anterior a =
        Some (t1, (if ks = [] \<and> rs \<noteq> [] then Some (hd rs) else anterior), ks = [] \<and> rs \<noteq> [])"
      "mac_ok t1 (ks @ rs)" "\<forall>b \<in> set (ks @ rs). entry t1 b = entry t b"
      using unlink_ok [OF Cons.prems] by blast
    have flt: "filter (\<lambda>b. now < valid_time_entry (entry t1 b)) rs =
        filter (\<lambda>b. now < valid_time_entry (entry t b)) rs"
      using t1(3) by (intro filter_cong) auto
    let ?ant = "if ks = [] \<and> rs \<noteq> [] then Some (hd rs) else anterior"
    let ?act = "case ?ant of None \<Rightarrow> None
      | Some b \<Rightarrow> if ks = [] \<and> rs \<noteq> [] then inicio t1 else next_of t1 stale b"
    have step: "delete_timeout_loop stale now t anterior (Some a) = delete_timeout_loop stale now t1 ?ant ?act"
      using n False t1(1) by (subst delete_timeout_loop.simps) simp
    show ?thesis
    proof (cases "ks = [] \<and> rs = []")
      case True
      then have "num_element t1 = 0" using t1(2) by (simp add: mac_ok_def)
      then have "delete_timeout_loop stale now t1 ?ant ?act = Some t1"
        by (subst delete_timeout_loop.simps) (auto split: option.splits)
      with step True t1 False v show ?thesis by simp
    next
      case ne: False
      have act: "?act = (if rs = [] then None else Some (hd rs))"
      proof (cases "ks = []")
        case True
        then show ?thesis using ne t1(2) seg_hd [of "nodes t1" "inicio t1" rs None]
          by (simp add: mac_ok_def)
      next
        case ks: False
        then obtain bs l where l: "ks = bs @ [l]" by (meson rev_exhaust)
        have "mac_ok t1 (bs @ l # rs)" using t1(2) l by simp
        from mac_okD(4) [OF this] obtain nl where nl: "nodes t1 l = Some nl" "seg (nodes t1) (nxt nl) rs None"
          by auto
        with seg_hd [OF nl(2)] Cons.prems(2) [OF ks] l ks show ?thesis
          by (auto simp: next_of_def)
      qed
      have "ks \<noteq> [] \<Longrightarrow> ?ant = Some (last ks)" using Cons.prems(2) by simp
      from Cons.IH [OF t1(2) this, unfolded act [symmetric]] step flt t1(3) False v show ?thesis
        by auto
    qed
  qed
qed

lemma delete_timeout_ok:
  assumes "mac_ok t as"
  shows "\<exists>t'. mac_to_port_delete_timeout stale now t = Some t' \<and>
    mac_ok t' (filter (\<lambda>a. now < valid_time_entry (entry t a)) as) \<and>
    entries t' (filter (\<lambda>a. now < valid_time_entry (entry t a)) as) =
      filter (\<lambda>e. now < valid_time_entry e) (entries t as)"
proof -
  have ini: "inicio t = (if as = [] then None else Some (hd as))"
    using assms seg_hd [of "nodes t" "inicio t" as None] by (auto simp: mac_ok_def)
  from delete_timeout_loop_ok [of t "[]" as "inicio t" stale now] assms ini
  obtain t' where "mac_to_port_delete_timeout stale now t = Some t'"
    "mac_ok t' (filter (\<lambda>a. now < valid_time_entry (entry t a)) as)"
    "\<forall>b \<in> set (filter (\<lambda>a. now < valid_time_entry (entry t a)) as). entry t' b = entry t b"
    by (auto simp: mac_to_port_delete_timeout_def)
  moreover have "map (entry t) (filter (\<lambda>a. now < valid_time_entry (entry t a)) as) =
      filter (\<lambda>e. now < valid_time_entry e) (map (entry t) as)"
    by (simp add: filter_map comp_def)
  moreover have "map (entry t') (filter (\<lambda>a. now < valid_time_entry (entry t a)) as) =
      map (entry t) (filter (\<lambda>a. now < valid_time_entry (entry t a)) as)"
    using calculation(3) by (intro map_cong) simp_all
  ultimately show ?thesis unfolding entries_def by auto
qed


text \<open>The discovery clean-up removes everything or nothing, by the first entry.\<close>

lemma delete_ehddp_all:
  assumes "mac_ok t as"
  shows "\<exists>t'. delete_ehddp_loop stale True t anterior (if as = [] then None else Some (hd as)) = Some t' \<and>
    mac_ok t' []"
  using assms
proof (induction as arbitrary: t anterior)
  case Nil
  then show ?case by (simp add: delete_ehddp_loop.simps)
next
  case (Cons a as)
  have "num_element t > 0" using Cons.prems by (simp add: mac_ok_def)
  moreover obtain t1 where t1: "unlink t anterior a =
        Some (t1, (if as \<noteq> [] then Some (hd as) else anterior), as \<noteq> [])" "mac_ok t1 as"
    using unlink_ok [of t "[]" a as anterior] Cons.prems by auto
  ultimately have step: "delete_ehddp_loop stale True t anterior (Some a) =
      delete_ehddp_loop stale True t1 (if as \<noteq> [] then Some (hd as) else anterior)
        (case (if as \<noteq> [] then Some (hd as) else anterior) of None \<Rightarrow> None
         | Some b \<Rightarrow> if as \<noteq> [] then (if as \<noteq> [] then Some (hd as) else anterior) else next_of t1 stale b)"
    by (subst delete_ehddp_loop.simps) simp
  show ?case
  proof (cases "as = []")
    case True
    then have "num_element t1 = 0" using t1(2) by (simp add: mac_ok_def)
    then have "delete_ehddp_loop stale True t1 anterior c = Some t1" for c
      by (subst delete_ehddp_loop.simps) (auto split: option.splits)
    with step True t1(2) show ?thesis by simp
  next
    case False
    with Cons.IH [OF t1(2), of "Some (hd as)"] step show ?thesis by simp
  qed
qed

lemma delete_ehddp_none:
  assumes "mac_ok t (ks @ a # rs)"
  shows "delete_ehddp_loop stale False t (Some a) (case rs of [] \<Rightarrow> None | r # _ \<Rightarrow> Some r) = Some t"
  using assms
proof (induction rs arbitrary: ks a)
  case Nil
  then show ?case by (simp add: delete_ehddp_loop.simps)
next
  case (Cons r rs)
  obtain n where n: "nodes t a = Some n" "seg (nodes t) (nxt n) (r # rs) None"
    using mac_okD(4) [OF Cons.prems] by blast
  then obtain nr where nr: "nodes t r = Some nr" "nxt n = Some r" "seg (nodes t) (nxt nr) rs None" by auto
  have "nxt nr = (case rs of [] \<Rightarrow> None | r' # _ \<Rightarrow> Some r')" using nr(3) by (cases rs) auto
  moreover have "num_element t > 0" using mac_okD(3) [OF Cons.prems] by simp
  moreover have "delete_ehddp_loop stale False t (Some r) (case rs of [] \<Rightarrow> None | r' # _ \<Rightarrow> Some r') = Some t"
    using Cons.IH [of "ks @ [a]" r] Cons.prems by simp
  ultimately show ?case
    using n nr by (subst delete_ehddp_loop.simps) (simp add: next_of_def)
qed

lemma delete_ehddp_ok:
  assumes ok: "mac_ok t as"
  shows "\<exists>t'. mac_to_port_delete_timeout_ehddp stale now t = Some t' \<and>
    (if as \<noteq> [] \<and> valid_time_entry (entry t (hd as)) < now then mac_ok t' [] else t' = t)"
proof (cases as)
  case Nil
  then show ?thesis using ok
    by (simp add: mac_to_port_delete_timeout_ehddp_def mac_ok_def delete_ehddp_loop.simps)
next
  case (Cons a rs)
  obtain n where n: "nodes t a = Some n" "seg (nodes t) (nxt n) rs None"
    using mac_okD(4) [of t "[]" a rs] ok Cons by auto
  have ini: "inicio t = Some a" "num_element t > 0"
    using mac_okD(1,3) [of t "[]" a rs] ok Cons by auto
  show ?thesis
  proof (cases "valid_time_entry n < now")
    case True
    then show ?thesis
      using delete_ehddp_all [OF ok, of stale "Some a"] n ini Cons
      by (simp add: mac_to_port_delete_timeout_ehddp_def entry_def)
  next
    case False
    have nx: "nxt n = (case rs of [] \<Rightarrow> None | r # _ \<Rightarrow> Some r)" using n(2) by (cases rs) auto
    have "delete_ehddp_loop stale False t (Some a) (Some a) = Some t"
    proof (cases rs)
      case Nil
      then show ?thesis using n ini
        by (subst delete_ehddp_loop.simps) (simp add: next_of_def delete_ehddp_loop.simps)
    next
      case rs: (Cons r rs')
      have "mac_ok t ([a] @ r # rs')" using ok Cons rs by simp
      from delete_ehddp_none [OF this] n ini rs nx obtain nr where "nodes t r = Some nr"
        "nxt nr = (case rs' of [] \<Rightarrow> None | r # _ \<Rightarrow> Some r)"
        using mac_okD(4) [OF \<open>mac_ok t ([a] @ r # rs')\<close>] by (cases rs') auto
      with delete_ehddp_none [OF \<open>mac_ok t ([a] @ r # rs')\<close>] n ini rs nx show ?thesis
        by (subst delete_ehddp_loop.simps) (simp add: next_of_def)
    qed
    then show ?thesis using False n ini Cons
      by (simp add: mac_to_port_delete_timeout_ehddp_def entry_def)
  qed
qed

section \<open>Searches and updates\<close>

lemma find_entry: "List.find (\<lambda>a. Mac (the (nodes t a)) = mac) as = List.find (\<lambda>a. Mac (entry t a) = mac) as"
  by (simp add: entry_def)

lemma found_port_ok:
  assumes "mac_ok t as"
  shows "mac_to_port_found_port now t mac sec = Some
    (case List.find (\<lambda>e. Mac e = mac) (entries t as) of
       None \<Rightarrow> - 1
     | Some e \<Rightarrow> if now \<le> valid_time_entry e \<and> num_sec e = sec then int (unat (port_in e)) else 0)"
proof -
  have sg: "seg (nodes t) (inicio t) as None" and n: "num_element t = int (length as)"
    using assms by (auto simp: mac_ok_def)
  have f: "List.find (\<lambda>e. Mac e = mac) (map (entry t) as) =
      map_option (entry t) (List.find (\<lambda>a. Mac (the (nodes t a)) = mac) as)"
    by (induction as) (auto simp: entry_def)
  show ?thesis
    unfolding mac_to_port_found_port_def find_mac_seg [OF sg] entries_def f using n
    by (cases as) (auto simp: entry_def Let_def split: option.splits)
qed


text \<open>Writing the payload of one node.\<close>

lemma mac_ok_set_node:
  assumes ok: "mac_ok t as" and a: "a \<in> set as" "nodes t a = Some n" and n': "nxt n' = nxt n"
  shows "mac_ok (set_node a n' t) as"
    and "entry (set_node a n' t) b = (if b = a then n'\<lparr>nxt := None\<rparr> else entry t b)"
proof -
  have "seg ((nodes t)(a \<mapsto> n')) (inicio t) as None = seg (nodes t) (inicio t) as None"
    by (rule seg_payload) (use a n' in auto)
  then show "mac_ok (set_node a n' t) as" using ok by (simp add: mac_ok_def set_node_def)
  show "entry (set_node a n' t) b = (if b = a then n'\<lparr>nxt := None\<rparr> else entry t b)"
    by (simp add: entry_def set_node_def)
qed

lemma find_changed_payload:
  assumes "List.find (\<lambda>a. f a = m) as = Some x" "f' x = m" "\<And>b. b \<noteq> x \<Longrightarrow> f' b = f b"
  shows "List.find (\<lambda>a. f' a = m) as = Some x"
    and "m' \<noteq> m \<Longrightarrow> List.find (\<lambda>a. f' a = m') as = List.find (\<lambda>a. f a = m') as"
proof -
  have x: "f x = m" using assms(1) by (auto simp: find_Some_iff)
  have "f' b = f b" for b using assms(2,3) x by (cases "b = x") auto
  then show "List.find (\<lambda>a. f' a = m) as = Some x"
    "m' \<noteq> m \<Longrightarrow> List.find (\<lambda>a. f' a = m') as = List.find (\<lambda>a. f a = m') as"
    using assms(1) by simp_all
qed

lemma find_entries:
  "List.find (\<lambda>e. Mac e = mac) (entries t as) =
     map_option (entry t) (List.find (\<lambda>a. Mac (entry t a) = mac) as)"
  unfolding entries_def by (induction as) auto

lemma update_ok:
  assumes ok: "mac_ok t as" and f: "List.find (\<lambda>a. Mac (entry t a) = mac) as = Some a"
  defines "n \<equiv> entry t a"
  shows "\<exists>t'. mac_to_port_update now t mac port time sec = Some (0, t') \<and> mac_ok t' as \<and>
    (\<forall>b. b \<noteq> a \<longrightarrow> entry t' b = entry t b) \<and>
    entry t' a = n\<lparr>nuevo_puerto := (port_in n \<noteq> port), port_in := port, num_sec := sec,
      valid_time_entry := max (valid_time_entry n) (expiry now time)\<rparr>"
proof -
  have sg: "seg (nodes t) (inicio t) as None" and num: "num_element t = int (length as)"
    using ok by (auto simp: mac_ok_def)
  have a: "a \<in> set as" using f by (auto simp: find_Some_iff)
  then have "as \<noteq> []" by auto
  obtain k where k: "nodes t a = Some k" using seg_live [OF sg a] by auto
  have fm: "find_mac (nodes t) mac (inicio t) = Some (Some a)"
    using find_mac_seg [OF sg, of mac] f by (simp add: find_entry)
  define k1 where "k1 = k\<lparr>nuevo_puerto := (port_in k \<noteq> port), port_in := port, num_sec := sec\<rparr>"
  define k2 where "k2 = (if expiry now time \<ge> valid_time_entry k1
    then k1\<lparr>valid_time_entry := expiry now time\<rparr> else k1)"
  have "nxt k2 = nxt k" by (simp add: k2_def k1_def)
  note upd = mac_ok_set_node [OF ok a k this]
  have "k2\<lparr>nxt := None\<rparr> = n\<lparr>nuevo_puerto := (port_in n \<noteq> port), port_in := port, num_sec := sec,
      valid_time_entry := max (valid_time_entry n) (expiry now time)\<rparr>"
    using k by (simp add: n_def entry_def k2_def k1_def max_def)
  moreover have "mac_to_port_update now t mac port time sec = Some (0, set_node a k2 t)"
    using num \<open>as \<noteq> []\<close> fm k by (simp add: mac_to_port_update_def Let_def k2_def k1_def)
  ultimately show ?thesis using upd by (intro exI [of _ "set_node a k2 t"]) simp
qed

lemma found_port_of_find:
  assumes "mac_ok t as"
  shows "mac_to_port_found_port now t mac sec = Some
    (case List.find (\<lambda>a. Mac (entry t a) = mac) as of
       None \<Rightarrow> - 1
     | Some a \<Rightarrow> if now \<le> valid_time_entry (entry t a) \<and> num_sec (entry t a) = sec
               then int (unat (port_in (entry t a))) else 0)"
  unfolding found_port_ok [OF assms] find_entries
  by (cases "List.find (\<lambda>a. Mac (entry t a) = mac) as") simp_all

section \<open>Byte order conversions\<close>

lemma byte_masks32: "(0xff :: u32) = mask 8" "(0xff00 :: u32) = push_bit 8 (mask 8)"
  "(0xff0000 :: u32) = push_bit 16 (mask 8)" "(0xff000000 :: u32) = push_bit 24 (mask 8)"
  by (simp_all add: mask_eq_exp_minus_1 push_bit_eq_mult)

lemma byte_masks64:
  "(0xff :: u64) = mask 8" "(0xff00 :: u64) = push_bit 8 (mask 8)"
  "(0xff0000 :: u64) = push_bit 16 (mask 8)" "(0xff000000 :: u64) = push_bit 24 (mask 8)"
  "(0xff00000000 :: u64) = push_bit 32 (mask 8)" "(0xff0000000000 :: u64) = push_bit 40 (mask 8)"
  "(0xff000000000000 :: u64) = push_bit 48 (mask 8)"
  "(0xff00000000000000 :: u64) = push_bit 56 (mask 8)"
  by (simp_all add: mask_eq_exp_minus_1 push_bit_eq_mult)

lemma list6: "length m = 6 \<Longrightarrow> \<exists>a b c d e f. m = [a, b, c, d, e, f]"
  by (auto simp: length_Suc_conv eval_nat_numeral)

lemma mac2int_eq:
  "mac2int [a, b, c, d, e, f] = push_bit 40 (ucast a) OR push_bit 32 (ucast b) OR
     push_bit 24 (ucast c) OR push_bit 16 (ucast d) OR push_bit 8 (ucast e) OR ucast f"
  by (simp add: mac2int_def or.assoc)

lemma int2mac_mac2int:
  assumes "length m = 6"
  shows "int2mac (mac2int m) = m"
proof -
  obtain a b c d e f where m: "m = [a, b, c, d, e, f]" using list6 [OF assms] by blast
  show ?thesis
    unfolding m mac2int_eq int2mac_def
    by (simp, intro conjI; rule bit_word_eqI; auto simp: bit_simps dest: bit_imp_le_length)
qed

section \<open>Properties\<close>


definition ex_table :: mac_to_port where
  "ex_table = mac_to_port_new \<lparr>inicio = None, fin = None, num_element = 0, nodes = (\<lambda>a. None)\<rparr>"


text \<open>C18. The periodic clean-up ends, leaves a well-formed list, and keeps exactly the entries that
  have not expired, in their order, whatever the freed memory reads as.\<close>

theorem mac_table_delete_timeout:
  assumes "mac_ok t as"
  shows "\<exists>t' bs. mac_to_port_delete_timeout stale now t = Some t' \<and> mac_ok t' bs \<and>
    entries t' bs = filter (\<lambda>e. now < valid_time_entry e) (entries t as)"
  using delete_timeout_ok [OF assms] by blast

theorem mac_table_delete_timeout_witness:
  "\<exists>t1 t2 t3 bs. mac_to_port_add 1000 7 ex_table [0, 1, 2, 3, 4, 5] 3 100 9 = Some t1 \<and>
     mac_to_port_add 1050 8 t1 [9, 9, 9, 9, 9, 9] 4 100 9 = Some t2 \<and>
     mac_to_port_delete_timeout (\<lambda>a. None) 1100 t2 = Some t3 \<and> mac_ok t3 bs \<and>
     map port_in (entries t3 bs) = [4]"
proof -
  have "mac_ok ex_table []" by (simp add: ex_table_def mac_ok_new)
  from mac_ok_add [OF this, of 7 1000 "[0, 1, 2, 3, 4, 5]" 3 100 9] obtain t1 where
    t1: "mac_to_port_add 1000 7 ex_table [0, 1, 2, 3, 4, 5] 3 100 9 = Some t1" "mac_ok t1 [7]"
    "entries t1 [7] = [\<lparr>Mac = [0, 1, 2, 3, 4, 5], port_in = 3, valid_time_entry = 1080,
       nuevo_puerto = True, num_sec = 9, nxt = None\<rparr>]"
    by (auto simp: expiry_def entries_def)
  from mac_ok_add [OF t1(2), of 8 1050 "[9, 9, 9, 9, 9, 9]" 4 100 9] t1(3) obtain t2 where
    t2: "mac_to_port_add 1050 8 t1 [9, 9, 9, 9, 9, 9] 4 100 9 = Some t2" "mac_ok t2 [7, 8]"
    "map valid_time_entry (entries t2 [7, 8]) = [1080, 1130]" "map port_in (entries t2 [7, 8]) = [3, 4]"
    by (auto simp: expiry_def)
  from mac_table_delete_timeout [OF t2(2), of "\<lambda>a. None" 1100] obtain t3 bs where
    "mac_to_port_delete_timeout (\<lambda>a. None) 1100 t2 = Some t3" "mac_ok t3 bs"
    "entries t3 bs = filter (\<lambda>e. 1100 < valid_time_entry e) (entries t2 [7, 8])" by blast
  with t1 t2 show ?thesis by (auto simp: entries_def)
qed

text \<open>C23. The discovery clean-up removes the whole table when the entry of the controller, the
  first one, has expired, and changes nothing otherwise.\<close>

theorem mac_table_delete_ehddp_all_or_nothing:
  assumes "mac_ok t as"
  shows "\<exists>t'. mac_to_port_delete_timeout_ehddp stale now t = Some t' \<and>
    (if as \<noteq> [] \<and> valid_time_entry (hd (entries t as)) < now then mac_ok t' [] else t' = t)"
  using delete_ehddp_ok [OF assms, of stale now] by (cases as) (auto simp: entries_def)

theorem mac_table_delete_ehddp_all_or_nothing_witness:
  "\<exists>t1 t2. mac_to_port_add 1000 7 ex_table [0, 1, 2, 3, 4, 5] 3 100 9 = Some t1 \<and>
     mac_to_port_delete_timeout_ehddp (\<lambda>a. None) 1081 t1 = Some t2 \<and> mac_ok t2 []"
proof -
  have "mac_ok ex_table []" by (simp add: ex_table_def mac_ok_new)
  from mac_ok_add [OF this, of 7 1000 "[0, 1, 2, 3, 4, 5]" 3 100 9] obtain t1 where
    t1: "mac_to_port_add 1000 7 ex_table [0, 1, 2, 3, 4, 5] 3 100 9 = Some t1" "mac_ok t1 [7]"
    "valid_time_entry (hd (entries t1 [7])) = 1080"
    by (auto simp: expiry_def entries_def)
  from mac_table_delete_ehddp_all_or_nothing [OF t1(2), of "\<lambda>a. None" 1081] t1 show ?thesis by auto
qed

text \<open>C24. The conversions between byte orders reverse the bytes of a word in memory, and an
  Ethernet address survives the way through its integer.\<close>

theorem byte_order_conversions:
  "store16 (bigtolittle16 a) = rev (store16 a) \<and> store32 (bigtolittle32 b) = rev (store32 b) \<and>
   store64 (bigtolittle64 c) = rev (store64 c) \<and> int2mac (mac2int [x, y, z, u, v, w]) = [x, y, z, u, v, w]"
proof (intro conjI)
  show "store16 (bigtolittle16 a) = rev (store16 a)"
    unfolding store16_def bigtolittle16_def
    by (simp, intro conjI; rule bit_word_eqI; auto simp: bit_simps)
  show "store32 (bigtolittle32 b) = rev (store32 b)"
    unfolding store32_def store16_def bigtolittle32_def byte_masks32
    by (simp, intro conjI; rule bit_word_eqI; auto simp: bit_simps)
  show "store64 (bigtolittle64 c) = rev (store64 c)"
    unfolding store64_def store32_def store16_def bigtolittle64_def byte_masks64
    by (simp, intro conjI; rule bit_word_eqI; auto simp: bit_simps)
  show "int2mac (mac2int [x, y, z, u, v, w]) = [x, y, z, u, v, w]" by (rule int2mac_mac2int) simp
qed

text \<open>Removing position 1 of a list of four entries leaves the second entry alone: the loop does
  not advance its position after a removal, so it goes on removing.\<close>

definition ex_four :: mac_to_port where
  "ex_four = \<lparr>inicio = Some 1, fin = Some 4, num_element = 4, nodes = (\<lambda>a.
     if 1 \<le> a \<and> a \<le> 4 then Some \<lparr>Mac = [of_nat a], port_in = 0, valid_time_entry = 0, nuevo_puerto = True,
       num_sec = 0, nxt = (if a = 4 then None else Some (Suc a))\<rparr> else None)\<rparr>"

lemma mac_ok_ex_four: "mac_ok ex_four [1, 2, 3, 4]"
  by (simp add: mac_ok_def ex_four_def)

lemma delete_position_removes_more:
  "\<exists>t'. mac_to_port_delete_position stale ex_four 1 = Some t' \<and> mac_ok t' [2]"
  by (simp add: mac_to_port_delete_position_def ex_four_def delete_position_loop.simps unlink_def
      free_node_def set_next_of_def set_node_def next_of_def mac_ok_def)

end
