(* ===== verification/Match_Masks.thy ===== *)
theory Match_Masks
  imports Oxm_Match
begin

text \<open>
  With masks the comparisons of \<^verbatim>\<open>match_std.c\<close> depart from their comments.  The strict comparison accepts two
  masked fields as soon as their masks differ; the non-strict one reads mask bits as
  wildcards; the overlap test compares bits that only one of the masks selects.
\<close>

definition ex_dst :: "u32 \<Rightarrow> u32 \<Rightarrow> ofl_match" where
  "ex_dst v msk = ofl_structs_match_put32m ofl_structs_match_init 0x80001908 v msk"

definition ex_dst_packet :: "u32 \<Rightarrow> ofl_match" where
  "ex_dst_packet v = ofl_structs_match_put32 ofl_structs_match_init 0x80001804 v"

text \<open>Strict: 10.0.0.0/8 and 11.1.0.0/16 compare as the same match.\<close>

lemma match_std_strict_masks_differ:
  "match_std_strict (ex_dst 0x0000000a 0x000000ff) (ex_dst 0x0000010b 0x0000ffff) \<and>
   packet_match (ex_dst 0x0000000a 0x000000ff) (ex_dst_packet 0x0100000a) \<and>
   \<not> packet_match (ex_dst 0x0000010b 0x0000ffff) (ex_dst_packet 0x0100000a)"
  by code_simp

text \<open>Non-strict: 10.0.0.0/8 and itself are not related, 10.0.0.1 under the full mask selects
  11.0.0.2 under the full mask.\<close>

lemma match_std_nonstrict_masks_inverted:
  "\<not> match_std_nonstrict (ex_dst 0x0000000a 0x000000ff) (ex_dst 0x0100000a 0xffffffff) \<and>
   match_std_nonstrict (ex_dst 0x0100000a 0xffffffff) (ex_dst 0x0200000b 0xffffffff)"
  by code_simp

text \<open>Overlap: 10.0.0.0/8 and 10.1.0.0/16 share packets and are reported as disjoint.\<close>

lemma match_std_overlap_misses:
  "\<not> match_std_overlap (ex_dst 0x0000000a 0x000000ff) (ex_dst 0x0000010a 0x0000ffff) \<and>
   packet_match (ex_dst 0x0000000a 0x000000ff) (ex_dst_packet 0x0100010a) \<and>
   packet_match (ex_dst 0x0000010a 0x0000ffff) (ex_dst_packet 0x0100010a)"
  by code_simp

end
