(* ===== verification/Dp_Ports.thy ===== *)
theory Dp_Ports
  imports Switch_Types
begin

text \<open>
  The ports of the datapath and their queues, \<^verbatim>\<open>udatapath/dp_ports.c\<close>: adding and removing
  ports, looking them up, transmitting on one port or on all of them, the port and queue
  messages of the controller.  The network devices are outside the model: what the calls into
  \<^verbatim>\<open>lib/netdev.c\<close> return is the record \<open>netdev_env\<close>, an argument of the operations that use it.
  A slot of the port array that was never filled is \<open>None\<close>; an operation that would follow a
  null pointer into it yields \<open>None\<close>.  The frames handed to the devices and the messages sent
  to the controllers are recorded in the state.
\<close>

unbundle bit_operations_syntax

section \<open>Ports and queues\<close>

definition OFPPC_PORT_DOWN :: u32 where "OFPPC_PORT_DOWN = 1"
definition OFPPC_NO_RECV :: u32 where "OFPPC_NO_RECV = 4"
definition OFPPC_NO_FWD :: u32 where "OFPPC_NO_FWD = 32"
definition OFPPS_LINK_DOWN :: u32 where "OFPPS_LINK_DOWN = 1"
definition OFPPS_LIVE :: u32 where "OFPPS_LIVE = 4"
definition OFPQ_ALL :: u32 where "OFPQ_ALL = 0xffffffff"
definition NETDEV_MAX_QUEUES :: u32 where "NETDEV_MAX_QUEUES = 8"
definition DP_MAX_PORTS :: nat where "DP_MAX_PORTS = 255"
definition SWP_USED :: u32 where "SWP_USED = 1"
definition EXFULL :: int where "EXFULL = 54"

record ofl_port =
  pc_port_no :: u32
  pc_hw_addr :: "byte list"
  pc_name :: string
  pc_config :: u32
  pc_state :: u32
  pc_curr :: u32
  pc_advertised :: u32
  pc_supported :: u32
  pc_peer :: u32
  pc_curr_speed :: u32
  pc_max_speed :: u32

record ofl_port_stats =
  ps_port_no :: u32
  ps_rx_packets :: u64
  ps_tx_packets :: u64
  ps_rx_bytes :: u64
  ps_tx_bytes :: u64
  ps_rx_dropped :: u64
  ps_tx_dropped :: u64
  ps_rx_errors :: u64
  ps_tx_errors :: u64
  ps_rx_frame_err :: u64
  ps_rx_over_err :: u64
  ps_rx_crc_err :: u64
  ps_collisions :: u64
  ps_duration_sec :: u32
  ps_duration_nsec :: u32

record ofl_queue_stats =
  qs_port_no :: u32
  qs_queue_id :: u32
  qs_tx_bytes :: u64
  qs_tx_packets :: u64
  qs_tx_errors :: u64
  qs_duration_sec :: u32
  qs_duration_nsec :: u32

text \<open>A queue in use; its only property is the minimum rate.\<close>

record sw_queue =
  q_class_id :: u16
  q_created :: nat
  q_stats :: ofl_queue_stats
  q_queue_id :: u32
  q_rate :: u16

record sw_port =
  p_flags :: u32
  p_netdev :: "string option"
  p_conf :: ofl_port
  p_stats :: ofl_port_stats
  p_max_queues :: u16
  p_num_queues :: u16
  p_created :: nat
  p_queues :: "sw_queue option list"

text \<open>A pointer to a port: the local port or an element of the array of the datapath.\<close>

datatype port_ref = LocalPort | PhysPort nat

datatype ofp_port_reason = OFPPR_ADD | OFPPR_DELETE | OFPPR_MODIFY

datatype port_msg =
    PortStatus ofp_port_reason ofl_port
  | PortStatsReply u64 "ofl_port_stats list"
  | PortDescReply u64 "ofl_port list"
  | QueueStatsReply u64 "ofl_queue_stats list"
  | QueueConfigReply u32 u64 "(u32 \<times> u16) list"

record frame =
  tx_port :: u32
  tx_class :: u16
  tx_data :: "byte list"

record ports_state =
  dp_ports :: "nat \<Rightarrow> sw_port option"
  local_port :: "sw_port option"
  port_list :: "port_ref list"
  ports_num :: u64
  max_queues :: u32
  port_sent :: "port_msg list"
  transmitted :: "frame list"

text \<open>What the devices answer: the results are error numbers, \<open>0\<close> for success.\<close>

record netdev_env =
  nd_open :: "string \<Rightarrow> int"
  nd_etheraddr :: "string \<Rightarrow> byte list"
  nd_set_flags :: "string \<Rightarrow> int"
  nd_setup_slicing :: "string \<Rightarrow> u32 \<Rightarrow> int"
  nd_features :: "string \<Rightarrow> nat \<Rightarrow> u32"
  nd_send :: "string \<Rightarrow> byte list \<Rightarrow> u16 \<Rightarrow> int"
  nd_setup_class :: "string \<Rightarrow> u16 \<Rightarrow> u16 \<Rightarrow> int"
  nd_change_class :: "string \<Rightarrow> u16 \<Rightarrow> u16 \<Rightarrow> int"

definition port_at :: "ports_state \<Rightarrow> port_ref \<Rightarrow> sw_port option" where
  "port_at st r = (case r of LocalPort \<Rightarrow> local_port st | PhysPort i \<Rightarrow> dp_ports st i)"

definition set_port :: "port_ref \<Rightarrow> sw_port \<Rightarrow> ports_state \<Rightarrow> ports_state" where
  "set_port r p st =
    (case r of LocalPort \<Rightarrow> st\<lparr>local_port := Some p\<rparr>
     | PhysPort i \<Rightarrow> st\<lparr>dp_ports := (dp_ports st)(i \<mapsto> p)\<rparr>)"

definition send_port_msg :: "port_msg \<Rightarrow> ports_state \<Rightarrow> ports_state" where
  "send_port_msg m st = st\<lparr>port_sent := port_sent st @ [m]\<rparr>"

definition port_speed :: "u32 \<Rightarrow> u32" where
  "port_speed conf =
    (if bit conf 9 then 1024 * 1024 * 1024
     else if bit conf 8 then 100 * 1024 * 1024
     else if bit conf 7 then 40 * 1024 * 1024
     else if bit conf 6 then 10 * 1024 * 1024
     else if bit conf 5 then 1024 * 1024
     else if bit conf 4 then 1024 * 1024
     else if bit conf 3 then 100 * 1024
     else if bit conf 2 then 100 * 1024
     else if bit conf 1 then 10 * 1024
     else if bit conf 0 then 10 * 1024
     else 0)"

definition live_bits :: "ofl_port \<Rightarrow> ofl_port" where
  "live_bits c =
    (if pc_state c AND OFPPS_LINK_DOWN \<noteq> 0 \<or> pc_config c AND OFPPC_PORT_DOWN \<noteq> 0
     then c\<lparr>pc_state := pc_state c AND NOT OFPPS_LIVE\<rparr>
     else c\<lparr>pc_state := pc_state c OR OFPPS_LIVE\<rparr>)"

definition dp_port_live_update :: "sw_port \<Rightarrow> sw_port" where
  "dp_port_live_update p = p\<lparr>p_conf := live_bits (p_conf p)\<rparr>"

section \<open>Adding ports\<close>

definition zero_port_stats :: "u32 \<Rightarrow> ofl_port_stats" where
  "zero_port_stats n =
    \<lparr>ps_port_no = n, ps_rx_packets = 0, ps_tx_packets = 0, ps_rx_bytes = 0, ps_tx_bytes = 0,
     ps_rx_dropped = 0, ps_tx_dropped = 0, ps_rx_errors = 0, ps_tx_errors = 0,
     ps_rx_frame_err = 0, ps_rx_over_err = 0, ps_rx_crc_err = 0, ps_collisions = 0,
     ps_duration_sec = 0, ps_duration_nsec = 0\<rparr>"

text \<open>The first value is the error number of the call; the port number of a new port decides
  where it is stored.\<close>

definition new_port ::
    "netdev_env \<Rightarrow> nat \<Rightarrow> port_ref \<Rightarrow> u32 \<Rightarrow> string \<Rightarrow> u32 \<Rightarrow> ports_state \<Rightarrow> int \<times> ports_state" where
  "new_port env now r port_no netdev_name queues st =
    (let nq = min queues NETDEV_MAX_QUEUES
     in if nd_open env netdev_name \<noteq> 0 then (nd_open env netdev_name, st)
        else if nd_set_flags env netdev_name \<noteq> 0 then (nd_set_flags env netdev_name, st)
        else if 0 < nq \<and> nd_setup_slicing env netdev_name nq \<noteq> 0
        then (nd_setup_slicing env netdev_name nq, st)
        else
          let conf =
                \<lparr>pc_port_no = port_no, pc_hw_addr = nd_etheraddr env netdev_name,
                 pc_name = netdev_name,
                 pc_config = (if port_no = OFPP_LOCAL then OFPPC_NO_FWD else 0),
                 pc_state = OFPPS_LIVE,
                 pc_curr = nd_features env netdev_name 0,
                 pc_advertised = nd_features env netdev_name 1,
                 pc_supported = nd_features env netdev_name 2,
                 pc_peer = nd_features env netdev_name 3,
                 pc_curr_speed = port_speed (nd_features env netdev_name 0),
                 pc_max_speed = port_speed (nd_features env netdev_name 2)\<rparr>;
              p = dp_port_live_update
                \<lparr>p_flags = SWP_USED, p_netdev = Some netdev_name, p_conf = conf,
                 p_stats = zero_port_stats port_no, p_max_queues = ucast nq, p_num_queues = 0,
                 p_created = now, p_queues = replicate (unat NETDEV_MAX_QUEUES) None\<rparr>;
              st1 = set_port r p st;
              st2 = st1\<lparr>port_list := port_list st1 @ [r], ports_num := ports_num st1 + 1\<rparr>
          in (0, send_port_msg (PortStatus OFPPR_ADD (p_conf p)) st2))"

fun first_free :: "ports_state \<Rightarrow> nat list \<Rightarrow> nat option" where
  "first_free st [] = None"
| "first_free st (i # is) =
    (case dp_ports st i of
       None \<Rightarrow> Some i
     | Some p \<Rightarrow> if p_netdev p = None then Some i else first_free st is)"

definition dp_ports_add :: "netdev_env \<Rightarrow> nat \<Rightarrow> string \<Rightarrow> ports_state \<Rightarrow> int \<times> ports_state" where
  "dp_ports_add env now netdev st =
    (case first_free st [1..<DP_MAX_PORTS] of
       Some i \<Rightarrow> new_port env now (PhysPort i) (of_nat i) netdev (max_queues st) st
     | None \<Rightarrow> (EXFULL, st))"

text \<open>The notification of the discovery application at the end of \<open>dp_ports_add_local\<close>, a packet
  for the controller, is left to the caller.\<close>

definition dp_ports_add_local :: "netdev_env \<Rightarrow> nat \<Rightarrow> string \<Rightarrow> ports_state \<Rightarrow> int \<times> ports_state" where
  "dp_ports_add_local env now netdev st =
    (case local_port st of
       None \<Rightarrow> new_port env now LocalPort OFPP_LOCAL netdev 0 st
     | Some p \<Rightarrow> (EXFULL, st))"

definition remove_local_port_UAH :: "ports_state \<Rightarrow> ports_state option" where
  "remove_local_port_UAH st =
    (case local_port st of
       None \<Rightarrow> None
     | Some p \<Rightarrow> Some (st\<lparr>port_list := butlast (port_list st), ports_num := ports_num st - 1,
                        local_port := None\<rparr>))"

section \<open>Looking up\<close>

definition dp_ports_lookup :: "ports_state \<Rightarrow> u32 \<Rightarrow> port_ref option" where
  "dp_ports_lookup st port_no =
    (let n = (ucast (if local_port st \<noteq> None then ports_num st - 1 else ports_num st) :: u32)
     in if port_no = OFPP_LOCAL then (if local_port st \<noteq> None then Some LocalPort else None)
        else if port_no < 1 \<or> n < port_no then None
        else Some (PhysPort (unat port_no)))"

definition dp_ports_lookup_queue :: "sw_port \<Rightarrow> u32 \<Rightarrow> sw_queue option" where
  "dp_ports_lookup_queue p queue_id =
    (if queue_id < ucast (p_max_queues p) then p_queues p ! unat queue_id else None)"

definition get_matching_if_port_number_UAH :: "ports_state \<Rightarrow> string \<Rightarrow> u32 option" where
  "get_matching_if_port_number_UAH st name =
    (if list_all (\<lambda>r. port_at st r \<noteq> None) (port_list st)
     then Some (case List.find (\<lambda>r. pc_name (p_conf (the (port_at st r))) = name) (port_list st) of
                  Some r \<Rightarrow> pc_port_no (p_conf (the (port_at st r)))
                | None \<Rightarrow> 0)
     else None)"

definition num_port_available :: "ports_state \<Rightarrow> int option" where
  "num_port_available st =
    (let is = [1..<unat (ports_num st)]
     in if list_all (\<lambda>i. dp_ports st i \<noteq> None) is
        then Some (int (unat (ports_num st)) -
               int (length (filter (\<lambda>i. pc_state (p_conf (the (dp_ports st i))) AND OFPPS_LINK_DOWN \<noteq> 0) is)) - 1)
        else None)"

section \<open>Transmission\<close>

definition queue_sent :: "nat \<Rightarrow> sw_queue \<Rightarrow> sw_queue" where
  "queue_sent len q =
    q\<lparr>q_stats := (q_stats q)\<lparr>qs_tx_packets := qs_tx_packets (q_stats q) + 1,
                            qs_tx_bytes := qs_tx_bytes (q_stats q) + of_nat len\<rparr>\<rparr>"

definition port_transmit ::
    "netdev_env \<Rightarrow> port_ref \<Rightarrow> sw_port \<Rightarrow> string \<Rightarrow> byte list \<Rightarrow> u16 \<Rightarrow> nat option \<Rightarrow>
     ports_state \<Rightarrow> ports_state" where
  "port_transmit env r p dev buf class_id queue st =
    (if nd_send env dev buf class_id = 0 then
       let len = length buf;
           s = p_stats p;
           p1 = p\<lparr>p_stats := s\<lparr>ps_tx_packets := ps_tx_packets s + 1,
                              ps_tx_bytes := ps_tx_bytes s + of_nat len\<rparr>\<rparr>;
           p2 = (case queue of None \<Rightarrow> p1
                 | Some i \<Rightarrow> p1\<lparr>p_queues := (p_queues p1)[i := map_option (queue_sent len) (p_queues p1 ! i)]\<rparr>);
           st1 = set_port r p2 st
       in st1\<lparr>transmitted := transmitted st1 @ [\<lparr>tx_port = pc_port_no (p_conf p), tx_class = class_id,
                                                tx_data = buf\<rparr>]\<rparr>
     else set_port r (p\<lparr>p_stats := (p_stats p)\<lparr>ps_tx_dropped := ps_tx_dropped (p_stats p) + 1\<rparr>\<rparr>) st)"

definition dp_ports_output ::
    "netdev_env \<Rightarrow> byte list \<Rightarrow> u32 \<Rightarrow> u32 \<Rightarrow> ports_state \<Rightarrow> ports_state" where
  "dp_ports_output env buf out_port queue_id st =
    (case dp_ports_lookup st out_port of
       None \<Rightarrow> st
     | Some r \<Rightarrow>
        (case port_at st r of
           None \<Rightarrow> st
         | Some p \<Rightarrow>
            (case p_netdev p of
               None \<Rightarrow> st
             | Some dev \<Rightarrow>
                if pc_config (p_conf p) AND OFPPC_PORT_DOWN = 0 then
                  if queue_id = 0 then port_transmit env r p dev buf 0 None st
                  else (case dp_ports_lookup_queue p queue_id of
                          None \<Rightarrow> st
                        | Some q \<Rightarrow> port_transmit env r p dev buf (q_class_id q) (Some (unat queue_id)) st)
                else st)))"

text \<open>The walk over the list of ports.  A null configuration, and the missing local port when the
  frame came from it, fault.\<close>

fun output_walk ::
    "netdev_env \<Rightarrow> byte list \<Rightarrow> u32 \<Rightarrow> bool \<Rightarrow> port_ref list \<Rightarrow> ports_state \<Rightarrow> ports_state option" where
  "output_walk env buf in_port flood [] st = Some st"
| "output_walk env buf in_port flood (r # rs) st =
    (case port_at st r of
       None \<Rightarrow> None
     | Some p \<Rightarrow>
        if pc_port_no (p_conf p) = in_port then output_walk env buf in_port flood rs st
        else if in_port = OFPP_LOCAL \<and> local_port st = None then None
        else if in_port = OFPP_LOCAL \<and> pc_name (p_conf p) = pc_name (p_conf (the (local_port st)))
        then output_walk env buf in_port flood rs st
        else if flood \<and> pc_config (p_conf p) AND OFPPC_NO_FWD \<noteq> 0
        then output_walk env buf in_port flood rs st
        else output_walk env buf in_port flood rs
               (dp_ports_output env buf (ps_port_no (p_stats p)) 0 st))"

definition dp_ports_output_all ::
    "netdev_env \<Rightarrow> byte list \<Rightarrow> u32 \<Rightarrow> bool \<Rightarrow> ports_state \<Rightarrow> ports_state option" where
  "dp_ports_output_all env buf in_port flood st = output_walk env buf in_port flood (port_list st) st"

section \<open>Receiving: the bookkeeping of \<open>dp_ports_run\<close>\<close>

datatype link_state = NETDEV_LINK_UP | NETDEV_LINK_DOWN | NETDEV_LINK_NO_CHANGE

definition port_link_update :: "link_state \<Rightarrow> sw_port \<Rightarrow> sw_port" where
  "port_link_update l p =
    (case l of
       NETDEV_LINK_UP \<Rightarrow>
         dp_port_live_update (p\<lparr>p_conf := (p_conf p)\<lparr>pc_state := pc_state (p_conf p) AND NOT OFPPS_LINK_DOWN\<rparr>\<rparr>)
     | NETDEV_LINK_DOWN \<Rightarrow>
         dp_port_live_update (p\<lparr>p_conf := (p_conf p)\<lparr>pc_state := pc_state (p_conf p) OR OFPPS_LINK_DOWN\<rparr>\<rparr>)
     | NETDEV_LINK_NO_CHANGE \<Rightarrow> p)"

definition port_received :: "nat \<Rightarrow> sw_port \<Rightarrow> sw_port" where
  "port_received len p =
    p\<lparr>p_stats := (p_stats p)\<lparr>ps_rx_packets := ps_rx_packets (p_stats p) + 1,
                            ps_rx_bytes := ps_rx_bytes (p_stats p) + of_nat len\<rparr>\<rparr>"

text \<open>One round of the loop: the link state, then the frame read from the device if there is one.
  The result says which frame goes into the pipeline.\<close>

definition port_run ::
    "link_state \<Rightarrow> byte list option \<Rightarrow> port_ref \<Rightarrow> ports_state \<Rightarrow>
     (ports_state \<times> (u32 \<times> byte list) option) option" where
  "port_run l recv r st =
    (case port_at st r of
       None \<Rightarrow> None
     | Some p0 \<Rightarrow>
        (let p = port_link_update l p0; st1 = set_port r p st
         in if pc_port_no (p_conf p) = OFPP_LOCAL then Some (st1, None)
            else case recv of
                   None \<Rightarrow> Some (st1, None)
                 | Some buf \<Rightarrow>
                    let st2 = set_port r (port_received (length buf) p) st1
                    in if pc_config (p_conf p) AND (OFPPC_NO_RECV OR OFPPC_PORT_DOWN) \<noteq> 0
                       then Some (st2, None)
                       else Some (st2, Some (ps_port_no (p_stats p), buf))))"

section \<open>Messages of the controller\<close>

record ofl_msg_port_mod =
  pm_port_no :: u32
  pm_hw_addr :: "byte list"
  pm_config :: u32
  pm_mask :: u32

text \<open>The result is the error, or the state; \<open>None\<close> outside is a fault.\<close>

definition dp_ports_handle_port_mod ::
    "netdev_env \<Rightarrow> ofl_msg_port_mod \<Rightarrow> controller_role \<Rightarrow> ports_state \<Rightarrow> (ofl_err + ports_state) option" where
  "dp_ports_handle_port_mod env msg role st =
    (if role = OFPCR_ROLE_SLAVE then Some (Inl OFPBRC_IS_SLAVE)
     else case dp_ports_lookup st (pm_port_no msg) of
            None \<Rightarrow> Some (Inl OFPPMFC_BAD_PORT)
          | Some r \<Rightarrow>
             (case port_at st r of
                None \<Rightarrow> None
              | Some p \<Rightarrow>
                 (case p_netdev p of
                    None \<Rightarrow> None
                  | Some dev \<Rightarrow>
                     if take 6 (pm_hw_addr msg) \<noteq> take 6 (nd_etheraddr env dev)
                     then Some (Inl OFPPMFC_BAD_HW_ADDR)
                     else
                       let c = p_conf p;
                           p1 = (if pm_mask msg \<noteq> 0 then
                                   dp_port_live_update (p\<lparr>p_conf := c\<lparr>pc_config :=
                                     (pc_config c AND NOT (pm_mask msg)) OR (pm_config msg AND pm_mask msg)\<rparr>\<rparr>)
                                 else p)
                       in Some (Inr (send_port_msg (PortStatus OFPPR_MODIFY (p_conf p1)) (set_port r p1 st))))))"

definition dp_ports_handle_port_mod_UAH :: "u32 \<Rightarrow> ports_state \<Rightarrow> (ofl_err + ports_state) option" where
  "dp_ports_handle_port_mod_UAH port_no st =
    (case dp_ports_lookup st port_no of
       None \<Rightarrow> Some (Inl OFPPMFC_BAD_PORT)
     | Some r \<Rightarrow>
        (case port_at st r of
           None \<Rightarrow> None
         | Some p \<Rightarrow> Some (Inr (send_port_msg (PortStatus OFPPR_MODIFY (p_conf p)) st))))"

definition dur_sec :: "nat \<Rightarrow> nat \<Rightarrow> u32" where
  "dur_sec now created = of_nat ((now - created) div 1000)"

definition dur_nsec :: "nat \<Rightarrow> nat \<Rightarrow> u32" where
  "dur_nsec now created = of_nat ((now - created) mod 1000 * 1000000)"

definition dp_port_stats_update :: "nat \<Rightarrow> sw_port \<Rightarrow> sw_port" where
  "dp_port_stats_update now p =
    p\<lparr>p_stats := (p_stats p)\<lparr>ps_duration_sec := dur_sec now (p_created p),
                            ps_duration_nsec := dur_nsec now (p_created p)\<rparr>\<rparr>"

fun update_walk :: "(sw_port \<Rightarrow> sw_port) \<Rightarrow> port_ref list \<Rightarrow> ports_state \<Rightarrow> ports_state option" where
  "update_walk f [] st = Some st"
| "update_walk f (r # rs) st =
    (case port_at st r of None \<Rightarrow> None | Some p \<Rightarrow> update_walk f rs (set_port r (f p) st))"

definition dp_ports_handle_stats_request_port ::
    "nat \<Rightarrow> u32 \<Rightarrow> ports_state \<Rightarrow> ports_state option" where
  "dp_ports_handle_stats_request_port now port_no st =
    (if port_no = OFPP_ANY then
       (case update_walk (dp_port_stats_update now) (port_list st) st of
          None \<Rightarrow> None
        | Some st1 \<Rightarrow> Some (send_port_msg (PortStatsReply (ports_num st1)
             (map (\<lambda>r. p_stats (the (port_at st1 r))) (port_list st1))) st1))
     else
       (case Option.bind (dp_ports_lookup st port_no)
               (\<lambda>r. Option.bind (port_at st r) (\<lambda>p. map_option (\<lambda>dev. (r, p)) (p_netdev p))) of
          None \<Rightarrow> Some (send_port_msg (PortStatsReply 0 []) st)
        | Some (r, p) \<Rightarrow>
            let p1 = dp_port_stats_update now p
            in Some (send_port_msg (PortStatsReply 1 [p_stats p1]) (set_port r p1 st))))"

definition dp_ports_handle_port_desc_request :: "ports_state \<Rightarrow> ports_state option" where
  "dp_ports_handle_port_desc_request st =
    (if list_all (\<lambda>r. port_at st r \<noteq> None) (port_list st)
     then Some (send_port_msg (PortDescReply (ports_num st)
            (map (\<lambda>r. p_conf (the (port_at st r))) (port_list st))) st)
     else None)"

section \<open>Queues\<close>

definition dp_ports_queue_update :: "nat \<Rightarrow> sw_queue \<Rightarrow> sw_queue" where
  "dp_ports_queue_update now q =
    q\<lparr>q_stats := (q_stats q)\<lparr>qs_duration_sec := dur_sec now (q_created q),
                            qs_duration_nsec := dur_nsec now (q_created q)\<rparr>\<rparr>"

text \<open>The queues a request names: all that are in use, or the one with the number.\<close>

definition queue_ids :: "u32 \<Rightarrow> sw_port \<Rightarrow> nat list" where
  "queue_ids queue_id p =
    filter (\<lambda>i. p_queues p ! i \<noteq> None)
      (if queue_id = OFPQ_ALL then [0..<unat (p_max_queues p)]
       else if queue_id < ucast (p_max_queues p) then [unat queue_id] else [])"

definition port_queues_update :: "nat \<Rightarrow> u32 \<Rightarrow> sw_port \<Rightarrow> sw_port" where
  "port_queues_update now queue_id p =
    p\<lparr>p_queues := fold (\<lambda>i qs. qs[i := map_option (dp_ports_queue_update now) (qs ! i)])
       (queue_ids queue_id p) (p_queues p)\<rparr>"

definition queue_stats_of :: "u32 \<Rightarrow> sw_port \<Rightarrow> ofl_queue_stats list" where
  "queue_stats_of queue_id p = map (\<lambda>i. q_stats (the (p_queues p ! i))) (queue_ids queue_id p)"

text \<open>The number of elements announced: the counter of the port for all queues, else the ones found.\<close>

definition queue_count :: "u32 \<Rightarrow> sw_port \<Rightarrow> u64" where
  "queue_count queue_id p =
    (if queue_id = OFPQ_ALL then ucast (p_num_queues p) else of_nat (length (queue_ids queue_id p)))"

definition dp_ports_handle_stats_request_queue ::
    "nat \<Rightarrow> u32 \<Rightarrow> u32 \<Rightarrow> ports_state \<Rightarrow> ports_state option" where
  "dp_ports_handle_stats_request_queue now port_no queue_id st =
    (if port_no = OFPP_ANY then
       (case update_walk (port_queues_update now queue_id) (port_list st) st of
          None \<Rightarrow> None
        | Some st1 \<Rightarrow>
            (let ps = map (\<lambda>r. the (port_at st1 r)) (port_list st1)
             in Some (send_port_msg (QueueStatsReply (sum_list (map (queue_count queue_id) ps))
                        (concat (map (queue_stats_of queue_id) ps))) st1)))
     else
       (case Option.bind (dp_ports_lookup st port_no)
               (\<lambda>r. Option.bind (port_at st r) (\<lambda>p. map_option (\<lambda>dev. (r, p)) (p_netdev p))) of
          None \<Rightarrow> Some (send_port_msg (QueueStatsReply 0 []) st)
        | Some (r, p) \<Rightarrow>
            let p1 = port_queues_update now queue_id p
            in Some (send_port_msg (QueueStatsReply (queue_count queue_id p1) (queue_stats_of queue_id p1))
                 (set_port r p1 st))))"

definition queue_props_of :: "sw_port \<Rightarrow> (u32 \<times> u16) list" where
  "queue_props_of p =
    map (\<lambda>i. let q = the (p_queues p ! i) in (q_queue_id q, q_rate q)) (queue_ids OFPQ_ALL p)"

definition dp_ports_handle_queue_get_config_request ::
    "u32 \<Rightarrow> ports_state \<Rightarrow> (ofl_err + ports_state) option" where
  "dp_ports_handle_queue_get_config_request port st =
    (if port = OFPP_ANY then
       if list_all (\<lambda>r. port_at st r \<noteq> None) (port_list st) then
         let ps = map (\<lambda>r. the (port_at st r)) (port_list st)
         in Some (Inr (send_port_msg (QueueConfigReply OFPP_ANY
                         (sum_list (map (\<lambda>p. ucast (p_num_queues p)) ps))
                         (concat (map queue_props_of ps))) st))
       else None
     else
       (case dp_ports_lookup st port of
          None \<Rightarrow> Some (Inl OFPQOFC_BAD_PORT)
        | Some r \<Rightarrow>
           (case port_at st r of
              None \<Rightarrow> None
            | Some p \<Rightarrow>
                if ps_port_no (p_stats p) \<noteq> port then Some (Inl OFPQOFC_BAD_PORT)
                else Some (Inr (send_port_msg (QueueConfigReply port (ucast (p_num_queues p))
                              (queue_props_of p)) st)))))"

definition new_queue :: "nat \<Rightarrow> sw_port \<Rightarrow> u32 \<Rightarrow> u16 \<Rightarrow> u16 \<Rightarrow> sw_port" where
  "new_queue now p queue_id class_id rate =
    (let q = \<lparr>q_class_id = class_id, q_created = now,
              q_stats = \<lparr>qs_port_no = ps_port_no (p_stats p), qs_queue_id = queue_id, qs_tx_bytes = 0,
                         qs_tx_packets = 0, qs_tx_errors = 0, qs_duration_sec = 0, qs_duration_nsec = 0\<rparr>,
              q_queue_id = queue_id, q_rate = rate\<rparr>
     in p\<lparr>p_queues := (p_queues p)[unat queue_id := Some q], p_num_queues := p_num_queues p + 1\<rparr>)"

definition port_add_queue :: "nat \<Rightarrow> sw_port \<Rightarrow> u32 \<Rightarrow> u16 \<Rightarrow> int \<times> sw_port" where
  "port_add_queue now p queue_id rate =
    (if ucast (p_max_queues p) \<le> queue_id then (EXFULL, p)
     else if p_queues p ! unat queue_id \<noteq> None then (EXFULL, p)
     else (0, new_queue now p queue_id (ucast queue_id) rate))"

definition port_delete_queue :: "sw_port \<Rightarrow> u32 \<Rightarrow> sw_port" where
  "port_delete_queue p queue_id =
    p\<lparr>p_queues := (p_queues p)[unat queue_id := None], p_num_queues := p_num_queues p - 1\<rparr>"

definition port_in_use :: "sw_port \<Rightarrow> bool" where
  "port_in_use p \<longleftrightarrow> p_flags p AND SWP_USED \<noteq> 0"

definition dp_ports_handle_queue_modify ::
    "netdev_env \<Rightarrow> nat \<Rightarrow> u32 \<Rightarrow> u32 \<Rightarrow> u16 \<Rightarrow> ports_state \<Rightarrow>
     (ofl_err option \<times> ports_state) option" where
  "dp_ports_handle_queue_modify env now port_id queue_id rate st =
    (case Option.bind (dp_ports_lookup st port_id) (\<lambda>r. map_option (Pair r) (port_at st r)) of
       None \<Rightarrow> Some (Some OFPQOFC_BAD_PORT, st)
     | Some (r, p) \<Rightarrow>
        if \<not> port_in_use p then Some (Some OFPQOFC_BAD_PORT, st)
        else
          case p_netdev p of
            None \<Rightarrow> None
          | Some dev \<Rightarrow>
             Some (case dp_ports_lookup_queue p queue_id of
                Some q \<Rightarrow>
                  if nd_change_class env dev (q_class_id q) rate \<noteq> 0 then (Some OFPQOFC_EPERM, st)
                  else (None, set_port r (p\<lparr>p_queues := (p_queues p)[unat queue_id := Some (q\<lparr>q_rate := rate\<rparr>)]\<rparr>) st)
              | None \<Rightarrow>
                  (let (e, p1) = port_add_queue now p queue_id rate
                   in if e = EXFULL then (Some OFPQOFC_EPERM, st)
                      else if nd_setup_class env dev (ucast queue_id) rate \<noteq> 0
                      then (Some OFPQOFC_BAD_QUEUE, set_port r p1 st)
                      else (None, set_port r p1 st))))"

definition dp_ports_handle_queue_delete :: "u32 \<Rightarrow> u32 \<Rightarrow> ports_state \<Rightarrow> ofl_err option \<times> ports_state" where
  "dp_ports_handle_queue_delete port_id queue_id st =
    (case Option.bind (dp_ports_lookup st port_id)
            (\<lambda>r. Option.bind (port_at st r) (\<lambda>p. map_option (\<lambda>dev. (r, p)) (p_netdev p))) of
       None \<Rightarrow> (Some OFPQOFC_BAD_PORT, st)
     | Some (r, p) \<Rightarrow>
        (case dp_ports_lookup_queue p queue_id of
           None \<Rightarrow> (Some OFPQOFC_BAD_QUEUE, st)
         | Some q \<Rightarrow> (None, set_port r (port_delete_queue p queue_id) st)))"

section \<open>The invariant\<close>

definition ref_no :: "port_ref \<Rightarrow> u32" where
  "ref_no r = (case r of LocalPort \<Rightarrow> OFPP_LOCAL | PhysPort i \<Rightarrow> of_nat i)"

definition live_ok :: "ofl_port \<Rightarrow> bool" where
  "live_ok c \<longleftrightarrow> (pc_state c AND OFPPS_LIVE \<noteq> 0) =
     (pc_state c AND OFPPS_LINK_DOWN = 0 \<and> pc_config c AND OFPPC_PORT_DOWN = 0)"

definition queue_ok :: "sw_port \<Rightarrow> nat \<Rightarrow> bool" where
  "queue_ok p i \<longleftrightarrow> (\<forall>q. p_queues p ! i = Some q \<longrightarrow>
     q_queue_id q = of_nat i \<and> q_class_id q = of_nat i \<and> i < unat (p_max_queues p))"

definition queues_ok :: "sw_port \<Rightarrow> bool" where
  "queues_ok p \<longleftrightarrow> length (p_queues p) = 8 \<and> unat (p_max_queues p) \<le> 8 \<and>
     unat (p_num_queues p) = length (filter (\<lambda>q. q \<noteq> None) (p_queues p)) \<and> (\<forall>i<8. queue_ok p i)"

definition port_ok :: "port_ref \<Rightarrow> sw_port \<Rightarrow> bool" where
  "port_ok r p \<longleftrightarrow> p_netdev p \<noteq> None \<and> port_in_use p \<and> pc_port_no (p_conf p) = ref_no r \<and>
     ps_port_no (p_stats p) = ref_no r \<and> live_ok (p_conf p) \<and> queues_ok p"

definition ports_ok :: "ports_state \<Rightarrow> bool" where
  "ports_ok st \<longleftrightarrow>
     (\<exists>n < DP_MAX_PORTS. (\<forall>i. dp_ports st i \<noteq> None \<longleftrightarrow> 1 \<le> i \<and> i \<le> n) \<and>
        ports_num st = of_nat (n + (if local_port st = None then 0 else 1))) \<and>
     distinct (port_list st) \<and> set (port_list st) = {r. port_at st r \<noteq> None} \<and>
     (\<forall>r p. port_at st r = Some p \<longrightarrow> port_ok r p)"

lemma port_at_set_port [simp]: "port_at (set_port r p st) r' = (if r' = r then Some p else port_at st r')"
  by (auto simp: port_at_def set_port_def split: port_ref.splits)

lemma set_port_frame [simp]:
  "port_list (set_port r p st) = port_list st" "ports_num (set_port r p st) = ports_num st"
  "port_sent (set_port r p st) = port_sent st" "transmitted (set_port r p st) = transmitted st"
  "max_queues (set_port r p st) = max_queues st"
  by (simp_all add: set_port_def split: port_ref.split)

lemma ports_ok_cong:
  assumes "ports_ok st" "dp_ports st' = dp_ports st" "local_port st' = local_port st"
    "port_list st' = port_list st" "ports_num st' = ports_num st"
  shows "ports_ok st'"
proof -
  have "port_at st' = port_at st"
    using assms by (auto simp: port_at_def fun_eq_iff split: port_ref.splits)
  then show ?thesis using assms by (simp add: ports_ok_def)
qed

lemma ports_ok_send [simp]: "ports_ok (send_port_msg m st) \<longleftrightarrow> ports_ok st"
  using ports_ok_cong [of st "send_port_msg m st"] ports_ok_cong [of "send_port_msg m st" st]
  by (auto simp: send_port_msg_def)

lemma ports_ok_transmitted [simp]: "ports_ok (st\<lparr>transmitted := x\<rparr>) \<longleftrightarrow> ports_ok st"
  using ports_ok_cong [of st "st\<lparr>transmitted := x\<rparr>"] ports_ok_cong [of "st\<lparr>transmitted := x\<rparr>" st] by auto

lemma ports_ok_portD: "ports_ok st \<Longrightarrow> port_at st r = Some p \<Longrightarrow> port_ok r p"
  by (simp add: ports_ok_def)

lemma ports_ok_list: "ports_ok st \<Longrightarrow> r \<in> set (port_list st) \<longleftrightarrow> port_at st r \<noteq> None"
  by (simp add: ports_ok_def)

lemma ports_ok_set_port:
  assumes ok: "ports_ok st" and ex: "port_at st r = Some p0" and p: "port_ok r p"
  shows "ports_ok (set_port r p st)"
proof -
  have d: "(dp_ports (set_port r p st) i \<noteq> None) = (dp_ports st i \<noteq> None)" for i
    using ex by (auto simp: set_port_def port_at_def split: port_ref.splits)
  have l: "(local_port (set_port r p st) = None) = (local_port st = None)"
    using ex by (auto simp: set_port_def port_at_def split: port_ref.splits)
  have "{r'. port_at (set_port r p st) r' \<noteq> None} = {r'. port_at st r' \<noteq> None}"
    using ex by auto
  then show ?thesis using ok p unfolding ports_ok_def d l set_port_frame by auto
qed


lemma phys_port_range:
  assumes "ports_ok st" "port_at st (PhysPort i) \<noteq> None"
  shows "1 \<le> i \<and> i \<le> 254"
proof -
  from assms(1) obtain n where "n < DP_MAX_PORTS" "\<forall>i. dp_ports st i \<noteq> None \<longleftrightarrow> 1 \<le> i \<and> i \<le> n"
    by (auto simp: ports_ok_def)
  moreover have "dp_ports st i \<noteq> None" using assms(2) by (simp add: port_at_def)
  ultimately show ?thesis by (auto simp: DP_MAX_PORTS_def)
qed

lemma unat_of_small: "i \<le> 254 \<Longrightarrow> unat (of_nat i :: u32) = i"
  by (simp add: unsigned_of_nat take_bit_nat_eq_self)

lemma small_not_local: "i \<le> 254 \<Longrightarrow> (of_nat i :: u32) \<noteq> OFPP_LOCAL"
proof
  assume "i \<le> 254" "(of_nat i :: u32) = OFPP_LOCAL"
  then have "i = unat OFPP_LOCAL" using unat_of_small by metis
  then show False using \<open>i \<le> 254\<close> by (simp add: OFPP_LOCAL_def)
qed

lemma ref_no_simps [simp]: "ref_no LocalPort = OFPP_LOCAL" "ref_no (PhysPort i) = of_nat i"
  by (simp_all add: ref_no_def)

lemma ref_no_inj:
  assumes ok: "ports_ok st" and r: "port_at st r \<noteq> None" and r': "port_at st r' \<noteq> None"
  shows "ref_no r = ref_no r' \<longleftrightarrow> r = r'"
proof (cases r)
  case LocalPort
  have "OFPP_LOCAL \<noteq> of_nat j" if "r' = PhysPort j" for j
    using small_not_local [of j] phys_port_range [OF ok, of j] r' that by metis
  then show ?thesis using LocalPort by (cases r') auto
next
  case (PhysPort i)
  then have i: "i \<le> 254" using phys_port_range [OF ok] r by blast
  show ?thesis
  proof (cases r')
    case LocalPort
    then show ?thesis using PhysPort small_not_local [OF i] by simp
  next
    case j: (PhysPort j)
    then have "j \<le> 254" using phys_port_range [OF ok] r' by blast
    then have "(of_nat i :: u32) = of_nat j \<longleftrightarrow> i = j" using i unat_of_small by metis
    then show ?thesis using PhysPort j by simp
  qed
qed

text \<open>Looking up a number finds exactly the port that has it.\<close>

lemma dp_ports_lookup_iff:
  assumes ok: "ports_ok st"
  shows "dp_ports_lookup st k = Some r \<longleftrightarrow> port_at st r \<noteq> None \<and> ref_no r = k"
proof -
  from ok obtain n where n: "n < DP_MAX_PORTS" and dom: "\<And>i. dp_ports st i \<noteq> None \<longleftrightarrow> 1 \<le> i \<and> i \<le> n"
    and num: "ports_num st = of_nat (n + (if local_port st = None then 0 else 1))"
    by (auto simp: ports_ok_def)
  have n254: "n \<le> 254" using n by (simp add: DP_MAX_PORTS_def)
  have w: "(ucast (if local_port st \<noteq> None then ports_num st - 1 else ports_num st) :: u32) = of_nat n"
    using num n254 by (simp add: unsigned_of_nat take_bit_nat_eq_self)
  show ?thesis
  proof (cases "k = OFPP_LOCAL")
    case True
    have "port_at st (PhysPort i) \<noteq> None \<Longrightarrow> ref_no (PhysPort i) \<noteq> OFPP_LOCAL" for i
      using phys_port_range [OF ok, of i] small_not_local [of i] by simp
    then show ?thesis using True
      by (cases r) (auto simp: dp_ports_lookup_def port_at_def)
  next
    case False
    have e: "(k < 1 \<or> of_nat n < k) \<longleftrightarrow> \<not> (1 \<le> unat k \<and> unat k \<le> n)"
      using n254 unat_of_small [of n] by (auto simp: word_less_nat_alt word_le_nat_alt not_less not_le)
    have l: "dp_ports_lookup st k =
        (if 1 \<le> unat k \<and> unat k \<le> n then Some (PhysPort (unat k)) else None)"
      unfolding dp_ports_lookup_def Let_def w using False e by simp
    show ?thesis
    proof (cases r)
      case LocalPort
      then show ?thesis using False l by auto
    next
      case (PhysPort i)
      have "unat k = i \<longleftrightarrow> of_nat i = k" if "1 \<le> i \<and> i \<le> n"
        using that n254 unat_of_small [of i] by auto
      then show ?thesis using PhysPort l dom [of i] n254 unat_of_small [of i]
        by (auto simp: port_at_def)
    qed
  qed
qed


section \<open>The operations keep the invariant\<close>

lemma flag_bits:
  "x AND OFPPS_LIVE = 0 \<longleftrightarrow> \<not> bit x 2" "x AND OFPPS_LINK_DOWN = 0 \<longleftrightarrow> \<not> bit x 0"
  "x AND OFPPC_PORT_DOWN = 0 \<longleftrightarrow> \<not> bit x 0" "x AND OFPPC_NO_FWD = 0 \<longleftrightarrow> \<not> bit x 5"
  "x AND SWP_USED = 0 \<longleftrightarrow> \<not> bit x 0"
  using and_exp_eq_0_iff_not_bit [of x 2] and_exp_eq_0_iff_not_bit [of x 0]
    and_exp_eq_0_iff_not_bit [of x 5]
  by (simp_all add: OFPPS_LIVE_def OFPPS_LINK_DOWN_def OFPPC_PORT_DOWN_def OFPPC_NO_FWD_def SWP_USED_def)

lemma live_bits_ok [simp]: "live_ok (live_bits c)"
  by (auto simp: live_ok_def live_bits_def flag_bits) (simp_all add: OFPPS_LIVE_def bit_simps)

lemma live_bits_frame [simp]:
  "pc_port_no (live_bits c) = pc_port_no c" "pc_config (live_bits c) = pc_config c"
  "pc_name (live_bits c) = pc_name c" "pc_hw_addr (live_bits c) = pc_hw_addr c"
  by (simp_all add: live_bits_def)

lemma port_ok_conf:
  assumes "port_ok r p" "live_ok c" "pc_port_no c = pc_port_no (p_conf p)"
  shows "port_ok r (p\<lparr>p_conf := c\<rparr>)"
  using assms by (simp add: port_ok_def port_in_use_def queues_ok_def queue_ok_def)

lemma port_ok_stats:
  assumes "port_ok r p" "ps_port_no s = ps_port_no (p_stats p)"
  shows "port_ok r (p\<lparr>p_stats := s\<rparr>)"
  using assms by (simp add: port_ok_def port_in_use_def queues_ok_def queue_ok_def)

lemma port_ok_live_update [simp]:
  "port_ok r (p\<lparr>p_conf := c\<rparr>) \<Longrightarrow> port_ok r (dp_port_live_update (p\<lparr>p_conf := c\<rparr>))"
  by (simp add: dp_port_live_update_def port_ok_def port_in_use_def queues_ok_def queue_ok_def)

lemma port_ok_config:
  assumes "port_ok r p" "pc_port_no c = pc_port_no (p_conf p)"
  shows "port_ok r (dp_port_live_update (p\<lparr>p_conf := c\<rparr>))"
  using assms by (simp add: dp_port_live_update_def port_ok_def port_in_use_def queues_ok_def queue_ok_def)

lemma port_ok_queue_map:
  assumes ok: "port_ok r p"
    and f: "\<And>q. q_queue_id (f q) = q_queue_id q" "\<And>q. q_class_id (f q) = q_class_id q"
  shows "port_ok r (p\<lparr>p_queues := (p_queues p)[i := map_option f (p_queues p ! i)]\<rparr>)"
proof -
  let ?p = "p\<lparr>p_queues := (p_queues p)[i := map_option f (p_queues p ! i)]\<rparr>"
  have q: "queues_ok p" using ok by (simp add: port_ok_def)
  have e: "map (\<lambda>q. q \<noteq> None) (p_queues ?p) = map (\<lambda>q. q \<noteq> None) (p_queues p)"
  proof (rule nth_equalityI)
    fix j assume "j < length (map (\<lambda>q. q \<noteq> None) (p_queues ?p))"
    then show "map (\<lambda>q. q \<noteq> None) (p_queues ?p) ! j = map (\<lambda>q. q \<noteq> None) (p_queues p) ! j"
      by (cases "j = i") auto
  qed simp
  have c: "length (filter (\<lambda>q. q \<noteq> None) xs) = length (filter id (map (\<lambda>q. q \<noteq> None) xs))"
    for xs :: "sw_queue option list" by (induction xs) auto
  have "length (filter (\<lambda>q. q \<noteq> None) (p_queues ?p)) = length (filter (\<lambda>q. q \<noteq> None) (p_queues p))"
    unfolding c e ..
  moreover have "queue_ok ?p j" if "j < 8" for j
    using q that f by (cases "j = i") (auto simp: queues_ok_def queue_ok_def)
  ultimately have "queues_ok ?p" using q by (simp add: queues_ok_def)
  then show ?thesis using ok by (simp add: port_ok_def port_in_use_def)
qed

lemma ports_ok_transmit:
  assumes ok: "ports_ok st" and p: "port_at st r = Some p"
  shows "ports_ok (port_transmit env r p dev buf cid queue st)"
proof -
  have po: "port_ok r p" using ports_ok_portD [OF ok p] .
  have 1: "port_ok r (p\<lparr>p_stats := s\<rparr>)" if "ps_port_no s = ps_port_no (p_stats p)" for s
    using port_ok_stats [OF po that] .
  show ?thesis
    using ok p 1 port_ok_queue_map [OF 1, of _ "queue_sent (length buf)"]
    by (auto simp: port_transmit_def Let_def queue_sent_def split: option.split
        intro!: ports_ok_set_port)
qed

lemma ports_ok_output [simp]: "ports_ok st \<Longrightarrow> ports_ok (dp_ports_output env buf out_port queue_id st)"
  by (auto simp: dp_ports_output_def ports_ok_transmit split: option.split)

lemma output_frame:
  "port_list (dp_ports_output env buf k q st) = port_list st"
  "port_at (dp_ports_output env buf k q st) r = None \<longleftrightarrow> port_at st r = None"
  by (auto simp: dp_ports_output_def port_transmit_def Let_def port_at_def set_port_def
      split: option.splits port_ref.splits)


lemma dp_ports_lookup_ref:
  "ports_ok st \<Longrightarrow> port_at st r = Some p \<Longrightarrow> dp_ports_lookup st (ref_no r) = Some r"
  by (simp add: dp_ports_lookup_iff)

text \<open>Transmitting changes counters only.\<close>

definition same_conf :: "ports_state \<Rightarrow> ports_state \<Rightarrow> bool" where
  "same_conf st st' \<longleftrightarrow> (\<forall>r. map_option (\<lambda>p. (p_conf p, p_netdev p)) (port_at st' r) =
     map_option (\<lambda>p. (p_conf p, p_netdev p)) (port_at st r))"

lemma same_conf_refl [simp]: "same_conf st st"
  by (simp add: same_conf_def)

lemma same_conf_trans: "same_conf a b \<Longrightarrow> same_conf b c \<Longrightarrow> same_conf a c"
  by (simp add: same_conf_def)

lemma port_at_transmitted [simp]: "port_at (st\<lparr>transmitted := x\<rparr>) r = port_at st r"
  by (simp add: port_at_def split: port_ref.split)

lemma same_conf_set_port:
  "port_at st r = Some p0 \<Longrightarrow> p_conf p = p_conf p0 \<Longrightarrow> p_netdev p = p_netdev p0 \<Longrightarrow>
   same_conf st (set_port r p st)"
  by (simp add: same_conf_def)

lemma same_conf_transmitted [simp]: "same_conf st (st'\<lparr>transmitted := x\<rparr>) \<longleftrightarrow> same_conf st st'"
  by (simp add: same_conf_def)

lemma same_conf_transmit:
  "port_at st r = Some p \<Longrightarrow> same_conf st (port_transmit env r p dev buf cid queue st)"
  by (auto simp: port_transmit_def Let_def intro!: same_conf_set_port split: option.split)

lemma same_conf_output: "same_conf st (dp_ports_output env buf k q st)"
  by (auto simp: dp_ports_output_def same_conf_transmit split: option.split)

lemma transmitted_output:
  assumes ok: "ports_ok st" and p: "port_at st r = Some p" and dev: "p_netdev p = Some dev"
  shows "transmitted (dp_ports_output env buf (ref_no r) 0 st) = transmitted st @
    (if pc_config (p_conf p) AND OFPPC_PORT_DOWN = 0 \<and> nd_send env dev buf 0 = 0
     then [\<lparr>tx_port = ref_no r, tx_class = 0, tx_data = buf\<rparr>] else [])"
  using ports_ok_portD [OF ok p] dp_ports_lookup_ref [OF ok p] p dev
  by (simp add: dp_ports_output_def port_transmit_def Let_def port_ok_def)

text \<open>The ports a frame leaves on.\<close>

definition forwards :: "netdev_env \<Rightarrow> byte list \<Rightarrow> u32 \<Rightarrow> bool \<Rightarrow> ports_state \<Rightarrow> port_ref \<Rightarrow> bool" where
  "forwards env buf in_port flood st r \<longleftrightarrow>
    (\<exists>p dev. port_at st r = Some p \<and> p_netdev p = Some dev \<and> ref_no r \<noteq> in_port \<and>
       (in_port = OFPP_LOCAL \<longrightarrow> pc_name (p_conf p) \<noteq> pc_name (p_conf (the (local_port st)))) \<and>
       (flood \<longrightarrow> pc_config (p_conf p) AND OFPPC_NO_FWD = 0) \<and>
       pc_config (p_conf p) AND OFPPC_PORT_DOWN = 0 \<and> nd_send env dev buf 0 = 0)"

lemma port_at_local: "port_at st LocalPort = local_port st"
  by (simp add: port_at_def)

lemma forwards_same_conf:
  assumes s: "same_conf st st'" and l: "in_port = OFPP_LOCAL \<longrightarrow> local_port st \<noteq> None"
  shows "forwards env buf in_port flood st' r = forwards env buf in_port flood st r"
proof -
  have "p_conf (the (local_port st')) = p_conf (the (local_port st))" if "in_port = OFPP_LOCAL"
    using s [unfolded same_conf_def, rule_format, of LocalPort] l that by (auto simp: port_at_local)
  then have n: "(in_port = OFPP_LOCAL \<longrightarrow> x \<noteq> pc_name (p_conf (the (local_port st')))) \<longleftrightarrow>
      (in_port = OFPP_LOCAL \<longrightarrow> x \<noteq> pc_name (p_conf (the (local_port st))))" for x
    by auto
  show ?thesis using s [unfolded same_conf_def, rule_format, of r]
    by (cases "port_at st r"; cases "port_at st' r") (auto simp: forwards_def n)
qed

lemma output_walk_frames:
  assumes "ports_ok st" "distinct rs" "set rs \<subseteq> {r. port_at st r \<noteq> None}"
    "in_port = OFPP_LOCAL \<longrightarrow> local_port st \<noteq> None"
  shows "\<exists>st'. output_walk env buf in_port flood rs st = Some st' \<and> ports_ok st' \<and> same_conf st st' \<and>
    transmitted st' = transmitted st @ map (\<lambda>r. \<lparr>tx_port = ref_no r, tx_class = 0, tx_data = buf\<rparr>)
      (filter (forwards env buf in_port flood st) rs)"
  using assms
proof (induction rs arbitrary: st)
  case Nil
  then show ?case by simp
next
  case (Cons r rs)
  then obtain p where p: "port_at st r = Some p" by auto
  have po: "port_ok r p" using ports_ok_portD [OF Cons.prems(1) p] .
  then obtain dev where dev: "p_netdev p = Some dev" by (auto simp: port_ok_def)
  have no: "pc_port_no (p_conf p) = ref_no r" "ps_port_no (p_stats p) = ref_no r"
    using po by (simp_all add: port_ok_def)
  define skip where "skip \<longleftrightarrow> ref_no r = in_port \<or>
    (in_port = OFPP_LOCAL \<and> pc_name (p_conf p) = pc_name (p_conf (the (local_port st)))) \<or>
    (flood \<and> pc_config (p_conf p) AND OFPPC_NO_FWD \<noteq> 0)"
  define st1 where "st1 = (if skip then st else dp_ports_output env buf (ref_no r) 0 st)"
  have walk: "output_walk env buf in_port flood (r # rs) st = output_walk env buf in_port flood rs st1"
  proof (cases "in_port = OFPP_LOCAL")
    case True
    then obtain l where "local_port st = Some l" using Cons.prems(4) by auto
    with True show ?thesis using p no by (simp add: skip_def st1_def)
  next
    case False
    then show ?thesis using p no by (simp add: skip_def st1_def)
  qed
  have sc: "same_conf st st1" by (simp add: st1_def same_conf_output)
  have fw: "forwards env buf in_port flood st r \<longleftrightarrow> \<not> skip \<and>
      pc_config (p_conf p) AND OFPPC_PORT_DOWN = 0 \<and> nd_send env dev buf 0 = 0"
    using p dev by (auto simp: forwards_def skip_def)
  have tx: "transmitted st1 = transmitted st @ map (\<lambda>r. \<lparr>tx_port = ref_no r, tx_class = 0, tx_data = buf\<rparr>)
      (filter (forwards env buf in_port flood st) [r])"
    using transmitted_output [OF Cons.prems(1) p dev] fw by (simp add: st1_def)
  have dom: "port_at st1 r' = None \<longleftrightarrow> port_at st r' = None" for r'
    using sc [unfolded same_conf_def, rule_format, of r'] by (cases "port_at st r'") auto
  have ok1: "ports_ok st1" using Cons.prems(1) by (simp add: st1_def)
  have sub: "set rs \<subseteq> {r. port_at st1 r \<noteq> None}" using Cons.prems(3) dom by auto
  have loc: "in_port = OFPP_LOCAL \<longrightarrow> local_port st1 \<noteq> None"
    using Cons.prems(4) dom [of LocalPort] by (simp add: port_at_local)
  have dis: "distinct rs" using Cons.prems(2) by simp
  obtain st' where st': "output_walk env buf in_port flood rs st1 = Some st'"
    "ports_ok st'" "same_conf st1 st'"
    "transmitted st' = transmitted st1 @ map (\<lambda>r. \<lparr>tx_port = ref_no r, tx_class = 0, tx_data = buf\<rparr>)
      (filter (forwards env buf in_port flood st1) rs)"
    using Cons.IH [OF ok1 dis sub loc] by blast
  have f: "filter (forwards env buf in_port flood st1) rs = filter (forwards env buf in_port flood st) rs"
    by (rule filter_cong [OF refl]) (rule forwards_same_conf [OF sc Cons.prems(4)])
  show ?case
    using walk st'(1) st'(2) same_conf_trans [OF sc st'(3)] st'(4) [unfolded f tx]
    by (intro exI [of _ st']) simp
qed


lemma count_update:
  "i < length qs \<Longrightarrow> length (filter P (qs[i := x])) + (if P (qs ! i) then 1 else 0) =
     length (filter P qs) + (if P x then 1 else 0)"
proof (induction qs arbitrary: i)
  case Nil
  then show ?case by simp
next
  case (Cons q qs)
  then show ?case by (cases i) auto
qed

lemma unat_ucast_u16 [simp]: "unat (ucast (w :: u16) :: u32) = unat w"
proof -
  have "unat w < 2 ^ 16" using unsigned_less [of w] by simp
  then show ?thesis by (simp add: unsigned_ucast_eq take_bit_nat_eq_self)
qed

lemma lookup_queue_iff:
  assumes "queues_ok p"
  shows "dp_ports_lookup_queue p k = Some q \<longleftrightarrow> unat k < 8 \<and> p_queues p ! unat k = Some q"
proof -
  have "k < ucast (p_max_queues p) \<longleftrightarrow> unat k < unat (p_max_queues p)"
    by (simp add: word_less_nat_alt)
  moreover have "unat k < unat (p_max_queues p)" if "unat k < 8" "p_queues p ! unat k = Some q"
    using assms that by (auto simp: queues_ok_def queue_ok_def)
  ultimately show ?thesis using assms by (auto simp: dp_ports_lookup_queue_def queues_ok_def)
qed

lemma port_ok_new_queue:
  assumes ok: "port_ok r p" and i: "unat k < unat (p_max_queues p)" and free: "p_queues p ! unat k = None"
  shows "port_ok r (new_queue now p k (ucast k) rate)"
proof -
  let ?p = "new_queue now p k (ucast k) rate"
  have q: "queues_ok p" using ok by (simp add: port_ok_def)
  have i8: "unat k < 8" using q i by (simp add: queues_ok_def)
  have "unat (p_num_queues p) = length (filter (\<lambda>q. q \<noteq> None) (p_queues p))" "length (p_queues p) = 8"
    using q by (simp_all only: queues_ok_def)
  then have "unat (p_num_queues p + 1) = Suc (unat (p_num_queues p))"
    using length_filter_le [of "\<lambda>q. q \<noteq> None" "p_queues p"]
    by (simp add: unat_word_ariths(1) del: not_None_eq)
  moreover have "length (filter (\<lambda>q. q \<noteq> None) (p_queues ?p)) = Suc (length (filter (\<lambda>q. q \<noteq> None) (p_queues p)))"
    using count_update [of "unat k" "p_queues p" "\<lambda>q. q \<noteq> None"] q i8 free
    by (simp add: new_queue_def Let_def queues_ok_def)
  moreover have "queue_ok ?p j" if "j < 8" for j
  proof (cases "j = unat k")
    case True
    have "(ucast k :: u16) = of_nat (unat k)" by simp
    then show ?thesis using True i i8 q by (simp add: queue_ok_def new_queue_def Let_def queues_ok_def)
  next
    case False
    then show ?thesis using q that by (simp add: queue_ok_def new_queue_def Let_def queues_ok_def)
  qed
  ultimately have "queues_ok ?p" using q by (simp add: queues_ok_def new_queue_def Let_def)
  then show ?thesis using ok by (simp add: port_ok_def new_queue_def Let_def port_in_use_def)
qed

lemma port_ok_delete_queue:
  assumes ok: "port_ok r p" and i: "unat k < 8" and used: "p_queues p ! unat k = Some q"
  shows "port_ok r (port_delete_queue p k)"
proof -
  let ?p = "port_delete_queue p k"
  have q: "queues_ok p" using ok by (simp add: port_ok_def)
  have c: "Suc (length (filter (\<lambda>q. q \<noteq> None) (p_queues ?p))) = length (filter (\<lambda>q. q \<noteq> None) (p_queues p))"
    using count_update [of "unat k" "p_queues p" "\<lambda>q. q \<noteq> None" None] q i used
    by (simp add: port_delete_queue_def queues_ok_def)
  have n: "unat (p_num_queues p) = length (filter (\<lambda>q. q \<noteq> None) (p_queues p))"
    using q by (simp only: queues_ok_def)
  then have "1 \<le> p_num_queues p" using c by (simp add: word_le_nat_alt del: not_None_eq)
  then have "unat (p_num_queues p - 1) = unat (p_num_queues p) - 1" by (simp add: unat_sub)
  then have "unat (p_num_queues ?p) = length (filter (\<lambda>q. q \<noteq> None) (p_queues ?p))"
    using c n by (simp add: port_delete_queue_def del: not_None_eq)
  moreover have "queue_ok ?p j" if "j < 8" for j
    using q that i by (cases "j = unat k") (auto simp: queue_ok_def port_delete_queue_def queues_ok_def)
  ultimately have "queues_ok ?p" using q by (simp add: queues_ok_def port_delete_queue_def)
  then show ?thesis using ok by (simp add: port_ok_def port_delete_queue_def port_in_use_def)
qed

lemma port_ok_queues_update: "port_ok r p \<Longrightarrow> port_ok r (port_queues_update now k p)"
proof -
  have "port_ok r p \<Longrightarrow> port_ok r (p\<lparr>p_queues :=
      fold (\<lambda>i qs. qs[i := map_option (dp_ports_queue_update now) (qs ! i)]) is (p_queues p)\<rparr>)" for "is"
  proof (induction "is" arbitrary: p)
    case Nil
    then show ?case by simp
  next
    case (Cons i "is")
    have "q_queue_id (dp_ports_queue_update now q) = q_queue_id q"
      "q_class_id (dp_ports_queue_update now q) = q_class_id q" for q
      by (simp_all add: dp_ports_queue_update_def)
    then show ?case
      using Cons.IH [OF port_ok_queue_map [OF Cons.prems, of "dp_ports_queue_update now" i]] by simp
  qed
  then show "port_ok r p \<Longrightarrow> port_ok r (port_queues_update now k p)" by (simp add: port_queues_update_def)
qed

lemma update_walk_ok:
  assumes "ports_ok st" "\<And>r p. port_ok r p \<Longrightarrow> port_ok r (f p)" "set rs \<subseteq> {r. port_at st r \<noteq> None}"
  shows "\<exists>st'. update_walk f rs st = Some st' \<and> ports_ok st'"
  using assms(1,3)
proof (induction rs arbitrary: st)
  case Nil
  then show ?case by simp
next
  case (Cons r rs)
  then obtain p where p: "port_at st r = Some p" by auto
  have "ports_ok (set_port r (f p) st)"
    using ports_ok_set_port [OF Cons.prems(1) p] assms(2) ports_ok_portD [OF Cons.prems(1) p] by blast
  moreover have "set rs \<subseteq> {r'. port_at (set_port r (f p) st) r' \<noteq> None}" using Cons.prems(2) by auto
  ultimately show ?case using Cons.IH p by simp
qed


lemma first_free_used:
  "(\<And>i. i \<in> set xs \<Longrightarrow> \<exists>p. dp_ports st i = Some p \<and> p_netdev p \<noteq> None) \<Longrightarrow>
   first_free st (xs @ ys) = first_free st ys"
proof (induction xs)
  case Nil
  then show ?case by simp
next
  case (Cons x xs)
  then obtain p where "dp_ports st x = Some p" "p_netdev p \<noteq> None" by (metis list.set_intros(1))
  moreover have "first_free st (xs @ ys) = first_free st ys"
    by (rule Cons.IH) (rule Cons.prems, simp)
  ultimately show ?case by (cases "p_netdev p") simp_all
qed

lemma first_free_next:
  assumes ok: "ports_ok st" and dom: "\<And>i. dp_ports st i \<noteq> None \<longleftrightarrow> 1 \<le> i \<and> i \<le> n" and n: "n < DP_MAX_PORTS"
  shows "first_free st [1..<DP_MAX_PORTS] = (if Suc n < DP_MAX_PORTS then Some (Suc n) else None)"
proof -
  have used: "\<exists>p. dp_ports st i = Some p \<and> p_netdev p \<noteq> None" if "i \<in> set [1..<Suc n]" for i
  proof -
    obtain p where "dp_ports st i = Some p" using dom [of i] \<open>i \<in> set [1..<Suc n]\<close> by auto
    then show ?thesis using ports_ok_portD [OF ok, of "PhysPort i" p] by (auto simp: port_at_def port_ok_def)
  qed
  have "[1..<DP_MAX_PORTS] = [1..<Suc n] @ [Suc n..<DP_MAX_PORTS]"
    using upt_add_eq_append [of 1 "Suc n" "DP_MAX_PORTS - Suc n"] n by simp
  then have "first_free st [1..<DP_MAX_PORTS] = first_free st ([1..<Suc n] @ [Suc n..<DP_MAX_PORTS])"
    by (rule arg_cong)
  also have "\<dots> = first_free st [Suc n..<DP_MAX_PORTS]"
    by (rule first_free_used) (rule used)
  also have "\<dots> = (if Suc n < DP_MAX_PORTS then Some (Suc n) else None)"
    using dom [of "Suc n"] by (cases "Suc n < DP_MAX_PORTS") (simp_all add: upt_conv_Cons)
  finally show ?thesis .
qed

lemma new_port_fresh:
  assumes ok: "ports_ok st" and r: "port_at st r = None" and no: "ref_no r = k"
    and place: "(r = LocalPort) \<or> (\<exists>n. r = PhysPort (Suc n) \<and> Suc n < DP_MAX_PORTS \<and>
       (\<forall>i. dp_ports st i \<noteq> None \<longleftrightarrow> 1 \<le> i \<and> i \<le> n))"
    and p: "port_ok r p"
  shows "ports_ok ((set_port r p st)\<lparr>port_list := port_list st @ [r], ports_num := ports_num st + 1\<rparr>)"
proof -
  let ?st = "(set_port r p st)\<lparr>port_list := port_list st @ [r], ports_num := ports_num st + 1\<rparr>"
  have at: "port_at ?st r' = (if r' = r then Some p else port_at st r')" for r'
    by (auto simp: port_at_def set_port_def split: port_ref.splits)
  from ok obtain n where n: "n < DP_MAX_PORTS" "\<forall>i. dp_ports st i \<noteq> None \<longleftrightarrow> 1 \<le> i \<and> i \<le> n"
    "ports_num st = of_nat (n + (if local_port st = None then 0 else 1))"
    by (auto simp: ports_ok_def)
  have "\<exists>m < DP_MAX_PORTS. (\<forall>i. dp_ports ?st i \<noteq> None \<longleftrightarrow> 1 \<le> i \<and> i \<le> m) \<and>
        ports_num ?st = of_nat (m + (if local_port ?st = None then 0 else 1))"
  proof (cases r)
    case LocalPort
    then show ?thesis using n r by (intro exI [of _ n]) (simp add: set_port_def port_at_local)
  next
    case (PhysPort i)
    then obtain m where m: "i = Suc m" "Suc m < DP_MAX_PORTS"
      "\<forall>i. dp_ports st i \<noteq> None \<longleftrightarrow> 1 \<le> i \<and> i \<le> m" using place by auto
    then have "m = n" using n(2) [rule_format, of "Suc m"] m(3) [rule_format, of "Suc m"]
        n(2) [rule_format, of "Suc n"] m(3) [rule_format, of "Suc n"] by simp
    then show ?thesis using n m PhysPort
      by (intro exI [of _ "Suc m"]) (auto simp: set_port_def le_Suc_eq)
  qed
  moreover have "distinct (port_list ?st)" "set (port_list ?st) = {r. port_at ?st r \<noteq> None}"
    using ok r at by (auto simp: ports_ok_def)
  moreover have "\<forall>r' p'. port_at ?st r' = Some p' \<longrightarrow> port_ok r' p'"
    using ok p at by (auto simp: ports_ok_def)
  ultimately show ?thesis unfolding ports_ok_def by blast
qed

lemma filter_replicate_None: "filter (\<lambda>q. q \<noteq> None) (replicate n None) = []"
  by simp

lemma new_port_ok:
  assumes ok: "ports_ok st" and r: "port_at st r = None" and no: "ref_no r = k"
    and place: "(r = LocalPort) \<or> (\<exists>n. r = PhysPort (Suc n) \<and> Suc n < DP_MAX_PORTS \<and>
       (\<forall>i. dp_ports st i \<noteq> None \<longleftrightarrow> 1 \<le> i \<and> i \<le> n))"
  shows "ports_ok (snd (new_port env now r k name queues st))"
proof -
  have "unat (min queues NETDEV_MAX_QUEUES) \<le> 8"
    by (cases "queues \<le> NETDEV_MAX_QUEUES") (auto simp: NETDEV_MAX_QUEUES_def word_le_nat_alt min_def)
  then have q8: "unat (ucast (min queues NETDEV_MAX_QUEUES) :: u16) \<le> 8"
    by (simp add: unsigned_ucast_eq take_bit_nat_eq_self)
  have new: "port_ok r (dp_port_live_update \<lparr>p_flags = SWP_USED, p_netdev = Some name, p_conf = c,
      p_stats = zero_port_stats k, p_max_queues = ucast (min queues NETDEV_MAX_QUEUES), p_num_queues = 0,
      p_created = now, p_queues = replicate (unat NETDEV_MAX_QUEUES) None\<rparr>)" if "pc_port_no c = k" for c
    using that no q8
    by (simp add: port_ok_def dp_port_live_update_def port_in_use_def SWP_USED_def zero_port_stats_def
        queues_ok_def queue_ok_def NETDEV_MAX_QUEUES_def)
  show ?thesis
    using ok new_port_fresh [OF ok r no place new] by (simp add: new_port_def Let_def)
qed


section \<open>Every state the switch can reach\<close>

definition ports_init :: "u32 \<Rightarrow> ports_state" where
  "ports_init mq =
    \<lparr>dp_ports = (\<lambda>i. None), local_port = None, port_list = [], ports_num = 0, max_queues = mq,
     port_sent = [], transmitted = []\<rparr>"

text \<open>The local port is removed from the end of the list of ports, whatever port is there; the
  step asks that it is the local one.\<close>

inductive port_step :: "ports_state \<Rightarrow> ports_state \<Rightarrow> bool" where
  add: "port_step st (snd (dp_ports_add env now name st))"
| add_local: "port_step st (snd (dp_ports_add_local env now name st))"
| remove_local: "last (port_list st) = LocalPort \<Longrightarrow> remove_local_port_UAH st = Some st' \<Longrightarrow> port_step st st'"
| out: "port_step st (dp_ports_output env buf k q st)"
| out_all: "dp_ports_output_all env buf k flood st = Some st' \<Longrightarrow> port_step st st'"
| run: "r \<in> set (port_list st) \<Longrightarrow> port_run l recv r st = Some (st', d) \<Longrightarrow> port_step st st'"
| port_mod: "dp_ports_handle_port_mod env m role st = Some (Inr st') \<Longrightarrow> port_step st st'"
| port_mod_uah: "dp_ports_handle_port_mod_UAH k st = Some (Inr st') \<Longrightarrow> port_step st st'"
| port_stats: "dp_ports_handle_stats_request_port now k st = Some st' \<Longrightarrow> port_step st st'"
| port_desc: "dp_ports_handle_port_desc_request st = Some st' \<Longrightarrow> port_step st st'"
| queue_stats: "dp_ports_handle_stats_request_queue now k q st = Some st' \<Longrightarrow> port_step st st'"
| queue_config: "dp_ports_handle_queue_get_config_request k st = Some (Inr st') \<Longrightarrow> port_step st st'"
| queue_modify: "dp_ports_handle_queue_modify env now k q rate st = Some (e, st') \<Longrightarrow> port_step st st'"
| queue_delete: "port_step st (snd (dp_ports_handle_queue_delete k q st))"

lemma ports_ok_init: "ports_ok (ports_init mq)"
  by (auto simp: ports_ok_def ports_init_def port_at_def DP_MAX_PORTS_def split: port_ref.splits
      intro!: exI [of _ 0])

lemma ports_ok_add: "ports_ok st \<Longrightarrow> ports_ok (snd (dp_ports_add env now name st))"
proof -
  assume ok: "ports_ok st"
  then obtain n where n: "n < DP_MAX_PORTS" "\<And>i. dp_ports st i \<noteq> None \<longleftrightarrow> 1 \<le> i \<and> i \<le> n"
    by (auto simp: ports_ok_def)
  have "ports_ok (snd (new_port env now (PhysPort (Suc n)) (of_nat (Suc n)) name (max_queues st) st))"
    if "Suc n < DP_MAX_PORTS"
  proof (rule new_port_ok [OF ok])
    show "port_at st (PhysPort (Suc n)) = None" using n(2) [of "Suc n"] by (auto simp: port_at_def)
    show "PhysPort (Suc n) = LocalPort \<or> (\<exists>m. PhysPort (Suc n) = PhysPort (Suc m) \<and>
        Suc m < DP_MAX_PORTS \<and> (\<forall>i. (dp_ports st i \<noteq> None) = (1 \<le> i \<and> i \<le> m)))"
      using that n(2) by blast
  qed simp
  then show ?thesis using ok first_free_next [OF ok n(2) n(1)]
    by (simp add: dp_ports_add_def)
qed

lemma ports_ok_add_local: "ports_ok st \<Longrightarrow> ports_ok (snd (dp_ports_add_local env now name st))"
  using new_port_ok [of st LocalPort OFPP_LOCAL]
  by (auto simp: dp_ports_add_local_def port_at_local split: option.split)

lemma ports_ok_remove_local:
  assumes ok: "ports_ok st" and l: "last (port_list st) = LocalPort"
    and st': "remove_local_port_UAH st = Some st'"
  shows "ports_ok st'"
proof -
  obtain p where p: "local_port st = Some p"
    and e: "st' = st\<lparr>port_list := butlast (port_list st), ports_num := ports_num st - 1, local_port := None\<rparr>"
    using st' by (auto simp: remove_local_port_UAH_def split: option.splits)
  have at: "port_at st' r = (if r = LocalPort then None else port_at st r)" for r
    using e by (auto simp: port_at_def split: port_ref.split)
  have ne: "port_list st \<noteq> []" using ok p port_at_local [of st] by (auto simp: ports_ok_def)
  have sp: "port_list st = butlast (port_list st) @ [LocalPort]" using l ne by (metis append_butlast_last_id)
  have d: "distinct (butlast (port_list st) @ [LocalPort])" using ok sp by (metis ports_ok_def)
  have "set (butlast (port_list st) @ [LocalPort]) = {r. port_at st r \<noteq> None}"
    using ok sp by (metis ports_ok_def)
  then have "set (port_list st') = {r. port_at st' r \<noteq> None}" using d e at by auto
  moreover have "distinct (port_list st')" using d e by simp
  moreover have "\<exists>n < DP_MAX_PORTS. (\<forall>i. dp_ports st' i \<noteq> None \<longleftrightarrow> 1 \<le> i \<and> i \<le> n) \<and>
        ports_num st' = of_nat (n + (if local_port st' = None then 0 else 1))"
    using ok p e by (auto simp: ports_ok_def)
  moreover have "\<forall>r p. port_at st' r = Some p \<longrightarrow> port_ok r p"
    using ok at by (auto simp: ports_ok_def)
  ultimately show ?thesis unfolding ports_ok_def by blast
qed

lemma ports_ok_run:
  assumes ok: "ports_ok st" and r: "port_run l recv r st = Some (st', d)"
  shows "ports_ok st'"
proof -
  obtain p where p: "port_at st r = Some p" using r by (auto simp: port_run_def split: option.splits)
  have po: "port_ok r p" using ports_ok_portD [OF ok p] .
  have lo: "port_ok r (port_link_update l p)"
    using po port_ok_config [OF po] by (simp add: port_link_update_def split: link_state.split)
  have ok1: "ports_ok (set_port r (port_link_update l p) st)" using ports_ok_set_port [OF ok p lo] .
  have ro: "port_ok r (port_received n (port_link_update l p))" for n
    using port_ok_stats [OF lo] by (simp add: port_received_def)
  have "ports_ok (set_port r (port_received n (port_link_update l p)) (set_port r (port_link_update l p) st))" for n
    by (rule ports_ok_set_port [OF ok1 _ ro]) simp
  then show ?thesis using r p ok1 by (auto simp: port_run_def Let_def split: if_splits option.splits)
qed

lemma ports_ok_port_mod:
  assumes ok: "ports_ok st" and r: "dp_ports_handle_port_mod env m role st = Some (Inr st')"
  shows "ports_ok st'"
  using r ok ports_ok_set_port [OF ok] port_ok_config [OF ports_ok_portD [OF ok]] ports_ok_portD [OF ok]
  by (auto simp: dp_ports_handle_port_mod_def Let_def split: if_splits option.splits)

lemma ports_ok_port_stats:
  assumes ok: "ports_ok st" and r: "dp_ports_handle_stats_request_port now k st = Some st'"
  shows "ports_ok st'"
proof -
  have f: "port_ok r p \<Longrightarrow> port_ok r (dp_port_stats_update now p)" for r p
    unfolding dp_port_stats_update_def by (rule port_ok_stats) simp_all
  have "\<exists>st1. update_walk (dp_port_stats_update now) (port_list st) st = Some st1 \<and> ports_ok st1"
    by (rule update_walk_ok [OF ok f]) (use ok in \<open>auto simp: ports_ok_list\<close>)
  then show ?thesis using r ok f ports_ok_set_port [OF ok] ports_ok_portD [OF ok]
    by (auto simp: dp_ports_handle_stats_request_port_def Let_def bind_eq_Some_conv split: if_splits option.splits)
qed

lemma ports_ok_queue_stats:
  assumes ok: "ports_ok st" and r: "dp_ports_handle_stats_request_queue now k q st = Some st'"
  shows "ports_ok st'"
proof -
  have "\<exists>st1. update_walk (port_queues_update now q) (port_list st) st = Some st1 \<and> ports_ok st1"
    by (rule update_walk_ok [OF ok port_ok_queues_update]) (use ok in \<open>auto simp: ports_ok_list\<close>)
  then show ?thesis using r ok port_ok_queues_update ports_ok_set_port [OF ok] ports_ok_portD [OF ok]
    by (auto simp: dp_ports_handle_stats_request_queue_def Let_def bind_eq_Some_conv split: if_splits option.splits)
qed


lemma port_ok_set_rate:
  assumes ok: "port_ok r p" and q: "p_queues p ! i = Some q" and i: "i < 8"
  shows "port_ok r (p\<lparr>p_queues := (p_queues p)[i := Some (q\<lparr>q_rate := rate\<rparr>)]\<rparr>)"
  using port_ok_queue_map [OF ok, of "\<lambda>q. q\<lparr>q_rate := rate\<rparr>" i] q by simp

text \<open>The cases of \<open>dp_ports_handle_queue_modify\<close> on a port that exists.\<close>

lemma queue_modify_cases:
  assumes ok: "ports_ok st" and p: "port_at st r = Some p" and dev: "p_netdev p = Some dev"
  shows "dp_ports_handle_queue_modify env now (ref_no r) k rate st = Some
    (if unat k < 8 \<and> p_queues p ! unat k \<noteq> None then
       (let q = the (p_queues p ! unat k)
        in if nd_change_class env dev (q_class_id q) rate \<noteq> 0 then (Some OFPQOFC_EPERM, st)
           else (None, set_port r (p\<lparr>p_queues := (p_queues p)[unat k := Some (q\<lparr>q_rate := rate\<rparr>)]\<rparr>) st))
     else if unat (p_max_queues p) \<le> unat k then (Some OFPQOFC_EPERM, st)
     else (if nd_setup_class env dev (ucast k) rate \<noteq> 0 then Some OFPQOFC_BAD_QUEUE else None,
           set_port r (new_queue now p k (ucast k) rate) st))"
proof -
  have q: "queues_ok p" and u: "port_in_use p"
    using ports_ok_portD [OF ok p] by (simp_all add: port_ok_def)
  have m8: "unat (p_max_queues p) \<le> 8" using q by (simp add: queues_ok_def)
  have b: "Option.bind (dp_ports_lookup st (ref_no r)) (\<lambda>r. map_option (Pair r) (port_at st r)) = Some (r, p)"
    using dp_ports_lookup_ref [OF ok p] p by simp
  show ?thesis
  proof (cases "unat k < 8 \<and> p_queues p ! unat k \<noteq> None")
    case True
    then obtain q0 where q0: "p_queues p ! unat k = Some q0" by auto
    then have "dp_ports_lookup_queue p k = Some q0" using True lookup_queue_iff [OF q] by simp
    then show ?thesis unfolding dp_ports_handle_queue_modify_def b using u dev True q0 by (simp add: Let_def)
  next
    case False
    then have n: "dp_ports_lookup_queue p k = None" using lookup_queue_iff [OF q] by (metis option.exhaust)
    have le: "ucast (p_max_queues p) \<le> k \<longleftrightarrow> unat (p_max_queues p) \<le> unat k"
      by (simp add: word_le_nat_alt)
    have "p_queues p ! unat k = None" if "\<not> unat (p_max_queues p) \<le> unat k" using False that m8 by auto
    then show ?thesis unfolding dp_ports_handle_queue_modify_def b
      using u dev n False le by (auto simp: Let_def port_add_queue_def EXFULL_def)
  qed
qed

lemma lookup_bind_cases:
  assumes "ports_ok st"
  shows "dp_ports_lookup st k = None \<or> (\<exists>r p dev. dp_ports_lookup st k = Some r \<and> k = ref_no r \<and>
    port_at st r = Some p \<and> p_netdev p = Some dev)"
proof (cases "dp_ports_lookup st k")
  case (Some r)
  then have "port_at st r \<noteq> None" "ref_no r = k" using dp_ports_lookup_iff [OF assms] by simp_all
  then obtain p where p: "port_at st r = Some p" by auto
  then have "p_netdev p \<noteq> None" using ports_ok_portD [OF assms p] by (simp add: port_ok_def)
  with Some p \<open>ref_no r = k\<close> show ?thesis by auto
qed simp

lemma ports_ok_queue_modify:
  assumes ok: "ports_ok st" and m: "dp_ports_handle_queue_modify env now k q rate st = Some (e, st')"
  shows "ports_ok st'"
  using lookup_bind_cases [OF ok, of k]
proof (elim disjE exE conjE)
  assume "dp_ports_lookup st k = None"
  then show ?thesis using m ok by (simp add: dp_ports_handle_queue_modify_def)
next
  fix r p dev
  assume k: "k = ref_no r" and p: "port_at st r = Some p" and dev: "p_netdev p = Some dev"
  have po: "port_ok r p" using ports_ok_portD [OF ok p] .
  then have m8: "unat (p_max_queues p) \<le> 8" by (simp add: port_ok_def queues_ok_def)
  have 1: "ports_ok (set_port r (p\<lparr>p_queues := (p_queues p)[unat q := Some (q0\<lparr>q_rate := rate\<rparr>)]\<rparr>) st)"
    if "unat q < 8" "p_queues p ! unat q = Some q0" for q0
    using ports_ok_set_port [OF ok p port_ok_set_rate [OF po that(2) that(1)]] .
  have 2: "ports_ok (set_port r (new_queue now p q (ucast q) rate) st)"
    if "unat q < unat (p_max_queues p)" "p_queues p ! unat q = None"
    using ports_ok_set_port [OF ok p port_ok_new_queue [OF po that]] .
  show ?thesis
    using m [unfolded k queue_modify_cases [OF ok p dev]] ok 1 2 m8
    by (auto simp: Let_def not_le split: if_splits)
qed

lemma ports_ok_queue_delete:
  assumes ok: "ports_ok st"
  shows "ports_ok (snd (dp_ports_handle_queue_delete k q st))"
  using lookup_bind_cases [OF ok, of k]
proof (elim disjE exE conjE)
  assume "dp_ports_lookup st k = None"
  then show ?thesis using ok by (simp add: dp_ports_handle_queue_delete_def)
next
  fix r p dev
  assume l: "dp_ports_lookup st k = Some r" and p: "port_at st r = Some p" and dev: "p_netdev p = Some dev"
  have po: "port_ok r p" using ports_ok_portD [OF ok p] .
  then have qo: "queues_ok p" by (simp add: port_ok_def)
  have "ports_ok (set_port r (port_delete_queue p q) st)" if "dp_ports_lookup_queue p q = Some q0" for q0
    using that lookup_queue_iff [OF qo] ports_ok_set_port [OF ok p port_ok_delete_queue [OF po]] by blast
  then show ?thesis using l p dev ok
    by (simp add: dp_ports_handle_queue_delete_def split: option.split)
qed

lemma ports_ok_output_walk:
  "output_walk env buf k flood rs st = Some st' \<Longrightarrow> ports_ok st \<Longrightarrow> ports_ok st'"
  by (induction rs arbitrary: st) (auto split: option.splits if_splits)

lemma ports_ok_step:
  assumes "port_step st st'" and ok: "ports_ok st"
  shows "ports_ok st'"
  using assms(1)
proof cases
  case (out_all env buf k flood)
  then show ?thesis using ok by (auto simp: dp_ports_output_all_def intro: ports_ok_output_walk)
next
  case (port_mod_uah k)
  then show ?thesis using ok by (auto simp: dp_ports_handle_port_mod_UAH_def split: option.splits)
next
  case port_desc
  then show ?thesis using ok by (auto simp: dp_ports_handle_port_desc_request_def split: if_splits)
next
  case (queue_config k)
  then show ?thesis using ok
    by (auto simp: dp_ports_handle_queue_get_config_request_def Let_def split: if_splits option.splits)
qed (use ok in \<open>auto intro: ports_ok_add ports_ok_add_local ports_ok_remove_local ports_ok_run
    ports_ok_port_mod ports_ok_port_stats ports_ok_queue_stats ports_ok_queue_modify
    ports_ok_queue_delete\<close>)


lemma ports_ok_reachable: "port_step\<^sup>*\<^sup>* (ports_init mq) st \<Longrightarrow> ports_ok st"
  by (induction rule: rtranclp_induct) (auto intro: ports_ok_init ports_ok_step)

lemma ports_no_fault:
  assumes ok: "ports_ok st"
  shows "dp_ports_handle_port_mod env m role st \<noteq> None" "dp_ports_handle_port_mod_UAH k st \<noteq> None"
    "dp_ports_handle_stats_request_port now k st \<noteq> None" "dp_ports_handle_port_desc_request st \<noteq> None"
    "dp_ports_handle_stats_request_queue now k q st \<noteq> None"
    "dp_ports_handle_queue_get_config_request k st \<noteq> None"
    "dp_ports_handle_queue_modify env now k q rate st \<noteq> None"
proof -
  have all: "list_all (\<lambda>r. port_at st r \<noteq> None) (port_list st)"
    using ok by (simp add: list_all_iff ports_ok_def)
  have sub: "set (port_list st) \<subseteq> {r. port_at st r \<noteq> None}" using ok by (simp add: ports_ok_def)
  have w: "update_walk f (port_list st) st \<noteq> None" if "\<And>r p. port_ok r p \<Longrightarrow> port_ok r (f p)" for f
    using update_walk_ok [OF ok _ sub, of f] that by auto
  have s: "port_ok r p \<Longrightarrow> port_ok r (dp_port_stats_update now p)" for r p
    unfolding dp_port_stats_update_def by (rule port_ok_stats) simp_all
  note c = lookup_bind_cases [OF ok, of k]
  show "dp_ports_handle_port_mod env m role st \<noteq> None"
    using lookup_bind_cases [OF ok, of "pm_port_no m"]
    by (auto simp: dp_ports_handle_port_mod_def Let_def)
  show "dp_ports_handle_port_mod_UAH k st \<noteq> None"
    using c by (auto simp: dp_ports_handle_port_mod_UAH_def)
  show "dp_ports_handle_stats_request_port now k st \<noteq> None"
    using w [of "dp_port_stats_update now"] s by (auto simp: dp_ports_handle_stats_request_port_def Let_def split: option.splits)
  show "dp_ports_handle_port_desc_request st \<noteq> None"
    using all by (simp add: dp_ports_handle_port_desc_request_def)
  show "dp_ports_handle_stats_request_queue now k q st \<noteq> None"
    using w [of "port_queues_update now q"] port_ok_queues_update
    by (auto simp: dp_ports_handle_stats_request_queue_def Let_def split: option.splits)
  show "dp_ports_handle_queue_get_config_request k st \<noteq> None"
    using all c by (auto simp: dp_ports_handle_queue_get_config_request_def Let_def)
  show "dp_ports_handle_queue_modify env now k q rate st \<noteq> None"
    using c
  proof (elim disjE exE conjE)
    assume "dp_ports_lookup st k = None"
    then show ?thesis by (simp add: dp_ports_handle_queue_modify_def)
  next
    fix r p dev
    assume "k = ref_no r" "port_at st r = Some p" "p_netdev p = Some dev"
    then show ?thesis using queue_modify_cases [OF ok] by simp
  qed
qed


definition ex_env :: netdev_env where
  "ex_env = \<lparr>nd_open = (\<lambda>n. 0), nd_etheraddr = (\<lambda>n. [2, 0, 0, 0, 0, 1]), nd_set_flags = (\<lambda>n. 0),
     nd_setup_slicing = (\<lambda>n k. 0), nd_features = (\<lambda>n k. 0x20), nd_send = (\<lambda>n b c. 0),
     nd_setup_class = (\<lambda>n c k. 0), nd_change_class = (\<lambda>n c k. 0)\<rparr>"

definition ex_ports :: ports_state where
  "ex_ports = snd (dp_ports_add ex_env 0 ''e2'' (snd (dp_ports_add ex_env 0 ''e1'' (ports_init 8))))"

lemma ex_ports_reachable: "port_step\<^sup>*\<^sup>* (ports_init 8) ex_ports"
  unfolding ex_ports_def by (rule rtranclp.rtrancl_into_rtrancl [OF rtranclp.rtrancl_into_rtrancl
    [OF rtranclp.rtrancl_refl]]) (rule port_step.add)+



text \<open>C26. Flooding, and sending to all ports, transmits the frame once on every port but the one it
  came from, in the order of the list: ports that are down are left out, ports with forwarding
  disabled too when flooding, and so is the physical port behind the local port when the frame
  came from the local port.  No other frame is sent.\<close>

theorem flood_frames:
  assumes "port_step\<^sup>*\<^sup>* (ports_init mq) st" and "in_port = OFPP_LOCAL \<longrightarrow> local_port st \<noteq> None"
  shows "\<exists>st'. dp_ports_output_all env buf in_port flood st = Some st' \<and>
    transmitted st' = transmitted st @ map (\<lambda>r. \<lparr>tx_port = ref_no r, tx_class = 0, tx_data = buf\<rparr>)
      (filter (forwards env buf in_port flood st) (port_list st))"
proof -
  have ok: "ports_ok st" using ports_ok_reachable [OF assms(1)] .
  then have d: "distinct (port_list st)" "set (port_list st) \<subseteq> {r. port_at st r \<noteq> None}"
    by (simp_all add: ports_ok_def)
  show ?thesis using output_walk_frames [OF ok d assms(2), of env buf flood]
    by (auto simp: dp_ports_output_all_def)
qed

theorem flood_frames_witness:
  "map_option transmitted (dp_ports_output_all ex_env [1, 2] 1 True ex_ports) =
     Some [\<lparr>tx_port = 2, tx_class = 0, tx_data = [1, 2]\<rparr>]"
proof -
  obtain st' where st': "dp_ports_output_all ex_env [1, 2] 1 True ex_ports = Some st'"
    "transmitted st' = transmitted ex_ports @ map (\<lambda>r. \<lparr>tx_port = ref_no r, tx_class = 0, tx_data = [1, 2]\<rparr>)
      (filter (forwards ex_env [1, 2] 1 True ex_ports) (port_list ex_ports))"
    using flood_frames [OF ex_ports_reachable, of 1 ex_env "[1, 2]" True] by (auto simp: OFPP_LOCAL_def)
  have "map_option (\<lambda>p. (p_netdev p, pc_config (p_conf p))) (port_at ex_ports (PhysPort 2)) =
      Some (Some ''e2'', 0)" "port_list ex_ports = [PhysPort 1, PhysPort 2]" "transmitted ex_ports = []"
    by code_simp+
  then have "filter (forwards ex_env [1, 2] 1 True ex_ports) (port_list ex_ports) = [PhysPort 2]"
    by (auto simp: forwards_def OFPP_LOCAL_def ex_env_def)
  with st' \<open>transmitted ex_ports = []\<close> show ?thesis by simp
qed

text \<open>C28. A port modification of a controller that is no slave, with the hardware address of the
  device, changes the configuration bits under the mask and no others, recomputes the live flag,
  leaves every other port alone and announces the new description.\<close>

theorem port_mod_changes_masked_bits:
  assumes "port_step\<^sup>*\<^sup>* (ports_init mq) st" and "port_at st r = Some p" and "p_netdev p = Some dev"
    and "pm_port_no m = ref_no r" and "take 6 (pm_hw_addr m) = take 6 (nd_etheraddr env dev)"
    and "role \<noteq> OFPCR_ROLE_SLAVE"
  shows "\<exists>st' p'. dp_ports_handle_port_mod env m role st = Some (Inr st') \<and>
    port_at st' = (port_at st)(r \<mapsto> p') \<and>
    (\<forall>i. bit (pc_config (p_conf p')) i =
       (if bit (pm_mask m) i then bit (pm_config m) i else bit (pc_config (p_conf p)) i)) \<and>
    (bit (pc_state (p_conf p')) 2 \<longleftrightarrow>
       \<not> bit (pc_state (p_conf p)) 0 \<and> \<not> bit (pc_config (p_conf p')) 0) \<and>
    port_sent st' = port_sent st @ [PortStatus OFPPR_MODIFY (p_conf p')]"
proof -
  have ok: "ports_ok st" using ports_ok_reachable [OF assms(1)] .
  define p' where "p' = (if pm_mask m \<noteq> 0 then dp_port_live_update (p\<lparr>p_conf := (p_conf p)\<lparr>pc_config :=
     (pc_config (p_conf p) AND NOT (pm_mask m)) OR (pm_config m AND pm_mask m)\<rparr>\<rparr>) else p)"
  define st' where "st' = send_port_msg (PortStatus OFPPR_MODIFY (p_conf p')) (set_port r p' st)"
  have "live_ok (p_conf p)" using ports_ok_portD [OF ok assms(2)] by (simp add: port_ok_def)
  moreover have "live_ok (p_conf p')" using \<open>live_ok (p_conf p)\<close> by (simp add: p'_def dp_port_live_update_def)
  moreover have "bit (pc_state (live_bits c)) 0 = bit (pc_state c) 0" for c
    by (simp add: live_bits_def bit_simps OFPPS_LIVE_def)
  then have "bit (pc_state (p_conf p')) 0 = bit (pc_state (p_conf p)) 0"
    by (simp add: p'_def dp_port_live_update_def)
  moreover have "bit (pc_config (p_conf p')) i =
       (if bit (pm_mask m) i then bit (pm_config m) i else bit (pc_config (p_conf p)) i)" for i
    by (auto simp: p'_def dp_port_live_update_def bit_simps dest: bit_imp_le_length)
  moreover have "port_at st' = (port_at st)(r \<mapsto> p')"
    by (auto simp: st'_def send_port_msg_def port_at_def set_port_def fun_eq_iff split: port_ref.splits)
  moreover have "dp_ports_handle_port_mod env m role st = Some (Inr st')"
    using assms dp_ports_lookup_ref [OF ok assms(2)]
    by (simp add: dp_ports_handle_port_mod_def Let_def st'_def p'_def)
  ultimately show ?thesis
    by (intro exI [of _ st'] exI [of _ p']) (simp add: st'_def send_port_msg_def live_ok_def flag_bits)
qed

definition ex_port_mod :: ofl_msg_port_mod where
  "ex_port_mod = \<lparr>pm_port_no = 2, pm_hw_addr = [2, 0, 0, 0, 0, 1], pm_config = 0x25, pm_mask = 0x21\<rparr>"

theorem port_mod_changes_masked_bits_witness:
  "\<exists>st' p'. dp_ports_handle_port_mod ex_env ex_port_mod OFPCR_ROLE_MASTER ex_ports = Some (Inr st') \<and>
    port_at st' (PhysPort 2) = Some p' \<and> bit (pc_config (p_conf p')) 0 \<and> bit (pc_config (p_conf p')) 5 \<and>
    \<not> bit (pc_config (p_conf p')) 2 \<and> \<not> bit (pc_state (p_conf p')) 2"
proof -
  have "map_option (\<lambda>p. (p_netdev p, pc_config (p_conf p))) (port_at ex_ports (PhysPort 2)) =
      Some (Some ''e2'', 0)" by code_simp
  then obtain p where p: "port_at ex_ports (PhysPort 2) = Some p" "p_netdev p = Some ''e2''"
    "pc_config (p_conf p) = 0" by auto
  have a: "pm_port_no ex_port_mod = ref_no (PhysPort 2)"
    "take 6 (pm_hw_addr ex_port_mod) = take 6 (nd_etheraddr ex_env ''e2'')"
    by (simp_all add: ex_port_mod_def ex_env_def)
  obtain st' p' where s:
    "dp_ports_handle_port_mod ex_env ex_port_mod OFPCR_ROLE_MASTER ex_ports = Some (Inr st')"
    "port_at st' = (port_at ex_ports)(PhysPort 2 \<mapsto> p')"
    "\<forall>i. bit (pc_config (p_conf p')) i = (if bit (pm_mask ex_port_mod) i then bit (pm_config ex_port_mod) i
       else bit (pc_config (p_conf p)) i)"
    "bit (pc_state (p_conf p')) 2 \<longleftrightarrow> \<not> bit (pc_state (p_conf p)) 0 \<and> \<not> bit (pc_config (p_conf p')) 0"
    using port_mod_changes_masked_bits [OF ex_ports_reachable p(1,2) a, of OFPCR_ROLE_MASTER] by blast
  have "bit (pc_config (p_conf p')) 0" "bit (pc_config (p_conf p')) 5" "\<not> bit (pc_config (p_conf p')) 2"
    using s(3) p(3) by (simp_all add: ex_port_mod_def)
  then show ?thesis using s(1,2,4) by (intro exI [of _ st'] exI [of _ p']) simp
qed

lemma queue_ids_all_length:
  assumes "queues_ok p"
  shows "length (queue_ids OFPQ_ALL p) = unat (p_num_queues p)"
proof -
  let ?P = "\<lambda>q :: sw_queue option. q \<noteq> None"
  have m: "unat (p_max_queues p) \<le> 8" "length (p_queues p) = 8" using assms by (simp_all add: queues_ok_def)
  have "filter (\<lambda>i. ?P (p_queues p ! i)) [unat (p_max_queues p)..<8] = []"
    using assms by (auto simp: filter_empty_conv queues_ok_def queue_ok_def)
  moreover have "[0..<8] = [0..<unat (p_max_queues p)] @ [unat (p_max_queues p)..<8]"
    using upt_add_eq_append [of 0 "unat (p_max_queues p)" "8 - unat (p_max_queues p)"] m by simp
  ultimately have "queue_ids OFPQ_ALL p = filter (\<lambda>i. ?P (p_queues p ! i)) [0..<length (p_queues p)]"
    unfolding queue_ids_def m by (simp only: filter_append append_Nil2 simp_thms if_True)
  moreover have "length (filter (\<lambda>i. ?P (p_queues p ! i)) [0..<length (p_queues p)]) =
      length (filter ?P (p_queues p))"
    using filter_map [of ?P "\<lambda>i. p_queues p ! i" "[0..<length (p_queues p)]"]
    by (simp add: map_nth comp_def)
  ultimately show ?thesis using assms by (simp only: queues_ok_def)
qed

lemma queue_props_in:
  assumes q: "queues_ok p" and k: "unat k < 8" and used: "p_queues p ! unat k = Some q0"
  shows "(k, q_rate q0) \<in> set (queue_props_of p)"
proof -
  have "q_queue_id q0 = k" "unat k < unat (p_max_queues p)"
    using q k used by (auto simp: queues_ok_def queue_ok_def)
  then show ?thesis using used by (force simp: queue_props_of_def queue_ids_def Let_def)
qed



section \<open>Removing the local port when it is not the last of the list\<close>

definition ex_local_first :: ports_state where
  "ex_local_first = snd (dp_ports_add ex_env 0 ''e2''
     (snd (dp_ports_add_local ex_env 0 ''e1'' (snd (dp_ports_add ex_env 0 ''e1'' (ports_init 8))))))"

lemma remove_local_keeps_freed_port:
  "map_option (\<lambda>st. (port_list st, port_at st LocalPort = None)) (remove_local_port_UAH ex_local_first) =
     Some ([PhysPort 1, LocalPort], True)"
  by code_simp

end
