(* ===== verification/Flow_Refs.thy ===== *)
theory Flow_Refs
  imports OF_Prelude
begin

text \<open>
  What the flow entries rely on in the groups and the meters they refer to: each keeps the list of
  the flows that refer to it, without repetition, and counts them in a 32-bit counter.
\<close>

locale flow_referrer =
  fixes refs :: "'e \<Rightarrow> addr list"
    and refs_count :: "'e \<Rightarrow> u32"
    and add_ref :: "addr \<Rightarrow> 'e \<Rightarrow> 'e"
    and del_ref :: "addr \<Rightarrow> 'e \<Rightarrow> 'e"
  assumes refs_add: "refs (add_ref fe e) = (if fe \<in> set (refs e) then refs e else refs e @ [fe])"
    and count_add: "refs_count (add_ref fe e) = (if fe \<in> set (refs e) then refs_count e else refs_count e + 1)"
    and refs_del: "distinct (refs e) \<Longrightarrow> refs (del_ref fe e) = remove1 fe (refs e)"
    and count_del: "distinct (refs e) \<Longrightarrow>
      refs_count (del_ref fe e) = (if fe \<in> set (refs e) then refs_count e - 1 else refs_count e)"
begin

lemma set_refs_add [simp]: "set (refs (add_ref fe e)) = insert fe (set (refs e))"
  by (auto simp: refs_add)

lemma distinct_refs_add: "distinct (refs e) \<Longrightarrow> distinct (refs (add_ref fe e))"
  by (simp add: refs_add)

lemma set_refs_del: "distinct (refs e) \<Longrightarrow> set (refs (del_ref fe e)) = set (refs e) - {fe}"
  by (simp add: refs_del)

lemma distinct_refs_del: "distinct (refs e) \<Longrightarrow> distinct (refs (del_ref fe e))"
  by (simp add: refs_del)

text \<open>The counter is the length of the list as long as both started that way.\<close>

lemma counted_add:
  "refs_count e = of_nat (length (refs e)) \<Longrightarrow> refs_count (add_ref fe e) = of_nat (length (refs (add_ref fe e)))"
  by (simp add: refs_add count_add)

lemma counted_del:
  assumes "distinct (refs e)" and "refs_count e = of_nat (length (refs e))"
  shows "refs_count (del_ref fe e) = of_nat (length (refs (del_ref fe e)))"
proof -
  have "of_nat (length xs - 1) = (of_nat (length xs) - 1 :: u32)" if "fe \<in> set xs" for xs :: "addr list"
    using that by (cases xs) auto
  then show ?thesis using assms by (simp add: refs_del count_del length_remove1)
qed

text \<open>Adding a reference that was not there and deleting it again restores the list and the counter.\<close>

lemma add_del_ref:
  "distinct (refs e) \<Longrightarrow> fe \<notin> set (refs e) \<Longrightarrow>
     refs (del_ref fe (add_ref fe e)) = refs e \<and> refs_count (del_ref fe (add_ref fe e)) = refs_count e"
  by (simp add: refs_del refs_add count_add count_del remove1_append)

end

end
