(* ===== verification/Group_Entry.thy ===== *)
theory Group_Entry
  imports Dp_Ports Packet_Buffers Flow_Refs
begin

text \<open>
  Group entries, \<^verbatim>\<open>udatapath/group_entry.c\<close>: creation, the references of flows, and the choice of
  a bucket.  A select group chooses by weighted round robin, a fast failover group takes the
  first live bucket.  The identity of a flow entry is its address.  The value \<open>-1\<close> of a bucket
  index is \<open>None\<close>.  The execution of a group, which runs the actions of its buckets, is in the
  theory of the pipeline.
\<close>

section \<open>Lists of actions\<close>

fun dp_actions_list_has_out_port :: "ofl_action list \<Rightarrow> u32 \<Rightarrow> bool" where
  "dp_actions_list_has_out_port [] port = False"
| "dp_actions_list_has_out_port (a # as) port =
    (case a of
       Output p l \<Rightarrow> if p = port then True else dp_actions_list_has_out_port as port
     | _ \<Rightarrow> dp_actions_list_has_out_port as port)"

fun dp_actions_list_has_out_group :: "ofl_action list \<Rightarrow> u32 \<Rightarrow> bool" where
  "dp_actions_list_has_out_group [] grp = False"
| "dp_actions_list_has_out_group (a # as) grp =
    (case a of
       Group g \<Rightarrow> if g = grp then True else dp_actions_list_has_out_group as grp
     | _ \<Rightarrow> dp_actions_list_has_out_group as grp)"

section \<open>Entries\<close>

record group_entry_wrr_data =
  max_weight :: u16
  gcd_weight :: u16
  curr_weight :: u16
  curr_bucket :: u64

record ofl_bucket_counter =
  bc_packet_count :: u64
  bc_byte_count :: u64

record ofl_group_desc_stats =
  gd_type :: group_type
  gd_group_id :: u32
  gd_buckets :: "ofl_bucket list"

record ofl_group_stats =
  gs_group_id :: u32
  gs_ref_count :: u32
  gs_packet_count :: u64
  gs_byte_count :: u64
  gs_counters :: "ofl_bucket_counter list"
  gs_duration_sec :: u32
  gs_duration_nsec :: u32

record group_entry =
  ge_desc :: ofl_group_desc_stats
  ge_stats :: ofl_group_stats
  ge_created :: nat
  ge_data :: "group_entry_wrr_data option"
  ge_flow_refs :: "addr list"

section \<open>Greatest common divisor\<close>

function gcd16 :: "u16 \<Rightarrow> u16 \<Rightarrow> u16" where
  "gcd16 a b = (if a \<noteq> 0 then gcd16 (b mod a) a else b)"
  by auto
termination
  by (relation "measure (\<lambda>(a, b). unat a)")
    (auto simp: word_less_nat_alt [symmetric] word_mod_less_divisor word_neq_0_conv)

declare gcd16.simps [simp del]

section \<open>Creation\<close>

text \<open>The loop of \<open>init_select_group\<close> over the buckets from the second on.\<close>

definition init_select_group :: "ofl_bucket list \<Rightarrow> group_entry_wrr_data" where
  "init_select_group bs =
    (case bs of
       [] \<Rightarrow> \<lparr>max_weight = 0, gcd_weight = 0, curr_weight = 0, curr_bucket = - 1\<rparr>
     | b # r \<Rightarrow>
        \<lparr>max_weight = foldl (\<lambda>m b. max m (weight b)) (weight b) r,
         gcd_weight = foldl (\<lambda>g b. gcd16 g (weight b)) (weight b) r,
         curr_weight = 0, curr_bucket = - 1\<rparr>)"

text \<open>\<open>created\<close> is left as the allocator returns it: the value is an argument.\<close>

definition group_entry_create :: "nat \<Rightarrow> ofl_msg_group_mod \<Rightarrow> group_entry" where
  "group_entry_create uninit m =
    \<lparr>ge_desc = \<lparr>gd_type = gm_type m, gd_group_id = gm_group_id m, gd_buckets = gm_buckets m\<rparr>,
     ge_stats = \<lparr>gs_group_id = gm_group_id m, gs_ref_count = 0, gs_packet_count = 0, gs_byte_count = 0,
                 gs_counters = replicate (length (gm_buckets m)) \<lparr>bc_packet_count = 0, bc_byte_count = 0\<rparr>,
                 gs_duration_sec = 0, gs_duration_nsec = 0\<rparr>,
     ge_created = uninit,
     ge_data = (if gm_type m = OFPGT_SELECT then Some (init_select_group (gm_buckets m)) else None),
     ge_flow_refs = []\<rparr>"

definition group_entry_update :: "nat \<Rightarrow> group_entry \<Rightarrow> group_entry" where
  "group_entry_update now e =
    e\<lparr>ge_stats := (ge_stats e)\<lparr>gs_duration_sec := dur_sec now (ge_created e),
                              gs_duration_nsec := dur_nsec now (ge_created e)\<rparr>\<rparr>"

section \<open>References of flows\<close>

definition group_has_flow_ref :: "group_entry \<Rightarrow> addr \<Rightarrow> bool" where
  "group_has_flow_ref e fe \<longleftrightarrow> list_ex (\<lambda>f. f = fe) (ge_flow_refs e)"

definition group_entry_has_out_group :: "group_entry \<Rightarrow> u32 \<Rightarrow> bool" where
  "group_entry_has_out_group e g \<longleftrightarrow>
     list_ex (\<lambda>b. dp_actions_list_has_out_group (actions b) g) (gd_buckets (ge_desc e))"

definition group_entry_add_flow_ref :: "addr \<Rightarrow> group_entry \<Rightarrow> group_entry" where
  "group_entry_add_flow_ref fe e =
    (if group_has_flow_ref e fe then e
     else e\<lparr>ge_flow_refs := ge_flow_refs e @ [fe],
            ge_stats := (ge_stats e)\<lparr>gs_ref_count := gs_ref_count (ge_stats e) + 1\<rparr>\<rparr>)"

text \<open>The walk that unlinks every reference to the flow and counts down for each.\<close>

definition group_entry_del_flow_ref :: "addr \<Rightarrow> group_entry \<Rightarrow> group_entry" where
  "group_entry_del_flow_ref fe e =
    fold (\<lambda>f e. if f = fe then e\<lparr>ge_flow_refs := remove1 f (ge_flow_refs e),
                                 ge_stats := (ge_stats e)\<lparr>gs_ref_count := gs_ref_count (ge_stats e) - 1\<rparr>\<rparr>
                else e) (ge_flow_refs e) e"

section \<open>Choice of a bucket\<close>

text \<open>A watched port that does not exist is a null pointer that is followed.\<close>

definition bucket_is_alive :: "ports_state \<Rightarrow> ofl_bucket \<Rightarrow> bool option" where
  "bucket_is_alive st b =
    (if watch_port b = OFPP_ANY then Some False
     else case Option.bind (dp_ports_lookup st (watch_port b)) (port_at st) of
            None \<Rightarrow> None
          | Some p \<Rightarrow> Some (pc_config (p_conf p) AND OFPPC_PORT_DOWN = 0 \<and>
                           pc_state (p_conf p) AND OFPPS_LINK_DOWN = 0))"

fun ff_walk :: "ports_state \<Rightarrow> nat \<Rightarrow> ofl_bucket list \<Rightarrow> nat option option" where
  "ff_walk st i [] = Some None"
| "ff_walk st i (b # bs) =
    (case bucket_is_alive st b of
       None \<Rightarrow> None
     | Some alive \<Rightarrow> if alive then Some (Some i) else ff_walk st (Suc i) bs)"

definition select_from_ff_group :: "ports_state \<Rightarrow> group_entry \<Rightarrow> nat option option" where
  "select_from_ff_group st e = ff_walk st 0 (gd_buckets (ge_desc e))"

text \<open>One round of the loop of \<open>select_from_select_group\<close>: the next bucket, and at the first bucket
  the next weight.\<close>

definition wrr_next :: "nat \<Rightarrow> group_entry_wrr_data \<Rightarrow> group_entry_wrr_data" where
  "wrr_next n d =
    (let d1 = d\<lparr>curr_bucket := (curr_bucket d + 1) mod of_nat n\<rparr>
     in if curr_bucket d1 = 0 then
          d1\<lparr>curr_weight := (if curr_weight d1 \<le> gcd_weight d1 then max_weight d1
                            else curr_weight d1 - gcd_weight d1)\<rparr>
        else d1)"

fun wrr_loop :: "ofl_bucket list \<Rightarrow> nat \<Rightarrow> group_entry_wrr_data \<Rightarrow> nat option \<times> group_entry_wrr_data" where
  "wrr_loop bs 0 d = (None, d)"
| "wrr_loop bs (Suc guard) d =
    (let d1 = wrr_next (length bs) d; i = unat (curr_bucket d1)
     in if curr_weight d1 \<le> weight (bs ! i) then (Some i, d1) else wrr_loop bs guard d1)"

text \<open>Without the private data, which only select groups have, the call follows a null pointer.\<close>

definition select_from_select_group :: "group_entry \<Rightarrow> (nat option \<times> group_entry) option" where
  "select_from_select_group e =
    (let bs = gd_buckets (ge_desc e)
     in if bs = [] then Some (None, e)
        else case ge_data e of
               None \<Rightarrow> None
             | Some d \<Rightarrow> (let (b, d1) = wrr_loop bs (length bs) d in Some (b, e\<lparr>ge_data := Some d1\<rparr>)))"

section \<open>References and their count\<close>

definition refs_ok :: "group_entry \<Rightarrow> bool" where
  "refs_ok e \<longleftrightarrow> distinct (ge_flow_refs e) \<and> gs_ref_count (ge_stats e) = of_nat (length (ge_flow_refs e))"

lemma group_has_flow_ref_iff: "group_has_flow_ref e fe \<longleftrightarrow> fe \<in> set (ge_flow_refs e)"
  by (auto simp: group_has_flow_ref_def list_ex_iff)

lemma add_flow_ref_refs [simp]:
  "ge_flow_refs (group_entry_add_flow_ref fe e) =
     (if fe \<in> set (ge_flow_refs e) then ge_flow_refs e else ge_flow_refs e @ [fe])"
  "ge_desc (group_entry_add_flow_ref fe e) = ge_desc e"
  by (simp_all add: group_entry_add_flow_ref_def group_has_flow_ref_iff)

lemma del_fold:
  "distinct (ge_flow_refs e) \<Longrightarrow> distinct xs \<Longrightarrow>
   fold (\<lambda>f e. if f = fe then e\<lparr>ge_flow_refs := remove1 f (ge_flow_refs e),
                                ge_stats := (ge_stats e)\<lparr>gs_ref_count := gs_ref_count (ge_stats e) - 1\<rparr>\<rparr>
                else e) xs e =
   (if fe \<in> set xs then e\<lparr>ge_flow_refs := remove1 fe (ge_flow_refs e),
                           ge_stats := (ge_stats e)\<lparr>gs_ref_count := gs_ref_count (ge_stats e) - 1\<rparr>\<rparr>
    else e)"
proof (induction xs arbitrary: e)
  case Nil
  then show ?case by simp
next
  case (Cons x xs)
  then show ?case by (cases "x = fe") auto
qed

lemma del_flow_ref_eq:
  assumes "distinct (ge_flow_refs e)"
  shows "group_entry_del_flow_ref fe e =
    (if fe \<in> set (ge_flow_refs e) then
       e\<lparr>ge_flow_refs := remove1 fe (ge_flow_refs e),
         ge_stats := (ge_stats e)\<lparr>gs_ref_count := gs_ref_count (ge_stats e) - 1\<rparr>\<rparr>
     else e)"
  unfolding group_entry_del_flow_ref_def using del_fold [OF assms assms] .

lemma del_flow_ref_refs:
  assumes "distinct (ge_flow_refs e)"
  shows "ge_flow_refs (group_entry_del_flow_ref fe e) = remove1 fe (ge_flow_refs e)"
    and "ge_desc (group_entry_del_flow_ref fe e) = ge_desc e"
  using assms by (simp_all add: del_flow_ref_eq remove1_idem)

interpretation gr: flow_referrer ge_flow_refs "\<lambda>e. gs_ref_count (ge_stats e)" group_entry_add_flow_ref
  group_entry_del_flow_ref
  by unfold_locales
    (simp_all add: group_entry_add_flow_ref_def group_has_flow_ref_iff del_flow_ref_eq remove1_idem)

lemma refs_ok_create [simp]: "refs_ok (group_entry_create u m)"
  by (simp add: refs_ok_def group_entry_create_def)

lemma refs_ok_add: "refs_ok e \<Longrightarrow> refs_ok (group_entry_add_flow_ref fe e)"
  unfolding refs_ok_def using gr.distinct_refs_add gr.counted_add by blast

lemma refs_ok_del: "refs_ok e \<Longrightarrow> refs_ok (group_entry_del_flow_ref fe e)"
  unfolding refs_ok_def using gr.distinct_refs_del gr.counted_del by blast

section \<open>Weighted round robin\<close>

lemma gcd16_correct: "unat (gcd16 a b) = gcd (unat a) (unat b)"
proof (induction a b rule: gcd16.induct)
  case (1 a b)
  show ?case
  proof (cases "a = 0")
    case True
    then show ?thesis by (simp add: gcd16.simps [of 0 b])
  next
    case False
    then have "unat a \<noteq> 0" by (simp add: unat_eq_0)
    then have "gcd (unat a) (unat b) = gcd (unat b mod unat a) (unat a)"
      using gcd_red_nat [of "unat b" "unat a"] by (simp add: gcd.commute)
    then show ?thesis using 1 [OF False] False by (simp add: gcd16.simps [of a b] unat_mod)
  qed
qed

definition weights :: "ofl_bucket list \<Rightarrow> nat list" where
  "weights bs = map (\<lambda>b. unat (weight b)) bs"

lemma foldl_gcd16: "unat (foldl (\<lambda>g b. gcd16 g (weight b)) w r) = Gcd (insert (unat w) (set (weights r)))"
proof (induction r arbitrary: w)
  case Nil
  then show ?case by (simp add: weights_def)
next
  case (Cons b r)
  then show ?case by (simp add: weights_def gcd16_correct Gcd_insert gcd.assoc)
qed

lemma foldl_max: "unat (foldl (\<lambda>m b. max m (weight b)) w r) = Max (insert (unat w) (set (weights r)))"
proof (induction r arbitrary: w)
  case Nil
  then show ?case by (simp add: weights_def)
next
  case (Cons b r)
  have "unat (max w (weight b)) = max (unat w) (unat (weight b))"
    by (simp add: max_def word_le_nat_alt)
  then show ?case using Cons [of "max w (weight b)"]
    by (cases "r = []") (simp_all add: weights_def max.assoc)
qed


text \<open>The states the loop passes through.\<close>

fun orb :: "nat \<Rightarrow> nat \<Rightarrow> group_entry_wrr_data \<Rightarrow> group_entry_wrr_data list" where
  "orb n 0 d = []"
| "orb n (Suc m) d = wrr_next n d # orb n m (wrr_next n d)"

definition good :: "ofl_bucket list \<Rightarrow> group_entry_wrr_data \<Rightarrow> bool" where
  "good bs d \<longleftrightarrow> curr_weight d \<le> weight (bs ! unat (curr_bucket d))"

lemma orb_append: "orb n (a + b) d = orb n a d @ orb n b ((wrr_next n ^^ a) d)"
  by (induction a arbitrary: d) (simp_all add: funpow_swap1)

lemma length_orb [simp]: "length (orb n m d) = m"
  by (induction m arbitrary: d) simp_all

lemma wrr_loop_first:
  "filter (good bs) (orb (length bs) m d) = x # xs \<Longrightarrow> m \<le> guard \<Longrightarrow>
   wrr_loop bs guard d = (Some (unat (curr_bucket x)), x) \<and>
   (\<forall>m' \<ge> m. \<exists>k. 1 \<le> k \<and> k \<le> m \<and>
      filter (good bs) (orb (length bs) m' d) = x # filter (good bs) (orb (length bs) (m' - k) x))"
proof (induction m arbitrary: d guard)
  case 0
  then show ?case by simp
next
  case (Suc m)
  let ?d = "wrr_next (length bs) d"
  obtain g where g: "guard = Suc g" using Suc.prems(2) by (cases guard) auto
  show ?case
  proof (cases "good bs ?d")
    case True
    then have x: "x = ?d" using Suc.prems(1) by simp
    have "\<exists>k. 1 \<le> k \<and> k \<le> Suc m \<and>
      filter (good bs) (orb (length bs) m' d) = x # filter (good bs) (orb (length bs) (m' - k) x)"
      if "Suc m \<le> m'" for m'
      using that True x by (intro exI [of _ 1]) (cases m', simp_all)
    moreover have "wrr_loop bs guard d = (Some (unat (curr_bucket x)), x)"
      using True x g by (simp add: good_def Let_def)
    ultimately show ?thesis by blast
  next
    case False
    then have f: "filter (good bs) (orb (length bs) m ?d) = x # xs" using Suc.prems(1) by simp
    have le: "m \<le> g" using Suc.prems(2) g by simp
    note ih = Suc.IH [OF f le]
    have "\<exists>k. 1 \<le> k \<and> k \<le> Suc m \<and>
      filter (good bs) (orb (length bs) m' d) = x # filter (good bs) (orb (length bs) (m' - k) x)"
      if sm: "Suc m \<le> m'" for m'
    proof -
      obtain m'' where m'': "m' = Suc m''" "m \<le> m''" using sm by (cases m') auto
      then obtain k where "1 \<le> k" "k \<le> m"
        "filter (good bs) (orb (length bs) m'' ?d) = x # filter (good bs) (orb (length bs) (m'' - k) x)"
        using ih by blast
      then show ?thesis using False m'' by (intro exI [of _ "Suc k"]) simp
    qed
    moreover have "wrr_loop bs guard d = (Some (unat (curr_bucket x)), x)"
      using False g ih by (simp add: good_def Let_def)
    ultimately show ?thesis by blast
  qed
qed

text \<open>The position of the walk: bucket \<open>r\<close> at weight \<open>w\<close>, or in front of the first bucket.\<close>

definition wrr_const :: "ofl_bucket list \<Rightarrow> group_entry_wrr_data \<Rightarrow> bool" where
  "wrr_const bs d \<longleftrightarrow> unat (max_weight d) = Max (set (weights bs)) \<and>
     unat (gcd_weight d) = Gcd (set (weights bs))"

definition wrr_at :: "ofl_bucket list \<Rightarrow> nat \<Rightarrow> nat \<Rightarrow> group_entry_wrr_data \<Rightarrow> bool" where
  "wrr_at bs r w d \<longleftrightarrow> wrr_const bs d \<and> curr_bucket d = of_nat r \<and> r < length bs \<and> unat (curr_weight d) = w"

definition wrr_start :: "ofl_bucket list \<Rightarrow> group_entry_wrr_data \<Rightarrow> bool" where
  "wrr_start bs d \<longleftrightarrow> wrr_const bs d \<and> (curr_bucket d + 1) mod of_nat (length bs) = 0 \<and>
     unat (curr_weight d) \<le> Gcd (set (weights bs))"

lemma wrr_const_next: "wrr_const bs d \<Longrightarrow> wrr_const bs (wrr_next n d)"
  by (simp add: wrr_const_def wrr_next_def Let_def)

lemma wrr_start_init:
  assumes "bs \<noteq> []"
  shows "wrr_start bs (init_select_group bs)"
proof -
  obtain b r where bs: "bs = b # r" using assms by (cases bs) auto
  have "Gcd (insert (unat (weight b)) (set (weights r))) = Gcd (set (weights bs))"
    "Max (insert (unat (weight b)) (set (weights r))) = Max (set (weights bs))"
    by (simp_all add: bs weights_def)
  then show ?thesis
    by (simp add: wrr_start_def wrr_const_def init_select_group_def bs foldl_gcd16 foldl_max del: Gcd_insert)
qed

lemma mod_small:
  assumes "Suc r < n" "n < 2 ^ 64"
  shows "(of_nat r + 1 :: u64) mod of_nat n = of_nat (Suc r)" "(of_nat (Suc r) :: u64) \<noteq> 0"
proof -
  have u: "unat (of_nat (Suc r) :: u64) = Suc r" "unat (of_nat n :: u64) = n"
    using assms by (simp_all add: unsigned_of_nat take_bit_nat_eq_self del: of_nat_Suc)
  then have "unat ((of_nat (Suc r) :: u64) mod of_nat n) = unat (of_nat (Suc r) :: u64)"
    using assms(1) by (simp add: unat_mod del: of_nat_Suc)
  then have "(of_nat (Suc r) :: u64) mod of_nat n = of_nat (Suc r)" by (rule unsigned_word_eqI)
  then show "(of_nat r + 1 :: u64) mod of_nat n = of_nat (Suc r)" by (simp add: add.commute)
  show "(of_nat (Suc r) :: u64) \<noteq> 0"
  proof
    assume "(of_nat (Suc r) :: u64) = 0"
    then show False using u(1) by (simp del: of_nat_Suc)
  qed
qed

lemma wrr_at_next:
  assumes at: "wrr_at bs r w d" and r: "Suc r < length bs" and n: "length bs < 2 ^ 64"
  shows "wrr_at bs (Suc r) w (wrr_next (length bs) d)"
  using at r mod_small [OF r n] wrr_const_next [of bs d]
  by (simp add: wrr_at_def wrr_next_def Let_def wrr_const_def)

lemma wrr_at_wrap:
  assumes c: "wrr_const bs d" and m: "(curr_bucket d + 1) mod of_nat (length bs) = 0" and n: "bs \<noteq> []"
  shows "wrr_at bs 0 (if unat (curr_weight d) \<le> Gcd (set (weights bs)) then Max (set (weights bs))
    else unat (curr_weight d) - Gcd (set (weights bs))) (wrr_next (length bs) d)"
  using c m n by (auto simp: wrr_at_def wrr_next_def Let_def wrr_const_def word_le_nat_alt unat_sub)

lemma wrr_at_last:
  assumes at: "wrr_at bs r w d" and r: "Suc r = length bs"
  shows "(curr_bucket d + 1) mod of_nat (length bs) = 0"
proof -
  have "(of_nat (length bs) :: u64) = of_nat r + 1" unfolding r [symmetric] by simp
  then have "curr_bucket d + 1 = of_nat (length bs)" using at by (simp add: wrr_at_def)
  then show ?thesis by simp
qed

definition pos_of :: "group_entry_wrr_data \<Rightarrow> nat \<times> nat" where
  "pos_of d = (unat (curr_bucket d), unat (curr_weight d))"

lemma pos_of_at: "wrr_at bs r w d \<Longrightarrow> length bs < 2 ^ 64 \<Longrightarrow> pos_of d = (r, w)"
  by (simp add: wrr_at_def pos_of_def unsigned_of_nat take_bit_nat_eq_self)

lemma row_rest:
  assumes "wrr_at bs r w d" "r + m < length bs" "length bs < 2 ^ 64"
  shows "map pos_of (orb (length bs) m d) = map (\<lambda>i. (i, w)) [Suc r..<Suc (r + m)] \<and>
    wrr_at bs (r + m) w ((wrr_next (length bs) ^^ m) d)"
  using assms
proof (induction m arbitrary: r d)
  case 0
  then show ?case by simp
next
  case (Suc m)
  have at: "wrr_at bs (Suc r) w (wrr_next (length bs) d)"
    using wrr_at_next [of bs r w d] Suc.prems by simp
  have ih: "map pos_of (orb (length bs) m (wrr_next (length bs) d)) = map (\<lambda>i. (i, w)) [Suc (Suc r)..<Suc (Suc r + m)]"
    "wrr_at bs (Suc r + m) w ((wrr_next (length bs) ^^ m) (wrr_next (length bs) d))"
    using Suc.IH [OF at] Suc.prems by simp_all
  have "[Suc r..<Suc (r + Suc m)] = Suc r # [Suc (Suc r)..<Suc (Suc r + m)]"
    by (simp add: upt_conv_Cons)
  then show ?case using ih pos_of_at [OF at Suc.prems(3)] by (simp add: funpow_swap1 del: upt_Suc)
qed

text \<open>One round: from the front of the first bucket through all buckets at one weight.\<close>

lemma row:
  assumes c: "wrr_const bs d" and m: "(curr_bucket d + 1) mod of_nat (length bs) = 0" and bs: "bs \<noteq> []"
    and n: "length bs < 2 ^ 64"
    and w: "w = (if unat (curr_weight d) \<le> Gcd (set (weights bs)) then Max (set (weights bs))
      else unat (curr_weight d) - Gcd (set (weights bs)))"
  shows "map pos_of (orb (length bs) (length bs) d) = map (\<lambda>i. (i, w)) [0..<length bs] \<and>
    wrr_at bs (length bs - 1) w ((wrr_next (length bs) ^^ length bs) d)"
proof -
  obtain k where k: "length bs = Suc k" using bs by (cases bs) auto
  have at: "wrr_at bs 0 w (wrr_next (length bs) d)" unfolding w by (rule wrr_at_wrap [OF c m bs])
  have r: "map pos_of (orb (length bs) k (wrr_next (length bs) d)) = map (\<lambda>i. (i, w)) [Suc 0..<Suc k]"
    "wrr_at bs k w ((wrr_next (length bs) ^^ k) (wrr_next (length bs) d))"
    using row_rest [OF at, of k] k n by simp_all
  have "orb (length bs) (length bs) d = wrr_next (length bs) d # orb (length bs) k (wrr_next (length bs) d)"
    using orb.simps(2) [of "length bs" k d] k by simp
  moreover have "(wrr_next (length bs) ^^ length bs) d = (wrr_next (length bs) ^^ k) (wrr_next (length bs) d)"
    using k by (metis comp_apply funpow_Suc_right)
  moreover have "[0..<length bs] = 0 # [Suc 0..<Suc k]" using k by (simp add: upt_conv_Cons del: upt_Suc)
  ultimately show ?thesis using r pos_of_at [OF at n] k by (simp del: upt_Suc)
qed

lemma rounds:
  assumes bs: "bs \<noteq> []" and n: "length bs < 2 ^ 64" and g: "g = Gcd (set (weights bs))"
    and M: "Max (set (weights bs)) = k * g" and gp: "0 < g" and d: "wrr_start bs d"
  shows "q < k \<Longrightarrow> map pos_of (orb (length bs) (Suc q * length bs) d) =
      concat (map (\<lambda>q. map (\<lambda>i. (i, (k - q) * g)) [0..<length bs]) [0..<Suc q]) \<and>
    wrr_at bs (length bs - 1) ((k - q) * g) ((wrr_next (length bs) ^^ (Suc q * length bs)) d)"
proof (induction q)
  case 0
  have "map pos_of (orb (length bs) (length bs) d) = map (\<lambda>i. (i, k * g)) [0..<length bs] \<and>
    wrr_at bs (length bs - 1) (k * g) ((wrr_next (length bs) ^^ length bs) d)"
    by (rule row) (use d bs n M g in \<open>simp_all add: wrr_start_def\<close>)
  then show ?case by simp
next
  case (Suc q)
  let ?d = "(wrr_next (length bs) ^^ (Suc q * length bs)) d"
  have ih: "map pos_of (orb (length bs) (Suc q * length bs) d) =
      concat (map (\<lambda>q. map (\<lambda>i. (i, (k - q) * g)) [0..<length bs]) [0..<Suc q])"
    "wrr_at bs (length bs - 1) ((k - q) * g) ?d"
    using Suc by simp_all
  have c: "wrr_const bs ?d" and cw: "unat (curr_weight ?d) = (k - q) * g"
    using ih(2) by (simp_all add: wrr_at_def)
  have m: "(curr_bucket ?d + 1) mod of_nat (length bs) = 0"
    by (rule wrr_at_last [OF ih(2)]) (use bs in simp)
  have "g < (k - q) * g" using Suc.prems gp by simp
  moreover have "(k - q) * g - g = (k - Suc q) * g"
    using Suc.prems by (metis Suc_diff_Suc Suc_lessD add_diff_cancel_left' mult_Suc)
  ultimately have w: "(k - Suc q) * g = (if unat (curr_weight ?d) \<le> Gcd (set (weights bs))
      then Max (set (weights bs)) else unat (curr_weight ?d) - Gcd (set (weights bs)))"
    using cw g by simp
  note r = row [OF c m bs n w]
  have "orb (length bs) (Suc (Suc q) * length bs) d =
      orb (length bs) (Suc q * length bs) d @ orb (length bs) (length bs) ?d"
    using orb_append [of "length bs" "Suc q * length bs" "length bs" d] by (simp add: add.commute)
  moreover have "(wrr_next (length bs) ^^ (Suc (Suc q) * length bs)) d = (wrr_next (length bs) ^^ length bs) ?d"
    by (simp add: funpow_add)
  ultimately show ?case using ih(1) r by simp
qed


text \<open>A full cycle: the weights from the maximum down to the divisor, for each all buckets.\<close>

definition cycle_of :: "nat \<Rightarrow> nat \<Rightarrow> nat \<Rightarrow> (nat \<times> nat) list" where
  "cycle_of n k g = concat (map (\<lambda>q. map (\<lambda>i. (i, (k - q) * g)) [0..<n]) [0..<k])"

lemma cycle:
  assumes bs: "bs \<noteq> []" and n: "length bs < 2 ^ 64" and g: "g = Gcd (set (weights bs))"
    and M: "Max (set (weights bs)) = k * g" and gp: "0 < g" and kp: "0 < k" and d: "wrr_start bs d"
  shows "map pos_of (orb (length bs) (k * length bs) d) = cycle_of (length bs) k g \<and>
    wrr_start bs ((wrr_next (length bs) ^^ (k * length bs)) d)"
proof -
  obtain q where q: "k = Suc q" using kp by (cases k) auto
  have r: "map pos_of (orb (length bs) (k * length bs) d) = cycle_of (length bs) k g"
    "wrr_at bs (length bs - 1) ((k - q) * g) ((wrr_next (length bs) ^^ (k * length bs)) d)"
    using rounds [OF bs n g M gp d, of q] q by (simp_all add: cycle_of_def)
  have "Suc (length bs - 1) = length bs" using bs by simp
  then show ?thesis using r wrr_at_last [OF r(2)] q g by (simp add: wrr_start_def wrr_at_def)
qed

lemma cycles:
  assumes bs: "bs \<noteq> []" and n: "length bs < 2 ^ 64" and g: "g = Gcd (set (weights bs))"
    and M: "Max (set (weights bs)) = k * g" and gp: "0 < g" and kp: "0 < k" and d: "wrr_start bs d"
  shows "map pos_of (orb (length bs) (c * (k * length bs)) d) = concat (replicate c (cycle_of (length bs) k g))"
  using d
proof (induction c arbitrary: d)
  case 0
  then show ?case by simp
next
  case (Suc c)
  note cy = cycle [OF bs n g M gp kp Suc.prems]
  have "orb (length bs) (Suc c * (k * length bs)) d = orb (length bs) (k * length bs) d @
      orb (length bs) (c * (k * length bs)) ((wrr_next (length bs) ^^ (k * length bs)) d)"
    using orb_append [of "length bs" "k * length bs" "c * (k * length bs)" d] by simp
  then show ?case using cy Suc.IH by simp
qed

definition pos_good :: "ofl_bucket list \<Rightarrow> nat \<times> nat \<Rightarrow> bool" where
  "pos_good bs p \<longleftrightarrow> snd p \<le> unat (weight (bs ! fst p))"

lemma good_pos: "good bs d \<longleftrightarrow> pos_good bs (pos_of d)"
  by (simp add: good_def pos_good_def pos_of_def word_le_nat_alt)

lemma chosen_pos:
  "map (\<lambda>d. unat (curr_bucket d)) (filter (good bs) ds) = map fst (filter (pos_good bs) (map pos_of ds))"
proof -
  have "filter (pos_good bs) (map pos_of ds) = map pos_of (filter (good bs) ds)"
    by (simp add: filter_map comp_def good_pos [symmetric])
  then show ?thesis by (simp add: pos_of_def)
qed

lemma count_row:
  "count_list (map fst (filter (pos_good bs) (map (\<lambda>i. (i, w)) [0..<n]))) j =
     (if j < n \<and> w \<le> unat (weight (bs ! j)) then 1 else 0)"
  by (induction n) (auto simp: pos_good_def)

lemma count_list_append': "count_list (xs @ ys) x = count_list xs x + count_list ys x"
  by (induction xs) auto

lemma count_rows:
  "count_list (map fst (filter (pos_good bs) (concat (map (\<lambda>q. map (\<lambda>i. (i, f q)) [0..<n]) qs)))) j =
     (if j < n then length (filter (\<lambda>q. f q \<le> unat (weight (bs ! j))) qs) else 0)"
proof (induction qs)
  case Nil
  then show ?case by simp
next
  case (Cons q qs)
  then show ?case by (simp add: count_list_append' count_row)
qed

lemma filter_ge_count:
  "0 < g \<Longrightarrow> m \<le> k \<Longrightarrow> length (filter (\<lambda>q. (k - q) * g \<le> m * g) [0..<k]) = m"
proof -
  assume g: "0 < g" and m: "m \<le> k"
  have "{q. q < k \<and> (k - q) * g \<le> m * g} = {k - m..<k}" using g m by auto
  then have "card (set (filter (\<lambda>q. (k - q) * g \<le> m * g) [0..<k])) = m" using m by simp
  then show ?thesis using distinct_card [of "filter (\<lambda>q. (k - q) * g \<le> m * g) [0..<k]"] by simp
qed

lemma count_cycle:
  assumes j: "j < length bs" and g: "g = Gcd (set (weights bs))" and M: "Max (set (weights bs)) = k * g"
    and gp: "0 < g"
  shows "count_list (map fst (filter (pos_good bs) (cycle_of (length bs) k g))) j = unat (weight (bs ! j)) div g"
proof -
  have in_w: "unat (weight (bs ! j)) \<in> set (weights bs)" using j by (simp add: weights_def)
  then obtain m where m: "unat (weight (bs ! j)) = m * g" using g by (metis Gcd_dvd dvd_def mult.commute)
  have "m * g \<le> k * g" using in_w m M Max_ge [of "set (weights bs)"] by fastforce
  then have "m \<le> k" using gp by simp
  then show ?thesis using count_rows [of bs "\<lambda>q. (k - q) * g" "length bs" "[0..<k]" j] filter_ge_count [OF gp, of m k]
      m gp j by (simp add: cycle_of_def)
qed

lemma count_cycles:
  "count_list (map fst (filter P (concat (replicate c L)))) j = c * count_list (map fst (filter P L)) j"
  by (induction c) (simp_all add: count_list_append')

text \<open>The choices of successive packets.\<close>

fun selections :: "nat \<Rightarrow> group_entry \<Rightarrow> nat option list" where
  "selections 0 e = []"
| "selections (Suc t) e =
    (case select_from_select_group e of None \<Rightarrow> [] | Some (b, e1) \<Rightarrow> b # selections t e1)"

definition wrr_inv :: "ofl_bucket list \<Rightarrow> nat \<Rightarrow> group_entry_wrr_data \<Rightarrow> bool" where
  "wrr_inv bs r d \<longleftrightarrow> wrr_const bs d \<and> unat (curr_weight d) \<le> Max (set (weights bs)) \<and> r < length bs \<and>
     (curr_bucket d + 1) mod of_nat (length bs) = of_nat (Suc r mod length bs)"

lemma suc_mod_word:
  assumes "s < n" "n < 2 ^ 64"
  shows "(of_nat s + 1 :: u64) mod of_nat n = of_nat (Suc s mod n)"
proof (cases "Suc s < n")
  case True
  then show ?thesis using mod_small [OF True assms(2)] by simp
next
  case False
  then have n: "n = Suc s" using assms(1) by simp
  then have e: "(of_nat s + 1 :: u64) = of_nat n" by simp
  have "Suc s mod n = 0" using n by simp
  then show ?thesis unfolding e by simp
qed

lemma wrr_inv_next:
  assumes i: "wrr_inv bs r d" and n: "length bs < 2 ^ 64"
  shows "wrr_inv bs (Suc r mod length bs) (wrr_next (length bs) d) \<and>
    curr_bucket (wrr_next (length bs) d) = of_nat (Suc r mod length bs)"
proof -
  have r: "r < length bs" using i by (simp add: wrr_inv_def)
  then have s: "Suc r mod length bs < length bs" by (metis gr_implies_not0 mod_less_divisor neq0_conv)
  have cb: "curr_bucket (wrr_next (length bs) d) = of_nat (Suc r mod length bs)"
    using i by (simp add: wrr_inv_def wrr_next_def Let_def)
  have "unat (curr_weight (wrr_next (length bs) d)) \<le> Max (set (weights bs))"
    using i by (auto simp: wrr_inv_def wrr_next_def Let_def wrr_const_def word_le_nat_alt unat_sub)
  then show ?thesis using i s cb suc_mod_word [OF s n] wrr_const_next by (simp add: wrr_inv_def)
qed

lemma wrr_inv_funpow:
  assumes "wrr_inv bs r d" "length bs < 2 ^ 64"
  shows "wrr_inv bs ((r + k) mod length bs) ((wrr_next (length bs) ^^ k) d)"
  using assms
proof (induction k)
  case 0
  then show ?case by (simp add: wrr_inv_def)
next
  case (Suc k)
  then show ?case using wrr_inv_next [of bs "(r + k) mod length bs"] by (simp add: mod_Suc_eq)
qed

lemma orb_nth: "k < m \<Longrightarrow> orb n m d ! k = (wrr_next n ^^ Suc k) d"
proof (induction m arbitrary: d k)
  case 0
  then show ?case by simp
next
  case (Suc m)
  then show ?case by (cases k) (simp_all add: funpow_swap1)
qed

lemma wrr_window:
  assumes i: "wrr_inv bs r d" and n: "length bs < 2 ^ 64"
  shows "filter (good bs) (orb (length bs) (length bs) d) \<noteq> []"
proof -
  have r: "r < length bs" and ne: "bs \<noteq> []" using i by (auto simp: wrr_inv_def)
  then have "Max (set (weights bs)) \<in> set (weights bs)" by (simp add: weights_def)
  then obtain j where j: "j < length bs" "unat (weight (bs ! j)) = Max (set (weights bs))"
    by (metis (no_types, lifting) in_set_conv_nth length_map nth_map weights_def)
  define k where "k = (if r < j then j - r - 1 else j + length bs - r - 1)"
  have "r + Suc k = (if r < j then j else j + length bs)" using r by (auto simp: k_def)
  then have k: "k < length bs" "(r + Suc k) mod length bs = j" using r j by (auto split: if_splits)
  let ?d = "(wrr_next (length bs) ^^ Suc k) d"
  have inv: "wrr_inv bs ((r + k) mod length bs) ((wrr_next (length bs) ^^ k) d)"
    by (rule wrr_inv_funpow [OF i n])
  have "Suc ((r + k) mod length bs) mod length bs = j" using k(2) by (simp add: mod_Suc_eq)
  then have "curr_bucket ?d = of_nat j" "unat (curr_weight ?d) \<le> Max (set (weights bs))"
    using wrr_inv_next [OF inv n] by (simp_all add: wrr_inv_def)
  then have "good bs ?d" using j n by (simp add: good_def word_le_nat_alt unsigned_of_nat take_bit_nat_eq_self)
  moreover have "?d \<in> set (orb (length bs) (length bs) d)"
    using orb_nth [OF k(1)] k(1) by (metis length_orb nth_mem)
  ultimately show ?thesis by (auto simp: filter_empty_conv)
qed

lemma wrr_inv_orb:
  "wrr_inv bs r d \<Longrightarrow> length bs < 2 ^ 64 \<Longrightarrow> x \<in> set (orb (length bs) m d) \<Longrightarrow> \<exists>r'. wrr_inv bs r' x"
  using wrr_inv_funpow by (metis in_set_conv_nth length_orb orb_nth)

lemma selections_run:
  assumes "gd_buckets (ge_desc e) = bs" "ge_data e = Some d" "wrr_inv bs r d" "length bs < 2 ^ 64"
    "t \<le> length (filter (good bs) (orb (length bs) m d))"
  shows "selections t e =
    map Some (take t (map (\<lambda>d. unat (curr_bucket d)) (filter (good bs) (orb (length bs) m d))))"
  using assms
proof (induction t arbitrary: e d r m)
  case 0
  then show ?case by simp
next
  case (Suc t)
  note i = Suc.prems(3) and n = Suc.prems(4)
  have ne: "bs \<noteq> []" using i by (auto simp: wrr_inv_def)
  define m0 where "m0 = min m (length bs)"
  have "filter (good bs) (orb (length bs) m0 d) \<noteq> []"
    using wrr_window [OF i n] Suc.prems(5) by (cases "m \<le> length bs") (auto simp: m0_def min_def)
  then obtain x xs where x: "filter (good bs) (orb (length bs) m0 d) = x # xs" by (cases "filter (good bs) (orb (length bs) m0 d)") auto
  have le: "m0 \<le> length bs" "m0 \<le> m" by (simp_all add: m0_def)
  obtain k where loop: "wrr_loop bs (length bs) d = (Some (unat (curr_bucket x)), x)"
    and f: "filter (good bs) (orb (length bs) m d) = x # filter (good bs) (orb (length bs) (m - k) x)"
    using wrr_loop_first [OF x le(1)] le(2) by blast
  have "x \<in> set (orb (length bs) m0 d)" using x by (metis filter_is_subset list.set_intros(1) subsetD)
  then obtain r' where i': "wrr_inv bs r' x" using wrr_inv_orb [OF i n] by blast
  have sel: "select_from_select_group e = Some (Some (unat (curr_bucket x)), e\<lparr>ge_data := Some x\<rparr>)"
    using Suc.prems(1,2) ne loop by (simp add: select_from_select_group_def Let_def)
  have "selections t (e\<lparr>ge_data := Some x\<rparr>) =
    map Some (take t (map (\<lambda>d. unat (curr_bucket d)) (filter (good bs) (orb (length bs) (m - k) x))))"
    by (rule Suc.IH [OF _ _ i' n]) (use Suc.prems(1,5) f in simp_all)
  then show ?case using sel f by simp
qed

text \<open>C27. A select group shares its packets in proportion to the weights.  From its creation on,
  whatever the number \<open>c\<close> of cycles, among the first \<open>c * (sum of the weights div g)\<close> choices, with
  \<open>g\<close> the greatest common divisor of the weights, bucket \<open>j\<close> is chosen exactly
  \<open>c * (weight of j div g)\<close> times; every choice succeeds.\<close>

theorem wrr_fair_share:
  assumes "gm_type m = OFPGT_SELECT" and "length (gm_buckets m) < 2 ^ 64" and "j < length (gm_buckets m)"
    and "w \<in> set (weights (gm_buckets m))" and "0 < w"
    and "g = Gcd (set (weights (gm_buckets m)))"
    and "t = c * (\<Sum>v \<leftarrow> weights (gm_buckets m). v div g)"
  shows "length (selections t (group_entry_create u m)) = t \<and>
    count_list (selections t (group_entry_create u m)) (Some j) = c * (weights (gm_buckets m) ! j div g) \<and>
    None \<notin> set (selections t (group_entry_create u m))"
proof -
  define bs where "bs = gm_buckets m"
  define e where "e = group_entry_create u m"
  define d where "d = init_select_group bs"
  have ne: "bs \<noteq> []" and n: "length bs < 2 ^ 64" using assms(2,3) by (auto simp: bs_def)
  have g: "g = Gcd (set (weights bs))" using assms(6) by (simp add: bs_def)
  have "g dvd w" using assms(4,6) by (simp add: Gcd_dvd)
  then have gp: "0 < g" using assms(5) by (metis dvd_0_left_iff neq0_conv)
  have "Max (set (weights bs)) \<in> set (weights bs)" using ne by (simp add: weights_def)
  then obtain k where M: "Max (set (weights bs)) = k * g" using g by (metis Gcd_dvd dvd_def mult.commute)
  have "w \<le> k * g" using assms(4) M Max_ge [of "set (weights bs)" w] by (simp add: bs_def)
  then have kp: "0 < k" using assms(5) by (cases k) auto
  have st: "wrr_start bs d" unfolding d_def by (rule wrr_start_init [OF ne])
  define L where "L = concat (replicate c (cycle_of (length bs) k g))"
  define js where "js = map (\<lambda>d. unat (curr_bucket d)) (filter (good bs) (orb (length bs) (c * (k * length bs)) d))"
  have is_eq: "js = map fst (filter (pos_good bs) L)"
    unfolding js_def chosen_pos cycles [OF ne n g M gp kp st] L_def ..
  have cnt: "count_list js i = c * (weights bs ! i div g)" if "i < length bs" for i
    unfolding is_eq L_def count_cycles using count_cycle [OF that g M gp] that by (simp add: weights_def)
  have "set js \<subseteq> {..<length bs}" by (auto simp: is_eq L_def cycle_of_def)
  then have "length js = (\<Sum>i<length bs. count_list js i)" by (simp add: sum_count_set)
  also have "\<dots> = (\<Sum>i<length bs. c * (weights bs ! i div g))" using cnt by simp
  also have "\<dots> = c * (\<Sum>v \<leftarrow> weights bs. v div g)"
    by (simp add: sum_distrib_left [symmetric] sum_list_sum_nth atLeast0LessThan weights_def)
  finally have len: "length js = t" using assms(7) by (simp add: bs_def)
  have "curr_bucket d + 1 = 0" "unat (curr_weight d) = 0"
    by (simp_all add: d_def init_select_group_def split: list.split)
  then have inv: "wrr_inv bs (length bs - 1) d" using st ne by (simp add: wrr_inv_def wrr_start_def)
  have "selections t e = map Some (take t js)"
    unfolding js_def
    by (rule selections_run [OF _ _ inv n])
      (use assms(1) len in \<open>simp_all add: e_def d_def bs_def js_def group_entry_create_def\<close>)
  then have s: "selections t e = map Some js" using len by simp
  have "count_list (map Some xs) (Some j) = count_list xs j" for xs :: "nat list"
    by (induction xs) auto
  then show ?thesis using s len cnt [of j] assms(3) by (auto simp: e_def bs_def)
qed

definition ex_bucket :: "u16 \<Rightarrow> ofl_bucket" where
  "ex_bucket w = \<lparr>weight = w, watch_port = OFPP_ANY, watch_group = OFPG_ANY, actions = []\<rparr>"

definition ex_select :: ofl_msg_group_mod where
  "ex_select = \<lparr>gm_command = OFPGC_ADD, gm_type = OFPGT_SELECT, gm_group_id = 7,
     gm_buckets = [ex_bucket 4, ex_bucket 2, ex_bucket 6]\<rparr>"

theorem wrr_fair_share_witness:
  "length (selections 12 (group_entry_create 0 ex_select)) = 12 \<and>
   count_list (selections 12 (group_entry_create 0 ex_select)) (Some 2) = 6 \<and>
   None \<notin> set (selections 12 (group_entry_create 0 ex_select))"
proof -
  have w: "weights (gm_buckets ex_select) = [4, 2, 6]" by code_simp
  have g: "(2 :: nat) = Gcd (set (weights (gm_buckets ex_select)))" unfolding w by code_simp
  have a: "gm_type ex_select = OFPGT_SELECT" "length (gm_buckets ex_select) < 2 ^ 64"
    "2 < length (gm_buckets ex_select)" by (simp_all add: ex_select_def)
  have b: "4 \<in> set (weights (gm_buckets ex_select))" "0 < (4 :: nat)" by (simp_all add: w)
  have p: "(12 :: nat) = 2 * (\<Sum>v \<leftarrow> weights (gm_buckets ex_select). v div 2)" by (simp add: w)
  have q: "2 * (weights (gm_buckets ex_select) ! 2 div 2) = (6 :: nat)" by (simp add: w)
  show ?thesis using wrr_fair_share [OF a b g p, of 0] unfolding q .
qed

text \<open>A bucket of a fast failover group is the first live one; ports that are watched must exist.\<close>

lemma ff_walk_first:
  assumes "\<And>b. b \<in> set bs \<Longrightarrow> bucket_is_alive st b \<noteq> None"
  shows "ff_walk st i bs = Some (map_option (\<lambda>j. i + j)
    (if \<exists>b \<in> set bs. bucket_is_alive st b = Some True
     then Some (length (takeWhile (\<lambda>b. bucket_is_alive st b \<noteq> Some True) bs)) else None))"
  using assms
proof (induction bs arbitrary: i)
  case Nil
  then show ?case by simp
next
  case (Cons b bs)
  then obtain a where a: "bucket_is_alive st b = Some a" by fastforce
  have "ff_walk st (Suc i) bs = Some (map_option (\<lambda>j. Suc i + j)
    (if \<exists>b \<in> set bs. bucket_is_alive st b = Some True
     then Some (length (takeWhile (\<lambda>b. bucket_is_alive st b \<noteq> Some True) bs)) else None))"
    by (rule Cons.IH) (rule Cons.prems, simp)
  then show ?case using a by (cases a) auto
qed

end
