(* ===== verification/Checksums.thy ===== *)
theory Checksums
  imports Byte_Words
begin

text \<open>
  The Internet checksum, \<^verbatim>\<open>lib/csum.c\<close>: the sum over a buffer and the incremental update when a
  field changes.  Both are compared with the ones' complement sum of RFC 1071 and RFC 1624, which
  is addition modulo 65535.  The code folds the carries once; the results say for which sums one
  fold is enough, and give the sums for which it is not.
\<close>

unbundle bit_operations_syntax

section \<open>The functions\<close>

definition csum_add16 :: "u32 \<Rightarrow> u16 \<Rightarrow> u32" where
  "csum_add16 partial new = partial + ucast new"

definition csum_add32 :: "u32 \<Rightarrow> u32 \<Rightarrow> u32" where
  "csum_add32 partial new = partial + drop_bit 16 new + (new AND 0xffff)"

fun csum_continue :: "u32 \<Rightarrow> byte list \<Rightarrow> u32" where
  "csum_continue partial (a # b # r) = csum_continue (csum_add16 partial (load16 [a, b])) r"
| "csum_continue partial [a] = partial + ucast a"
| "csum_continue partial [] = partial"

definition csum_finish :: "u32 \<Rightarrow> u16" where
  "csum_finish partial = ucast (NOT ((partial AND 0xffff) + drop_bit 16 partial))"

definition csum :: "byte list \<Rightarrow> u16" where
  "csum data = csum_finish (csum_continue 0 data)"

definition recalc_csum16 :: "u16 \<Rightarrow> u16 \<Rightarrow> u16 \<Rightarrow> u16" where
  "recalc_csum16 old_csum old_u16 new_u16 =
    (let hc_complement = NOT old_csum;
         m_complement = NOT old_u16;
         m_prime = new_u16;
         total = (ucast hc_complement + ucast m_complement + ucast m_prime :: u32);
         hc_prime_complement = (ucast (total + drop_bit 16 total) :: u16)
     in NOT hc_prime_complement)"

definition recalc_csum32 :: "u16 \<Rightarrow> u32 \<Rightarrow> u32 \<Rightarrow> u16" where
  "recalc_csum32 old_csum old_u32 new_u32 =
    recalc_csum16 (recalc_csum16 old_csum (ucast old_u32) (ucast new_u32))
      (ucast (drop_bit 16 old_u32)) (ucast (drop_bit 16 new_u32))"

definition recalc_csum64 :: "u16 \<Rightarrow> u64 \<Rightarrow> u64 \<Rightarrow> u16" where
  "recalc_csum64 old_csum old_u64 new_u64 =
    recalc_csum32 (recalc_csum32 old_csum (ucast old_u64) (ucast new_u64))
      (ucast (drop_bit 32 old_u64)) (ucast (drop_bit 32 new_u64))"

definition recalc_csum128 :: "u16 \<Rightarrow> byte list \<Rightarrow> byte list \<Rightarrow> u16" where
  "recalc_csum128 old_csum old_u128 new_u128 =
    recalc_csum64 (recalc_csum64 old_csum (load64 (drop 8 old_u128)) (load64 (drop 8 new_u128)))
      (load64 old_u128) (load64 new_u128)"

section \<open>Ones' complement sums\<close>

text \<open>A list of 16-bit words is checked by its sum modulo 65535, which has to be the zero that is
  written as all ones.\<close>

definition ones_sum :: "u16 list \<Rightarrow> nat" where
  "ones_sum ws = sum_list (map unat ws) mod 65535"

definition csum_valid :: "u16 list \<Rightarrow> bool" where
  "csum_valid ws \<longleftrightarrow> ones_sum ws = 0"

lemma unat_u16_less: "unat (w :: u16) < 65536"
proof -
  have "unat w < 2 ^ 16" using unsigned_less [of w] by simp
  then show ?thesis by simp
qed

lemma unat_not16: "unat (NOT w :: u16) = 65535 - unat w"
proof -
  have "NOT w = 65535 - w" by (simp add: not_eq_complement)
  moreover have "w \<le> 65535" using unat_u16_less [of w] by (simp add: word_le_nat_alt)
  ultimately show ?thesis by (simp add: unat_sub)
qed

lemma unat_ucast_16_32 [simp]: "unat (ucast (w :: u16) :: u32) = unat w"
  using unat_u16_less [of w] by (simp add: unsigned_ucast_eq take_bit_nat_eq_self)

lemma unat_low16: "unat (ucast (s :: u32) :: u16) = unat s mod 65536"
  by (simp add: unsigned_ucast_eq take_bit_eq_mod)

lemma unat_drop16: "unat (drop_bit 16 (s :: u32)) = unat s div 65536"
  by (simp add: drop_bit_eq_div unat_div)

section \<open>The incremental update\<close>

text \<open>The sum of the formula, before the carry is folded.\<close>

definition update_sum :: "u16 \<Rightarrow> u16 \<Rightarrow> u16 \<Rightarrow> nat" where
  "update_sum c old new = (65535 - unat c) + (65535 - unat old) + unat new"

lemma recalc_csum16_unat:
  "unat (recalc_csum16 c old new) =
     65535 - (update_sum c old new + update_sum c old new div 65536) mod 65536"
proof -
  define s where "s = (ucast (NOT c) + ucast (NOT old) + ucast new :: u32)"
  have b: "unat c < 65536" "unat old < 65536" "unat new < 65536" by (rule unat_u16_less)+
  have s: "unat s = update_sum c old new"
    using b by (simp add: s_def update_sum_def unat_word_ariths unat_not16)
  have "unat (s + drop_bit 16 s) = unat s + unat s div 65536"
    using b s by (simp add: unat_word_ariths unat_drop16 update_sum_def)
  then have "unat (ucast (s + drop_bit 16 s) :: u16) = (unat s + unat s div 65536) mod 65536"
    by (simp add: unat_low16)
  then show ?thesis using s by (simp add: recalc_csum16_def Let_def s_def unat_not16)
qed

lemma fold_carry:
  fixes S :: nat
  assumes "S \<le> 196605" "S \<noteq> 131071"
  shows "(S + S div 65536) mod 65536 mod 65535 = S mod 65535"
proof -
  define q r where "q = S div 65536" and "r = S mod 65536"
  have S: "S = q * 65536 + r" by (simp add: q_def r_def)
  have r: "r < 65536" by (simp add: r_def)
  have q: "q \<le> 2" using assms(1) S r by linarith
  have c: "r + q < 65536"
    using assms S r q by (cases "q = 2"; cases "q = 1") auto
  have "S + S div 65536 = q * 65536 + (r + q)" unfolding q_def [symmetric] using S by simp
  then have e1: "(S + S div 65536) mod 65536 = r + q" using c by (simp only: mod_mult_self3 mod_less)
  have "S = q * 65535 + (r + q)" using S by simp
  then have e2: "S mod 65535 = (r + q) mod 65535" by (simp only: mod_mult_self3)
  show ?thesis by (simp only: e1 e2)
qed

lemma recalc_csum16_mod:
  assumes "update_sum c old new \<noteq> 131071"
  shows "(unat (recalc_csum16 c old new) + unat new) mod 65535 = (unat c + unat old) mod 65535"
proof -
  define S where "S = update_sum c old new"
  define h where "h = (S + S div 65536) mod 65536"
  have b: "unat c < 65536" "unat old < 65536" "unat new < 65536" by (rule unat_u16_less)+
  have "S \<le> 196605" using b by (simp add: S_def update_sum_def)
  then have h: "h mod 65535 = S mod 65535" using fold_carry assms by (simp add: h_def S_def)
  have hl: "h \<le> 65535" by (simp add: h_def)
  have u: "unat (recalc_csum16 c old new) = 65535 - h" by (simp add: recalc_csum16_unat h_def S_def)
  have "unat (recalc_csum16 c old new) + unat new + h = 65535 + unat new" using u hl by linarith
  then have "(unat (recalc_csum16 c old new) + unat new + h) mod 65535 = unat new mod 65535"
    by (simp only: mod_add_self1)
  also have "\<dots> = (131070 + unat new) mod 65535" using mod_mult_self4 [of 65535 2 "unat new"] by simp
  also have "131070 + unat new = unat c + unat old + S" using b by (simp add: S_def update_sum_def)
  also have "(unat c + unat old + S) mod 65535 = (unat c + unat old + h) mod 65535"
    by (rule mod_add_cong [OF refl h [symmetric]])
  finally have "(unat (recalc_csum16 c old new) + unat new + h) mod 65535 =
      (unat c + unat old + h) mod 65535" .
  then obtain q1 q2 where "unat (recalc_csum16 c old new) + unat new + h + 65535 * q1 =
      unat c + unat old + h + 65535 * q2" unfolding nat_mod_eq_iff by blast
  then have "unat (recalc_csum16 c old new) + unat new + 65535 * q1 = unat c + unat old + 65535 * q2" by simp
  then show ?thesis unfolding nat_mod_eq_iff by blast
qed


lemma sum_list_update_split:
  assumes "i < length xs"
  shows "sum_list (xs[i := (x :: nat)]) + xs ! i = sum_list xs + x"
  using sum_list_update [OF assms, of x] elem_le_sum_list [OF assms] by simp

lemma csum_valid_update:
  assumes "csum_valid ws" and "i < length ws" and "j < length ws" and "i \<noteq> j"
    and "update_sum (ws ! j) (ws ! i) new \<noteq> 131071"
  shows "csum_valid (ws[i := new, j := recalc_csum16 (ws ! j) (ws ! i) new])"
proof -
  let ?c = "recalc_csum16 (ws ! j) (ws ! i) new"
  let ?ns = "map unat ws"
  have "sum_list (?ns[i := unat new]) + unat (ws ! i) = sum_list ?ns + unat new"
    using sum_list_update_split [of i ?ns "unat new"] assms(2) by simp
  moreover have "sum_list (?ns[i := unat new, j := unat ?c]) + unat (ws ! j) =
      sum_list (?ns[i := unat new]) + unat ?c"
    using sum_list_update_split [of j "?ns[i := unat new]" "unat ?c"] assms(3,4) by simp
  ultimately have "sum_list (?ns[i := unat new, j := unat ?c]) + (unat (ws ! j) + unat (ws ! i)) =
      sum_list ?ns + (unat ?c + unat new)" by simp
  moreover have "(sum_list ?ns + (unat ?c + unat new)) mod 65535 =
      (sum_list ?ns + (unat (ws ! j) + unat (ws ! i))) mod 65535"
    by (rule mod_add_cong [OF refl recalc_csum16_mod [OF assms(5)]])
  ultimately have "(sum_list (?ns[i := unat new, j := unat ?c]) + (unat (ws ! j) + unat (ws ! i))) mod 65535 =
      (sum_list ?ns + (unat (ws ! j) + unat (ws ! i))) mod 65535" by (simp only:)
  then obtain q1 q2 where "sum_list (?ns[i := unat new, j := unat ?c]) + (unat (ws ! j) + unat (ws ! i)) +
      65535 * q1 = sum_list ?ns + (unat (ws ! j) + unat (ws ! i)) + 65535 * q2"
    unfolding nat_mod_eq_iff by blast
  then have "sum_list (?ns[i := unat new, j := unat ?c]) + 65535 * q1 = sum_list ?ns + 65535 * q2" by simp
  then have "sum_list (?ns[i := unat new, j := unat ?c]) mod 65535 = sum_list ?ns mod 65535"
    unfolding nat_mod_eq_iff by blast
  then show ?thesis using assms(1) by (simp add: csum_valid_def ones_sum_def map_update)
qed

text \<open>C30. The incremental update of RFC 1624, as \<open>recalc_csum16\<close> computes it, keeps a checksum valid:
  when the words of a header sum to zero in ones' complement and one word is replaced, the updated
  checksum makes the new words sum to zero again.  The single sum for which the second carry is
  lost is excluded.\<close>

theorem recalc_csum16_keeps_valid:
  assumes "csum_valid ws" and "i < length ws" and "j < length ws" and "i \<noteq> j"
    and "update_sum (ws ! j) (ws ! i) new \<noteq> 131071"
  shows "csum_valid (ws[i := new, j := recalc_csum16 (ws ! j) (ws ! i) new])"
  using assms by (rule csum_valid_update)

theorem recalc_csum16_keeps_valid_witness:
  "csum_valid [0x4500, 0x4006, 0x7AF9] \<and>
   csum_valid ([0x4500, 0x4006, 0x7AF9][1 := 0x3f06, 2 := recalc_csum16 0x7AF9 0x4006 0x3f06])"
proof -
  have v: "csum_valid [0x4500, 0x4006, 0x7AF9]" by (simp add: csum_valid_def ones_sum_def)
  have "update_sum 0x7AF9 0x4006 0x3f06 \<noteq> 131071" by (simp add: update_sum_def)
  then show ?thesis using v recalc_csum16_keeps_valid [OF v, of 1 2 "0x3f06"] by simp
qed

text \<open>The excluded sum: the words \<open>0xffff\<close>, \<open>0\<close> and the checksum \<open>0\<close> are valid, and after the second
  word becomes \<open>1\<close> the updated checksum is not.\<close>

lemma recalc_csum16_loses_carry:
  "csum_valid [0xffff, 0, 0] \<and> recalc_csum16 0 0 1 = 0xffff \<and>
   \<not> csum_valid [0xffff, 1, recalc_csum16 0 0 1]"
proof -
  have "recalc_csum16 0 0 1 = 0xffff" by code_simp
  then show ?thesis by (simp add: csum_valid_def ones_sum_def)
qed

section \<open>The sum over a buffer\<close>

fun words_of :: "byte list \<Rightarrow> u16 list" where
  "words_of (a # b # r) = load16 [a, b] # words_of r"
| "words_of [a] = [ucast a]"
| "words_of [] = []"

lemma length_words_of: "length (words_of p) = (length p + 1) div 2"
  by (induction p rule: words_of.induct) simp_all

lemma csum_continue_sum:
  assumes "unat partial + sum_list (map unat (words_of data)) < 2 ^ 32"
  shows "unat (csum_continue partial data) = unat partial + sum_list (map unat (words_of data))"
  using assms
proof (induction partial data rule: csum_continue.induct)
  case (1 partial a b r)
  have "unat (csum_add16 partial (load16 [a, b])) = unat partial + unat (load16 [a, b])"
    using 1 by (simp add: csum_add16_def unat_word_ariths)
  then show ?case using 1 by simp
next
  case (2 partial a)
  have "unat a < 2 ^ 8" using unsigned_less [of a] by simp
  then have "unat (ucast a :: u32) = unat (ucast a :: u16)"
    by (simp add: unsigned_ucast_eq take_bit_nat_eq_self)
  then show ?case using 2 by (simp add: unat_word_ariths)
qed simp


lemma csum_finish_unat:
  "unat (csum_finish p) = 65535 - (unat p mod 65536 + unat p div 65536) mod 65536"
proof -
  define s where "s = (p AND 0xffff) + drop_bit 16 p"
  have b: "unat p < 2 ^ 32" using unsigned_less [of p] by simp
  have "p AND 0xffff = take_bit 16 p" by (simp add: take_bit_eq_mask mask_eq_exp_minus_1)
  then have "p AND 0xffff = p mod 65536" by (simp add: take_bit_eq_mod)
  then have l: "unat (p AND 0xffff) = unat p mod 65536" by (simp add: unat_mod)
  have "unat p div 65536 < 65536" using b by (simp add: div_less_iff_less_mult)
  then have "unat s = unat p mod 65536 + unat p div 65536"
    using l by (simp add: s_def unat_word_ariths unat_drop16)
  then have "unat (ucast s :: u16) = (unat p mod 65536 + unat p div 65536) mod 65536"
    by (simp add: unat_low16)
  moreover have "csum_finish p = NOT (ucast s)"
    unfolding csum_finish_def s_def [symmetric] by (rule bit_word_eqI) (simp add: bit_simps)
  ultimately show ?thesis by (simp add: unat_not16)
qed

text \<open>C31. The checksum \<open>csum\<close> computes over a buffer makes the words of the buffer and the checksum
  sum to zero, provided the sum of the words fits the accumulator and folding its carries once
  leaves no carry.\<close>

theorem csum_makes_valid:
  assumes "sum_list (map unat (words_of data)) = S" and "S < 2 ^ 32" and "S mod 65536 + S div 65536 < 65536"
  shows "csum_valid (words_of data @ [csum data])"
proof -
  have p: "unat (csum_continue 0 data) = S" using csum_continue_sum [of 0 data] assms(1,2) by simp
  have u: "unat (csum data) = 65535 - (S mod 65536 + S div 65536)"
    using csum_finish_unat [of "csum_continue 0 data"] p assms(3) by (simp add: csum_def)
  define q r where "q = S div 65536" and "r = S mod 65536"
  have S: "S = q * 65536 + r" by (simp add: q_def r_def)
  have "r + q \<le> 65535" using assms(3) by (simp add: q_def r_def)
  then have "S + unat (csum data) = 65535 * (q + 1)"
    using u [folded q_def r_def] S by (simp only: distrib_left)
  then have "(S + unat (csum data)) mod 65535 = 0" by (simp only: mod_mult_self1_is_0)
  then show ?thesis using assms(1) by (simp add: csum_valid_def ones_sum_def)
qed

theorem csum_makes_valid_witness:
  "csum_valid (words_of [0x45, 0, 0, 0x54, 0x40, 1] @ [csum [0x45, 0, 0, 0x54, 0x40, 1]])"
proof -
  have "words_of [0x45, 0, 0, 0x54, 0x40, 1] = [0x45, 0x5400, 0x140]" by code_simp
  then have "sum_list (map unat (words_of [0x45, 0, 0, 0x54, 0x40, 1])) = 0x5585" by simp
  then show ?thesis by (rule csum_makes_valid) simp_all
qed

lemma csum_finish_loses_carry:
  "\<not> csum_valid (words_of [0xff, 0xff, 0xff, 0xff, 1, 0] @ [csum [0xff, 0xff, 0xff, 0xff, 1, 0]])"
proof -
  have "words_of [0xff, 0xff, 0xff, 0xff, 1, 0] = [0xffff, 0xffff, 1]"
    "csum [0xff, 0xff, 0xff, 0xff, 1, 0] = 0xffff" by code_simp+
  then show ?thesis by (simp add: csum_valid_def ones_sum_def)
qed

section \<open>Wider fields\<close>

text \<open>The two halves of a 32-bit field, in the order the update takes them.\<close>

definition update_ok32 :: "u16 \<Rightarrow> u32 \<Rightarrow> u32 \<Rightarrow> bool" where
  "update_ok32 c old new \<longleftrightarrow> update_sum c (ucast old) (ucast new) \<noteq> 131071 \<and>
     update_sum (recalc_csum16 c (ucast old) (ucast new)) (ucast (drop_bit 16 old)) (ucast (drop_bit 16 new)) \<noteq> 131071"

definition halves :: "u32 \<Rightarrow> nat" where
  "halves w = unat (ucast w :: u16) + unat (ucast (drop_bit 16 w) :: u16)"

lemma recalc_csum32_mod:
  assumes "update_ok32 c old new"
  shows "(unat (recalc_csum32 c old new) + halves new) mod 65535 = (unat c + halves old) mod 65535"
proof -
  let ?c = "recalc_csum16 c (ucast old) (ucast new)"
  have 1: "(unat ?c + unat (ucast new :: u16)) mod 65535 = (unat c + unat (ucast old :: u16)) mod 65535"
    by (rule recalc_csum16_mod) (use assms in \<open>simp add: update_ok32_def\<close>)
  have 2: "(unat (recalc_csum32 c old new) + unat (ucast (drop_bit 16 new) :: u16)) mod 65535 =
      (unat ?c + unat (ucast (drop_bit 16 old) :: u16)) mod 65535"
    unfolding recalc_csum32_def by (rule recalc_csum16_mod) (use assms in \<open>simp add: update_ok32_def\<close>)
  have "(unat (recalc_csum32 c old new) + halves new) mod 65535 =
      (unat (recalc_csum32 c old new) + unat (ucast (drop_bit 16 new) :: u16) + unat (ucast new :: u16)) mod 65535"
    by (simp add: halves_def add_ac)
  also have "\<dots> = (unat ?c + unat (ucast (drop_bit 16 old) :: u16) + unat (ucast new :: u16)) mod 65535"
    by (rule mod_add_cong [OF 2 refl])
  also have "\<dots> = (unat ?c + unat (ucast new :: u16) + unat (ucast (drop_bit 16 old) :: u16)) mod 65535"
    by (simp add: add_ac)
  also have "\<dots> = (unat c + unat (ucast old :: u16) + unat (ucast (drop_bit 16 old) :: u16)) mod 65535"
    by (rule mod_add_cong [OF 1 refl])
  finally show ?thesis by (simp add: halves_def add_ac)
qed

end
