(* ===== verification/Packet_Bytes.thy ===== *)
theory Packet_Bytes
  imports Checksums
begin

text \<open>
  Reads and writes of header fields inside a frame.  A field is written in place by
  \<open>put_bytes\<close>; the 16-bit words of a header are \<open>hdr_words\<close>, the list that a checksum covers.
\<close>

section \<open>Fields of a frame\<close>

definition put_bytes :: "nat \<Rightarrow> byte list \<Rightarrow> byte list \<Rightarrow> byte list" where
  "put_bytes off p d = take off d @ p @ drop (off + length p) d"

definition get8 :: "byte list \<Rightarrow> nat \<Rightarrow> u8" where "get8 d off = byte_at d off"
definition get16 :: "byte list \<Rightarrow> nat \<Rightarrow> u16" where "get16 d off = load16 (drop off d)"
definition get32 :: "byte list \<Rightarrow> nat \<Rightarrow> u32" where "get32 d off = load32 (drop off d)"
definition get64 :: "byte list \<Rightarrow> nat \<Rightarrow> u64" where "get64 d off = load64 (drop off d)"

lemma length_put_bytes [simp]: "off + length p \<le> length d \<Longrightarrow> length (put_bytes off p d) = length d"
  by (simp add: put_bytes_def)

lemma byte_at_put_bytes:
  "off + length p \<le> length d \<Longrightarrow>
     byte_at (put_bytes off p d) i = (if off \<le> i \<and> i < off + length p then byte_at p (i - off) else byte_at d i)"
  by (auto simp: byte_at_def put_bytes_def nth_append)

lemma get16_bytes: "get16 d off = word_cat (byte_at d (off + 1)) (byte_at d off)"
  by (simp add: get16_def load16_def)

lemma get32_halves: "get32 d off = word_cat (get16 d (off + 2)) (get16 d off)"
  by (simp add: get32_def get16_def load32_def)

lemma get16_put_other:
  "off + length p \<le> length d \<Longrightarrow> k + 2 \<le> off \<or> off + length p \<le> k \<Longrightarrow> get16 (put_bytes off p d) k = get16 d k"
  by (auto simp: get16_bytes byte_at_put_bytes)

lemma byte_at_store16:
  "byte_at (store16 v) 0 = ucast v" "byte_at (store16 v) (Suc 0) = ucast (drop_bit 8 v)"
  by (simp_all add: store16_def byte_at_def)

lemma get16_put16: "off + 2 \<le> length d \<Longrightarrow> get16 (put_bytes off (store16 v) d) off = v"
  by (simp add: get16_bytes byte_at_put_bytes byte_at_store16 cat_split16)

lemma get32_put32:
  assumes "off + 4 \<le> length d" shows "get32 (put_bytes off (store32 v) d) off = v"
proof -
  have "drop off (put_bytes off (store32 v) d) = store32 v @ drop (off + 4) d"
    using assms by (simp add: put_bytes_def)
  then show ?thesis by (simp add: get32_def)
qed

lemma put_second_byte:
  "off + 2 \<le> length d \<Longrightarrow> put_bytes (off + 1) [b] d = put_bytes off [byte_at d off, b] d"
  by (simp add: put_bytes_def take_Suc_conv_app_nth byte_at_def)

lemma store16_cat: "store16 (word_cat (b :: u8) (a :: u8)) = [a, b]"
proof -
  have "ucast (word_cat b a :: u16) = a"
    by (rule bit_eqI) (simp add: bit_unsigned_iff bit_word_cat_iff)
  moreover have "ucast (drop_bit 8 (word_cat b a :: u16)) = b"
    by (rule bit_eqI) (simp add: bit_unsigned_iff bit_drop_bit_eq bit_word_cat_iff)
  ultimately show ?thesis by (simp add: store16_def)
qed

lemma push8_add: "push_bit 8 (ucast (a :: u8)) + ucast b = (word_cat a (b :: u8) :: u16)"
  by (simp add: word_cat_eq)

lemma ntohs_cat: "ntohs (word_cat (a :: u8) (b :: u8)) = word_cat b a"
  by (simp add: ntohs_def store16_cat load16_def byte_at_def)

section \<open>The words of a header\<close>

definition hdr_words :: "nat \<Rightarrow> nat \<Rightarrow> byte list \<Rightarrow> u16 list" where
  "hdr_words n off d = map (\<lambda>i. get16 d (off + 2 * i)) [0..<n]"

lemma length_hdr_words [simp]: "length (hdr_words n off d) = n"
  by (simp add: hdr_words_def)

lemma nth_hdr_words: "i < n \<Longrightarrow> hdr_words n off d ! i = get16 d (off + 2 * i)"
  by (simp add: hdr_words_def)

lemma hdr_words_put16:
  assumes "k < n" and "off + 2 * n \<le> length d"
  shows "hdr_words n off (put_bytes (off + 2 * k) (store16 v) d) = (hdr_words n off d)[k := v]"
proof (rule nth_equalityI)
  fix i assume "i < length (hdr_words n off (put_bytes (off + 2 * k) (store16 v) d))"
  then have i: "i < n" by simp
  show "hdr_words n off (put_bytes (off + 2 * k) (store16 v) d) ! i = (hdr_words n off d)[k := v] ! i"
  proof (cases "i = k")
    case True
    then show ?thesis using assms get16_put16 [of "off + 2 * k" d v] by (simp add: nth_hdr_words)
  next
    case False
    have "get16 (put_bytes (off + 2 * k) (store16 v) d) (off + 2 * i) = get16 d (off + 2 * i)"
      by (rule get16_put_other) (use assms False in auto)
    then show ?thesis using i False by (simp add: nth_hdr_words)
  qed
qed simp

text \<open>Replacing a word and its checksum by the incremental formula keeps the header valid.\<close>

lemma hdr_update_valid:
  assumes "csum_valid (hdr_words n off d)" and "off + 2 * n \<le> length d" and "i < n" "j < n" "i \<noteq> j"
    and "update_sum (get16 d (off + 2 * j)) (get16 d (off + 2 * i)) v \<noteq> 131071"
  shows "csum_valid (hdr_words n off
    (put_bytes (off + 2 * i) (store16 v)
      (put_bytes (off + 2 * j) (store16 (recalc_csum16 (get16 d (off + 2 * j)) (get16 d (off + 2 * i)) v)) d)))"
proof -
  let ?c = "recalc_csum16 (get16 d (off + 2 * j)) (get16 d (off + 2 * i)) v"
  have "hdr_words n off (put_bytes (off + 2 * i) (store16 v) (put_bytes (off + 2 * j) (store16 ?c) d)) =
      (hdr_words n off d)[j := ?c, i := v]"
    using assms(2-4) by (simp add: hdr_words_put16)
  also have "\<dots> = (hdr_words n off d)[i := v, j := ?c]" using assms(5) by (simp add: list_update_swap)
  finally show ?thesis
    using csum_valid_update [of "hdr_words n off d" i j v] assms by (simp add: nth_hdr_words)
qed

end
