(* ===== verification/Meter_Entry.thy ===== *)
theory Meter_Entry
  imports Dp_Ports Packet_Buffers Packet_Bytes Flow_Refs "HOL-Library.Signed_Division"
begin

text \<open>
  Meter entries, \<^verbatim>\<open>udatapath/meter_entry.c\<close>: token buckets that are refilled with the time that
  passed, consumed by packets, and the bands that are applied to packets above the rate.  The
  counters and the arithmetic on them have the widths of the source.  The index \<open>-1\<close> of
  \<open>choose_band\<close> is \<open>None\<close>.
\<close>

unbundle bit_operations_syntax

section \<open>Entries\<close>

definition OFPMF_KBPS :: u16 where "OFPMF_KBPS = 1"
definition OFPMF_PKTPS :: u16 where "OFPMF_PKTPS = 2"
definition OFPMF_BURST :: u16 where "OFPMF_BURST = 4"
definition OFPMF_STATS :: u16 where "OFPMF_STATS = 8"

record ofl_meter_band_stats =
  mb_packet_count :: u64
  mb_byte_count :: u64
  mb_last_fill :: u64
  mb_tokens :: u64

record ofl_meter_stats =
  ms_meter_id :: u32
  ms_flow_count :: u32
  ms_packet_in_count :: u64
  ms_byte_in_count :: u64
  ms_duration_sec :: u32
  ms_duration_nsec :: u32
  ms_band_stats :: "ofl_meter_band_stats list"

record ofl_meter_config =
  mc_flags :: u16
  mc_meter_id :: u32
  mc_bands :: "ofl_meter_band list"

record meter_entry =
  me_stats :: ofl_meter_stats
  me_config :: ofl_meter_config
  me_created :: nat
  me_flow_refs :: "addr list"

definition meter_entry_create :: "nat \<Rightarrow> ofl_msg_meter_mod \<Rightarrow> meter_entry" where
  "meter_entry_create now m =
    \<lparr>me_stats = \<lparr>ms_meter_id = mm_meter_id m, ms_flow_count = 0, ms_packet_in_count = 0, ms_byte_in_count = 0,
                 ms_duration_sec = 0, ms_duration_nsec = 0,
                 ms_band_stats = replicate (length (mm_bands m))
                   \<lparr>mb_packet_count = 0, mb_byte_count = 0, mb_last_fill = of_nat now, mb_tokens = 0\<rparr>\<rparr>,
     me_config = \<lparr>mc_flags = mm_flags m, mc_meter_id = mm_meter_id m, mc_bands = mm_bands m\<rparr>,
     me_created = now, me_flow_refs = []\<rparr>"

definition meter_entry_update :: "nat \<Rightarrow> meter_entry \<Rightarrow> meter_entry" where
  "meter_entry_update now e =
    e\<lparr>me_stats := (me_stats e)\<lparr>ms_duration_sec := dur_sec now (me_created e),
                              ms_duration_nsec := dur_nsec now (me_created e)\<rparr>\<rparr>"

section \<open>References of flows\<close>

definition meter_has_flow_ref :: "meter_entry \<Rightarrow> addr \<Rightarrow> bool" where
  "meter_has_flow_ref e fe \<longleftrightarrow> list_ex (\<lambda>f. f = fe) (me_flow_refs e)"

definition meter_entry_add_flow_ref :: "addr \<Rightarrow> meter_entry \<Rightarrow> meter_entry" where
  "meter_entry_add_flow_ref fe e =
    (if meter_has_flow_ref e fe then e
     else e\<lparr>me_flow_refs := me_flow_refs e @ [fe],
            me_stats := (me_stats e)\<lparr>ms_flow_count := ms_flow_count (me_stats e) + 1\<rparr>\<rparr>)"

definition meter_entry_del_flow_ref :: "addr \<Rightarrow> meter_entry \<Rightarrow> meter_entry" where
  "meter_entry_del_flow_ref fe e =
    fold (\<lambda>f e. if f = fe then e\<lparr>me_flow_refs := remove1 f (me_flow_refs e),
                                 me_stats := (me_stats e)\<lparr>ms_flow_count := ms_flow_count (me_stats e) - 1\<rparr>\<rparr>
                else e) (me_flow_refs e) e"

section \<open>Token buckets\<close>

definition consume_tokens :: "u16 \<Rightarrow> nat \<Rightarrow> ofl_meter_band_stats \<Rightarrow> bool \<times> ofl_meter_band_stats" where
  "consume_tokens meter_flag sz s =
    (if meter_flag AND OFPMF_KBPS \<noteq> 0 then
       let pkt_size = (of_nat (sz * 8) :: u32)
       in if ucast pkt_size \<le> mb_tokens s then (True, s\<lparr>mb_tokens := mb_tokens s - ucast pkt_size\<rparr>)
          else (False, s)
     else if meter_flag AND OFPMF_PKTPS \<noteq> 0 then
       if 1000 \<le> mb_tokens s then (True, s\<lparr>mb_tokens := mb_tokens s - 1000\<rparr>) else (False, s)
     else (False, s))"

text \<open>The loop of \<open>choose_band\<close>: the state is the index and the rate of the best band so far.\<close>

fun choose_walk ::
    "u16 \<Rightarrow> nat \<Rightarrow> nat \<Rightarrow> nat option \<Rightarrow> u32 \<Rightarrow> ofl_meter_band list \<Rightarrow> ofl_meter_band_stats list \<Rightarrow>
     nat option \<times> ofl_meter_band_stats list" where
  "choose_walk flags sz i best tmp_rate (b # bs) (s # ss) =
    (let (ok, s1) = consume_tokens flags sz s;
         better = \<not> ok \<and> tmp_rate < band_rate b;
         (r, ss1) = choose_walk flags sz (Suc i) (if better then Some i else best)
                      (if better then band_rate b else tmp_rate) bs ss
     in (r, s1 # ss1))"
| "choose_walk flags sz i best tmp_rate bs ss = (best, ss)"

definition choose_band :: "nat \<Rightarrow> meter_entry \<Rightarrow> nat option \<times> meter_entry" where
  "choose_band sz e =
    (let (r, ss) = choose_walk (mc_flags (me_config e)) sz 0 None 0 (mc_bands (me_config e))
                     (ms_band_stats (me_stats e))
     in (r, e\<lparr>me_stats := (me_stats e)\<lparr>ms_band_stats := ss\<rparr>\<rparr>))"

definition refill_band :: "u16 \<Rightarrow> nat \<Rightarrow> ofl_meter_band \<Rightarrow> ofl_meter_band_stats \<Rightarrow> ofl_meter_band_stats" where
  "refill_band flags now b s =
    (let elapsed_msec = of_nat now - mb_last_fill s;
         rate = band_rate b * 1000;
         burst_size = band_burst b * 1000;
         tokens = word_of_int (sint (ucast rate * elapsed_msec) sdiv 1000) + mb_tokens s;
         cap = (ucast (if flags AND OFPMF_BURST = 0 then rate else burst_size) :: u64);
         s1 = s\<lparr>mb_last_fill := of_nat now\<rparr>
     in if flags AND OFPMF_KBPS \<noteq> 0 \<and> 1 \<le> tokens then s1\<lparr>mb_tokens := min tokens cap\<rparr>
        else if 1000 \<le> tokens then s1\<lparr>mb_tokens := min tokens cap\<rparr>
        else s1)"

definition refill_bucket :: "nat \<Rightarrow> meter_entry \<Rightarrow> meter_entry" where
  "refill_bucket now e =
    e\<lparr>me_stats := (me_stats e)\<lparr>ms_band_stats :=
        map2 (refill_band (mc_flags (me_config e)) now) (mc_bands (me_config e)) (ms_band_stats (me_stats e))\<rparr>\<rparr>"

section \<open>Remarking\<close>

definition remarkable :: "u8 \<Rightarrow> u8 \<Rightarrow> bool" where
  "remarkable old_drop prec \<longleftrightarrow> old_drop = 0x8 \<and> prec \<le> 2 \<or> old_drop = 0x10 \<and> prec \<le> 1"

definition remark_tos :: "u8 \<Rightarrow> u8 \<Rightarrow> u8" where
  "remark_tos prec tos = ((tos AND 0x1C) + push_bit 3 prec) OR (tos AND 0xE3)"

definition remark_ipv4 :: "u8 \<Rightarrow> nat \<Rightarrow> byte list \<Rightarrow> byte list" where
  "remark_ipv4 prec off d =
    (let ihl_ver = get8 d off; tos = get8 d (off + 1)
     in if remarkable (tos AND 0x1C) prec then
          let new_tos = remark_tos prec tos;
              old_val = ntohs (push_bit 8 (ucast ihl_ver) + ucast tos);
              new_val = ntohs (push_bit 8 (ucast ihl_ver) + ucast new_tos);
              d1 = put_bytes (off + 10) (store16 (recalc_csum16 (get16 d (off + 10)) old_val new_val)) d
          in put_bytes (off + 1) [new_tos] d1
        else d)"

definition remark_ipv6 :: "u8 \<Rightarrow> nat \<Rightarrow> byte list \<Rightarrow> byte list" where
  "remark_ipv6 prec off d =
    (let v = ntohl (get32 d off); old_drop = v AND 0x1C00000
     in if old_drop = 0x800000 \<and> prec \<le> 2 \<or> old_drop = 0x1000000 \<and> prec \<le> 1 then
          put_bytes off (store32 (ntohl ((old_drop + push_bit 23 (ucast prec)) OR (v AND 0xFE3FFFFF)))) d
        else d)"

definition dscp_remark :: "packet_parser \<Rightarrow> u8 \<Rightarrow> packet \<Rightarrow> packet" where
  "dscp_remark parse prec k =
    (let h = packet_handle_std_validate parse (pkt_data k) (pkt_in_port k) (pkt_handle_std k)
     in if hs_valid h then
          let d = (case pr_ipv4 (hs_proto h) of
                     Some off \<Rightarrow> remark_ipv4 prec off (pkt_data k)
                   | None \<Rightarrow>
                      (case pr_ipv6 (hs_proto h) of
                         Some off \<Rightarrow> remark_ipv6 prec off (pkt_data k)
                       | None \<Rightarrow> pkt_data k))
          in k\<lparr>pkt_buffer := (pkt_buffer k)\<lparr>ob_data := d\<rparr>, pkt_handle_std := h\<lparr>hs_valid := False\<rparr>\<rparr>
        else k\<lparr>pkt_handle_std := h\<rparr>)"

section \<open>Applying a meter\<close>

text \<open>The result holds the meter, the packets and the packet pointer, which is null when the packet
  was dropped.  A freed packet, and a band without counters, fault.\<close>

definition band_counted :: "nat \<Rightarrow> nat \<Rightarrow> meter_entry \<Rightarrow> meter_entry" where
  "band_counted b sz e =
    e\<lparr>me_stats := (me_stats e)\<lparr>ms_band_stats :=
       (ms_band_stats (me_stats e))[b := (\<lambda>s. s\<lparr>mb_byte_count := mb_byte_count s + of_nat sz,
                                                mb_packet_count := mb_packet_count s + 1\<rparr>)
                                          (ms_band_stats (me_stats e) ! b)]\<rparr>\<rparr>"

definition meter_entry_apply ::
    "packet_parser \<Rightarrow> nat \<Rightarrow> addr \<Rightarrow> meter_entry \<Rightarrow> dp_buffers \<Rightarrow>
     (addr option \<times> meter_entry \<times> dp_buffers) option" where
  "meter_entry_apply parse now a e dpb =
    (case pkts dpb a of
       None \<Rightarrow> None
     | Some k \<Rightarrow>
        (let sz = length (pkt_data k);
             e1 = e\<lparr>me_stats := (me_stats e)\<lparr>ms_packet_in_count := ms_packet_in_count (me_stats e) + 1,
                        ms_byte_in_count := ms_byte_in_count (me_stats e) + of_nat sz\<rparr>\<rparr>;
             (r, e2) = choose_band sz e1
         in case r of
              None \<Rightarrow> Some (Some a, e2, dpb)
            | Some b \<Rightarrow>
               (let e3 = band_counted b sz e2
                in case mc_bands (me_config e2) ! b of
                     DropBand rt bu \<Rightarrow> map_option (\<lambda>dpb1. (None, e3, dpb1)) (packet_destroy now a dpb)
                   | DscpRemarkBand rt bu prec \<Rightarrow>
                       Some (Some a, e3, dpb\<lparr>pkts := (pkts dpb)(a \<mapsto> dscp_remark parse prec k)\<rparr>)
                   | ExperimenterBand rt bu x \<Rightarrow> Some (Some a, e3, dpb))))"

section \<open>References and their count\<close>

lemma meter_has_flow_ref_iff: "meter_has_flow_ref e fe \<longleftrightarrow> fe \<in> set (me_flow_refs e)"
  by (auto simp: meter_has_flow_ref_def list_ex_iff)

lemma meter_del_fold:
  "distinct (me_flow_refs e) \<Longrightarrow> distinct xs \<Longrightarrow>
   fold (\<lambda>f e. if f = fe then e\<lparr>me_flow_refs := remove1 f (me_flow_refs e),
                                me_stats := (me_stats e)\<lparr>ms_flow_count := ms_flow_count (me_stats e) - 1\<rparr>\<rparr>
                else e) xs e =
   (if fe \<in> set xs then e\<lparr>me_flow_refs := remove1 fe (me_flow_refs e),
                           me_stats := (me_stats e)\<lparr>ms_flow_count := ms_flow_count (me_stats e) - 1\<rparr>\<rparr>
    else e)"
proof (induction xs arbitrary: e)
  case Nil
  then show ?case by simp
next
  case (Cons x xs)
  then show ?case by (cases "x = fe") auto
qed

lemma meter_del_flow_ref_eq:
  assumes "distinct (me_flow_refs e)"
  shows "meter_entry_del_flow_ref fe e =
    (if fe \<in> set (me_flow_refs e) then
       e\<lparr>me_flow_refs := remove1 fe (me_flow_refs e),
         me_stats := (me_stats e)\<lparr>ms_flow_count := ms_flow_count (me_stats e) - 1\<rparr>\<rparr>
     else e)"
  unfolding meter_entry_del_flow_ref_def using meter_del_fold [OF assms assms] .

interpretation mr: flow_referrer me_flow_refs "\<lambda>e. ms_flow_count (me_stats e)" meter_entry_add_flow_ref
  meter_entry_del_flow_ref
  by unfold_locales
    (simp_all add: meter_entry_add_flow_ref_def meter_has_flow_ref_iff meter_del_flow_ref_eq remove1_idem)

section \<open>The rate of a band\<close>

lemma choose_walk_stats:
  "length bs = length ss \<Longrightarrow>
     snd (choose_walk flags sz i best r bs ss) = map (\<lambda>s. snd (consume_tokens flags sz s)) ss"
proof (induction bs arbitrary: ss i best r)
  case Nil
  then show ?case by simp
next
  case (Cons b bs)
  then show ?case by (cases ss) (simp_all add: Let_def case_prod_beta)
qed

datatype meter_event = Refill nat | Packet nat

primrec meter_event_step :: "meter_event \<Rightarrow> meter_entry \<Rightarrow> meter_entry" where
  "meter_event_step (Refill t) e = refill_bucket t e"
| "meter_event_step (Packet sz) e = snd (choose_band sz e)"

definition token_cost :: "u16 \<Rightarrow> nat \<Rightarrow> nat" where
  "token_cost flags sz =
    (if flags AND OFPMF_KBPS \<noteq> 0 then unat (of_nat (sz * 8) :: u32) else 1000)"

text \<open>What the packets that a band let through cost: bits, or thousandths of packets.\<close>

fun conforming :: "nat \<Rightarrow> meter_event list \<Rightarrow> meter_entry \<Rightarrow> nat" where
  "conforming i [] e = 0"
| "conforming i (v # vs) e =
    (case v of
       Refill t \<Rightarrow> 0
     | Packet sz \<Rightarrow> if fst (consume_tokens (mc_flags (me_config e)) sz (ms_band_stats (me_stats e) ! i))
                   then token_cost (mc_flags (me_config e)) sz else 0)
    + conforming i vs (meter_event_step v e)"

fun refill_times :: "meter_event list \<Rightarrow> nat list" where
  "refill_times [] = []"
| "refill_times (v # vs) = (case v of Refill t \<Rightarrow> t # refill_times vs | Packet sz \<Rightarrow> refill_times vs)"

lemma meter_event_step_config [simp]: "me_config (meter_event_step v e) = me_config e"
  by (cases v) (simp_all add: refill_bucket_def choose_band_def Let_def split: prod.splits)

definition bands_match :: "meter_entry \<Rightarrow> bool" where
  "bands_match e \<longleftrightarrow> length (mc_bands (me_config e)) = length (ms_band_stats (me_stats e))"

lemma step_stats:
  assumes "bands_match e" and "i < length (mc_bands (me_config e))"
  shows "bands_match (meter_event_step v e)"
    and "ms_band_stats (me_stats (meter_event_step v e)) ! i =
      (case v of Refill t \<Rightarrow> refill_band (mc_flags (me_config e)) t (mc_bands (me_config e) ! i) (ms_band_stats (me_stats e) ! i)
       | Packet sz \<Rightarrow> snd (consume_tokens (mc_flags (me_config e)) sz (ms_band_stats (me_stats e) ! i)))"
proof -
  have c: "ms_band_stats (me_stats (snd (choose_band sz e))) =
      map (\<lambda>s. snd (consume_tokens (mc_flags (me_config e)) sz s)) (ms_band_stats (me_stats e))" for sz
    using choose_walk_stats [of "mc_bands (me_config e)" "ms_band_stats (me_stats e)"] assms(1)
    by (simp add: choose_band_def bands_match_def Let_def case_prod_beta)
  show "bands_match (meter_event_step v e)"
    using assms(1) c by (cases v) (simp_all add: bands_match_def refill_bucket_def choose_band_def Let_def
        split: prod.splits)
  show "ms_band_stats (me_stats (meter_event_step v e)) ! i =
      (case v of Refill t \<Rightarrow> refill_band (mc_flags (me_config e)) t (mc_bands (me_config e) ! i) (ms_band_stats (me_stats e) ! i)
       | Packet sz \<Rightarrow> snd (consume_tokens (mc_flags (me_config e)) sz (ms_band_stats (me_stats e) ! i)))"
    using assms c by (cases v) (simp_all add: bands_match_def refill_bucket_def)
qed

lemma unat_ucast_32_64: "unat (ucast (w :: u32) :: u64) = unat w"
proof -
  have "unat w < 2 ^ 32" using unsigned_less [of w] by simp
  then show ?thesis by (simp add: unsigned_ucast_eq take_bit_nat_eq_self)
qed

lemma consume_tokens_cost:
  "fst (consume_tokens flags sz s) \<Longrightarrow>
     unat (mb_tokens s) = token_cost flags sz + unat (mb_tokens (snd (consume_tokens flags sz s)))"
  "\<not> fst (consume_tokens flags sz s) \<Longrightarrow> snd (consume_tokens flags sz s) = s"
  "mb_last_fill (snd (consume_tokens flags sz s)) = mb_last_fill s"
  by (auto simp: consume_tokens_def token_cost_def Let_def unat_sub word_le_nat_alt unat_ucast_32_64 split: if_splits)


lemma sint_small:
  fixes w :: u64
  assumes "unat w < 2 ^ 63" shows "sint w = int (unat w)"
proof -
  have "int (unat w) < int (2 ^ 63)" using assms by (simp only: of_nat_less_iff)
  then have lt: "uint w < 2 ^ 63" unfolding uint_nat [of w] by simp
  have "0 \<le> uint w" by simp
  then have "- (2 ^ 63) \<le> uint w" by (rule order_trans [rotated]) simp
  then have "signed_take_bit 63 (uint w) = uint w" using lt by (rule signed_take_bit_int_eq_self)
  then show ?thesis unfolding uint_nat [of w, symmetric] by (simp add: sint_uint)
qed

lemma sdiv_nonneg: "int a sdiv 1000 = int (a div 1000)"
  by (cases "a = 0") (simp_all add: signed_divide_int_def zdiv_int)

lemma refill_word:
  fixes rate :: u32 and last_fill tokens :: u64
  assumes l: "unat last_fill = t" and t: "t \<le> t'" "t' < 2 ^ 63" "t' - t < 2 ^ 31"
    and tok: "unat tokens < 2 ^ 32"
  shows "unat (word_of_int (sint (ucast rate * (of_nat t' - last_fill)) sdiv 1000) + tokens) =
    unat rate * (t' - t) div 1000 + unat tokens"
proof -
  let ?w = "ucast rate * (of_nat t' - last_fill) :: u64"
  let ?n = "unat rate * (t' - t)"
  have n: "unat (of_nat t' :: u64) = t'"
    using t(2) by (simp add: unsigned_of_nat take_bit_nat_eq_self)
  have el: "unat (of_nat t' - last_fill) = t' - t"
    using l t(1) n by (simp add: unat_sub word_le_nat_alt)
  have r: "unat rate < 2 ^ 32" using unsigned_less [of rate] by simp
  have "?n < 2 ^ 32 * 2 ^ 31" using r t(3) by (intro mult_strict_mono) auto
  then have pr: "?n < 2 ^ 63" by simp
  have p: "unat ?w = ?n" using pr by (simp add: unat_word_ariths el unat_ucast_32_64)
  have "sint ?w sdiv 1000 = int (?n div 1000)"
    using sint_small [of ?w] pr unfolding p by (simp only: sdiv_nonneg)
  then have w: "word_of_int (sint ?w sdiv 1000) = (of_nat (?n div 1000) :: u64)" by simp
  have d: "?n div 1000 < 2 ^ 63" using pr by (rule le_less_trans [OF div_le_dividend])
  then have "unat (of_nat (?n div 1000) :: u64) = ?n div 1000"
    by (simp add: unsigned_of_nat take_bit_nat_eq_self)
  then show ?thesis unfolding w using tok d by (simp add: unat_word_ariths)
qed

lemma refill_band_bound:
  assumes r: "unat (band_rate b) * 1000 < 2 ^ 32"
    and l: "unat (mb_last_fill s) = t" and t: "t \<le> t'" "t' < 2 ^ 63" "t' - t < 2 ^ 31"
    and tok: "unat (mb_tokens s) < 2 ^ 32"
  shows "unat (mb_last_fill (refill_band flags t' b s)) = t'"
    and "unat (mb_tokens (refill_band flags t' b s)) < 2 ^ 32"
    and "unat (mb_tokens (refill_band flags t' b s)) \<le> unat (band_rate b) * (t' - t) + unat (mb_tokens s)"
proof -
  let ?tokens = "word_of_int (sint (ucast (band_rate b * 1000) * (of_nat t' - mb_last_fill s)) sdiv 1000) + mb_tokens s"
  let ?cap = "ucast (if flags AND OFPMF_BURST = 0 then band_rate b * 1000 else band_burst b * 1000) :: u64"
  have n: "unat (of_nat t' :: u64) = t'" using t(2) by (simp add: unsigned_of_nat take_bit_nat_eq_self)
  have "unat (band_rate b * 1000) = unat (band_rate b) * 1000" using r by (simp add: unat_word_ariths)
  then have T: "unat ?tokens = unat (band_rate b) * (t' - t) + unat (mb_tokens s)"
    using refill_word [OF l t tok, of "band_rate b * 1000"] by simp
  have c: "unat ?cap < 2 ^ 32" unfolding unat_ucast_32_64
    using unsigned_less [of "if flags AND OFPMF_BURST = 0 then band_rate b * 1000 else band_burst b * 1000"] by simp
  have m: "unat (min ?tokens ?cap) \<le> unat ?tokens" "unat (min ?tokens ?cap) < 2 ^ 32"
    using c by (auto simp: min_def word_le_nat_alt)
  have cases: "refill_band flags t' b s = s\<lparr>mb_last_fill := of_nat t', mb_tokens := min ?tokens ?cap\<rparr> \<or>
      refill_band flags t' b s = s\<lparr>mb_last_fill := of_nat t'\<rparr>"
    by (simp add: refill_band_def Let_def)
  then show "unat (mb_last_fill (refill_band flags t' b s)) = t'" using n by auto
  show "unat (mb_tokens (refill_band flags t' b s)) < 2 ^ 32" using cases
  proof
    assume e: "refill_band flags t' b s = s\<lparr>mb_last_fill := of_nat t', mb_tokens := min ?tokens ?cap\<rparr>"
    show ?thesis unfolding e using m(2) by simp
  qed (use tok in simp)
  show "unat (mb_tokens (refill_band flags t' b s)) \<le> unat (band_rate b) * (t' - t) + unat (mb_tokens s)" using cases
  proof
    assume e: "refill_band flags t' b s = s\<lparr>mb_last_fill := of_nat t', mb_tokens := min ?tokens ?cap\<rparr>"
    show ?thesis unfolding e T [symmetric] using m(1) by simp
  qed simp
qed


lemma conforming_bound:
  assumes "bands_match e" and i: "i < length (mc_bands (me_config e))"
    and r: "unat (band_rate (mc_bands (me_config e) ! i)) * 1000 < 2 ^ 32"
    and "unat (mb_last_fill (ms_band_stats (me_stats e) ! i)) = t"
    and "unat (mb_tokens (ms_band_stats (me_stats e) ! i)) < 2 ^ 32"
    and "sorted (t # refill_times vs)" and "last (t # refill_times vs) < 2 ^ 63"
    and "last (t # refill_times vs) - t < 2 ^ 31"
  shows "conforming i vs e \<le> unat (mb_tokens (ms_band_stats (me_stats e) ! i)) +
    unat (band_rate (mc_bands (me_config e) ! i)) * (last (t # refill_times vs) - t)"
  using assms
proof (induction vs arbitrary: e t)
  case Nil
  then show ?case by simp
next
  case (Cons v vs)
  let ?s = "ms_band_stats (me_stats e) ! i" and ?f = "mc_flags (me_config e)"
  let ?e = "meter_event_step v e" and ?b = "mc_bands (me_config e) ! i"
  let ?s' = "ms_band_stats (me_stats ?e) ! i"
  note st = step_stats [OF Cons.prems(1,2), of v]
  show ?case
  proof (cases v)
    case (Packet sz)
    have s': "?s' = snd (consume_tokens ?f sz ?s)" using st(2) Packet by simp
    have le: "unat (mb_tokens ?s') \<le> unat (mb_tokens ?s)"
      using consume_tokens_cost(1,2) [of ?f sz ?s] s' by (cases "fst (consume_tokens ?f sz ?s)") auto
    have IH: "conforming i vs ?e \<le> unat (mb_tokens ?s') + unat (band_rate ?b) * (last (t # refill_times vs) - t)"
    proof (rule Cons.IH [of ?e t, unfolded meter_event_step_config])
      show "unat (mb_last_fill ?s') = t" unfolding s' consume_tokens_cost(3) by (rule Cons.prems(4))
      show "unat (mb_tokens ?s') < 2 ^ 32" using le Cons.prems(5) by linarith
    qed (use st(1) Cons.prems Packet in simp_all)
    show ?thesis
    proof (cases "fst (consume_tokens ?f sz ?s)")
      case True
      with IH consume_tokens_cost(1) [OF True] Packet s' show ?thesis by simp
    next
      case False
      with IH le Packet show ?thesis by simp
    qed
  next
    case (Refill t')
    let ?tN = "last (t' # refill_times vs)"
    have ends: "last (t # refill_times (v # vs)) = ?tN" using Refill by simp
    have so: "t \<le> t'" "sorted (t' # refill_times vs)" using Cons.prems(6) Refill by auto
    have te: "t' \<le> ?tN" using so(2) by (cases "refill_times vs" rule: rev_cases) auto
    have tt: "t' < 2 ^ 63" "t' - t < 2 ^ 31" using te Cons.prems(7,8) unfolding ends by linarith+
    have s': "?s' = refill_band ?f t' ?b ?s" using st(2) Refill by simp
    note rb = refill_band_bound [OF Cons.prems(3,4) so(1) tt Cons.prems(5), of ?f]
    have "conforming i vs ?e \<le> unat (mb_tokens ?s') + unat (band_rate ?b) * (?tN - t')"
    proof (rule Cons.IH [of ?e t', unfolded meter_event_step_config])
      show "unat (mb_last_fill ?s') = t'" "unat (mb_tokens ?s') < 2 ^ 32" unfolding s' by (rule rb)+
      show "?tN < 2 ^ 63" "?tN - t' < 2 ^ 31" using Cons.prems(7,8) so(1) unfolding ends by linarith+
    qed (use st(1) Cons.prems(2,3) so in simp_all)
    also have "\<dots> \<le> unat (band_rate ?b) * (t' - t) + unat (mb_tokens ?s) + unat (band_rate ?b) * (?tN - t')"
      using rb(3) s' by simp
    also have "\<dots> = unat (mb_tokens ?s) + unat (band_rate ?b) * (?tN - t)"
    proof -
      have "?tN - t = (t' - t) + (?tN - t')" using so(1) te by linarith
      then show ?thesis by (simp only: add_mult_distrib2 ac_simps)
    qed
    finally show ?thesis unfolding ends using Refill by simp
  qed
qed

section \<open>Properties\<close>

text \<open>C32. From the creation of a meter on, over any sequence of refills at increasing times and of
  packets, the traffic a band lets through stays within its rate: at most rate bits for every
  millisecond of a meter in kilobits, at most rate packets for every second of a meter in
  packets.  The rate must stay below the wrap-around of the multiplication by 1000.\<close>

theorem meter_rate_bound:
  assumes "i < length (mm_bands m)" and "unat (band_rate (mm_bands m ! i)) * 1000 < 2 ^ 32"
    and "sorted (t # refill_times vs)" and "last (t # refill_times vs) < 2 ^ 63"
    and "last (t # refill_times vs) - t < 2 ^ 31"
  shows "conforming i vs (meter_entry_create t m) \<le>
    unat (band_rate (mm_bands m ! i)) * (last (t # refill_times vs) - t)"
proof -
  let ?e = "meter_entry_create t m"
  have "t \<le> last (t # refill_times vs)" using assms(3) by (cases "refill_times vs" rule: rev_cases) auto
  then have t: "t < 2 ^ 63" using assms(4) by linarith
  have "bands_match ?e" "mc_bands (me_config ?e) = mm_bands m"
    by (simp_all add: bands_match_def meter_entry_create_def)
  moreover have "unat (mb_last_fill (ms_band_stats (me_stats ?e) ! i)) = t"
    "mb_tokens (ms_band_stats (me_stats ?e) ! i) = 0"
    using assms(1) t by (simp_all add: meter_entry_create_def unsigned_of_nat take_bit_nat_eq_self)
  ultimately show ?thesis using conforming_bound [of ?e i t vs] assms by simp
qed

definition ex_meter_mod :: ofl_msg_meter_mod where
  "ex_meter_mod = \<lparr>mm_command = OFPMC_ADD, mm_flags = OFPMF_KBPS, mm_meter_id = 1,
     mm_bands = [DropBand 1 0, DropBand 4 0]\<rparr>"

theorem meter_rate_bound_witness:
  "conforming 0 [Refill 8, Packet 1, Packet 2] (meter_entry_create 0 ex_meter_mod) = 8 \<and>
   conforming 0 [Refill 8, Packet 1, Packet 2] (meter_entry_create 0 ex_meter_mod) \<le> 8"
proof -
  have c: "conforming 0 [Refill 8, Packet 1, Packet 2] (meter_entry_create 0 ex_meter_mod) = 8" by code_simp
  show ?thesis
    using c meter_rate_bound [of 0 ex_meter_mod 0 "[Refill 8, Packet 1, Packet 2]"]
    by (simp add: ex_meter_mod_def)
qed


lemma remark_tos_bits:
  assumes "remarkable (tos AND 0x1C) prec"
  shows "remark_tos prec tos AND 0xE3 = tos AND 0xE3"
    and "remark_tos prec tos AND 0x1C = (tos AND 0x1C) + 8 * prec"
proof -
  have m: "prec \<le> 2 \<Longrightarrow> prec = 0 \<or> prec = 1 \<or> prec = 2" for prec :: u8
    by (auto simp: word_le_nat_alt word_unat_eq_iff)
  have m1: "prec \<le> 1 \<Longrightarrow> prec = 0 \<or> prec = 1" for prec :: u8
    by (auto simp: word_le_nat_alt word_unat_eq_iff)
  have "(tos AND 0x1C = 8 \<and> (prec = 0 \<or> prec = 1 \<or> prec = 2)) \<or> (tos AND 0x1C = 0x10 \<and> (prec = 0 \<or> prec = 1))"
    using assms m m1 unfolding remarkable_def by blast
  then have d: "\<exists>n. (tos AND 0x1C) + push_bit 3 prec = n \<and> n AND 0xE3 = 0 \<and> n AND 0x1C = n \<and>
      n = (tos AND 0x1C) + 8 * prec"
    by (elim disjE conjE) (simp_all)
  then obtain n where n: "(tos AND 0x1C) + push_bit 3 prec = n" "n AND 0xE3 = 0" "n AND 0x1C = n"
    "n = (tos AND 0x1C) + 8 * prec" by blast
  have z: "(tos AND 0xE3) AND 0x1C = 0" "(tos AND 0xE3) AND 0xE3 = tos AND 0xE3"
    by (simp_all add: and.assoc)
  show "remark_tos prec tos AND 0xE3 = tos AND 0xE3"
    unfolding remark_tos_def n(1) using n(2) z by (simp add: bit.conj_disj_distrib2)
  show "remark_tos prec tos AND 0x1C = (tos AND 0x1C) + 8 * prec"
    unfolding remark_tos_def n(1) using n(3,4) z by (simp add: bit.conj_disj_distrib2)
qed

lemma remark_ipv4_eq:
  assumes "remarkable (get8 d (off + 1) AND 0x1C) prec" and "off + 12 \<le> length d"
  shows "remark_ipv4 prec off d =
    put_bytes off (store16 (word_cat (remark_tos prec (get8 d (off + 1))) (get8 d off)))
      (put_bytes (off + 10) (store16 (recalc_csum16 (get16 d (off + 10)) (get16 d off)
         (word_cat (remark_tos prec (get8 d (off + 1))) (get8 d off)))) d)"
proof -
  let ?n = "remark_tos prec (get8 d (off + 1))" and ?i = "get8 d off"
  have o: "ntohs (push_bit 8 (ucast ?i) + ucast (get8 d (off + 1))) = get16 d off"
    by (simp add: push8_add ntohs_cat get16_bytes get8_def)
  have nv: "ntohs (push_bit 8 (ucast ?i) + ucast ?n) = word_cat ?n ?i" by (simp add: push8_add ntohs_cat)
  let ?d1 = "put_bytes (off + 10) (store16 (recalc_csum16 (get16 d (off + 10)) (get16 d off) (word_cat ?n ?i))) d"
  have l: "off + 2 \<le> length ?d1" using assms(2) by simp
  have bo: "byte_at ?d1 off = ?i" using assms(2) by (simp add: byte_at_put_bytes get8_def)
  have "put_bytes (off + 1) [?n] ?d1 = put_bytes off (store16 (word_cat ?n ?i)) ?d1"
    unfolding put_second_byte [OF l] bo store16_cat ..
  then show ?thesis unfolding remark_ipv4_def Let_def o nv if_P [OF assms(1)] .
qed


definition ex_ip :: "byte list" where
  "ex_ip = [0x45, 0x0A, 0, 20, 0, 0, 0, 0, 64, 17, 0x66, 0xCD, 10, 0, 0, 1, 10, 0, 0, 2]"


section \<open>The choice of a band\<close>

definition exceeds :: "meter_entry \<Rightarrow> nat \<Rightarrow> nat \<Rightarrow> bool" where
  "exceeds e sz i \<longleftrightarrow> i < length (mc_bands (me_config e)) \<and>
     \<not> fst (consume_tokens (mc_flags (me_config e)) sz (ms_band_stats (me_stats e) ! i)) \<and>
     0 < band_rate (mc_bands (me_config e) ! i)"

lemma choose_walk_best:
  assumes "length bs = length ss"
  shows "(fst (choose_walk flags sz i best r bs ss) = best \<and>
      (\<forall>j<length bs. fst (consume_tokens flags sz (ss ! j)) \<or> band_rate (bs ! j) \<le> r)) \<or>
    (\<exists>j<length bs. fst (choose_walk flags sz i best r bs ss) = Some (i + j) \<and>
       \<not> fst (consume_tokens flags sz (ss ! j)) \<and> r < band_rate (bs ! j) \<and>
       (\<forall>l<length bs. fst (consume_tokens flags sz (ss ! l)) \<or> band_rate (bs ! l) \<le> band_rate (bs ! j)) \<and>
       (\<forall>l<j. fst (consume_tokens flags sz (ss ! l)) \<or> band_rate (bs ! l) < band_rate (bs ! j)))"
  using assms
proof (induction bs arbitrary: ss i best r)
  case Nil
  then show ?case by simp
next
  case (Cons b bs)
  then obtain s ss' where ss: "ss = s # ss'" "length bs = length ss'" by (cases ss) auto
  let ?better = "\<not> fst (consume_tokens flags sz s) \<and> r < band_rate b"
  let ?best = "if ?better then Some i else best" and ?r = "if ?better then band_rate b else r"
  have res: "fst (choose_walk flags sz i best r (b # bs) ss) = fst (choose_walk flags sz (Suc i) ?best ?r bs ss')"
    by (simp add: ss Let_def case_prod_beta)
  from Cons.IH [OF ss(2), of "Suc i" ?best ?r]
  show ?case
  proof (elim disjE exE conjE)
    assume "fst (choose_walk flags sz (Suc i) ?best ?r bs ss') = ?best"
      "\<forall>j<length bs. fst (consume_tokens flags sz (ss' ! j)) \<or> band_rate (bs ! j) \<le> ?r"
    then show ?thesis
      unfolding res by (cases ?better) (simp_all add: ss All_less_Suc2 Ex_less_Suc2, auto)
  next
    fix j
    assume j: "j < length bs" "fst (choose_walk flags sz (Suc i) ?best ?r bs ss') = Some (Suc i + j)"
      "\<not> fst (consume_tokens flags sz (ss' ! j))" "?r < band_rate (bs ! j)"
      "\<forall>l<length bs. fst (consume_tokens flags sz (ss' ! l)) \<or> band_rate (bs ! l) \<le> band_rate (bs ! j)"
      "\<forall>l<j. fst (consume_tokens flags sz (ss' ! l)) \<or> band_rate (bs ! l) < band_rate (bs ! j)"
    have "r < band_rate (bs ! j)" "fst (consume_tokens flags sz s) \<or> band_rate b < band_rate (bs ! j)"
      using j(4) by (auto split: if_splits)
    then have "\<exists>j<length (b # bs). fst (choose_walk flags sz i best r (b # bs) ss) = Some (i + j) \<and>
       \<not> fst (consume_tokens flags sz (ss ! j)) \<and> r < band_rate ((b # bs) ! j) \<and>
       (\<forall>l<length (b # bs). fst (consume_tokens flags sz (ss ! l)) \<or> band_rate ((b # bs) ! l) \<le> band_rate ((b # bs) ! j)) \<and>
       (\<forall>l<j. fst (consume_tokens flags sz (ss ! l)) \<or> band_rate ((b # bs) ! l) < band_rate ((b # bs) ! j))"
      using j unfolding res by (intro exI [of _ "Suc j"]) (auto simp: ss All_less_Suc2)
    then show ?thesis by (rule disjI2)
  qed
qed

text \<open>C35. The band that is applied to a packet is one the packet exceeds, it has the highest rate of
  all bands the packet exceeds, and the first of those; no band is applied exactly when the packet
  exceeds no band of positive rate.\<close>

theorem choose_band_highest_rate:
  assumes "bands_match e"
  shows "(fst (choose_band sz e) = None \<longleftrightarrow> (\<forall>i. \<not> exceeds e sz i)) \<and>
    (\<forall>b. fst (choose_band sz e) = Some b \<longrightarrow> exceeds e sz b \<and>
       (\<forall>i. exceeds e sz i \<longrightarrow> band_rate (mc_bands (me_config e) ! i) \<le> band_rate (mc_bands (me_config e) ! b) \<and>
          (i < b \<longrightarrow> band_rate (mc_bands (me_config e) ! i) < band_rate (mc_bands (me_config e) ! b))))"
proof -
  let ?bs = "mc_bands (me_config e)" and ?ss = "ms_band_stats (me_stats e)" and ?f = "mc_flags (me_config e)"
  let ?ok = "\<lambda>i. fst (consume_tokens ?f sz (?ss ! i))"
  have res: "fst (choose_band sz e) = fst (choose_walk ?f sz 0 None 0 ?bs ?ss)"
    by (simp add: choose_band_def Let_def case_prod_beta)
  have len: "length ?bs = length ?ss" using assms by (simp add: bands_match_def)
  from choose_walk_best [OF len, of ?f sz 0 None 0]
  show ?thesis
  proof
    assume "fst (choose_walk ?f sz 0 None 0 ?bs ?ss) = None \<and> (\<forall>j<length ?bs. ?ok j \<or> band_rate (?bs ! j) \<le> 0)"
    then show ?thesis unfolding res exceeds_def by (auto simp: word_neq_0_conv [symmetric])
  next
    assume "\<exists>j<length ?bs. fst (choose_walk ?f sz 0 None 0 ?bs ?ss) = Some (0 + j) \<and> \<not> ?ok j \<and>
      0 < band_rate (?bs ! j) \<and> (\<forall>l<length ?bs. ?ok l \<or> band_rate (?bs ! l) \<le> band_rate (?bs ! j)) \<and>
      (\<forall>l<j. ?ok l \<or> band_rate (?bs ! l) < band_rate (?bs ! j))"
    then obtain j where j: "j < length ?bs" "fst (choose_walk ?f sz 0 None 0 ?bs ?ss) = Some j" "\<not> ?ok j"
      "0 < band_rate (?bs ! j)" "\<forall>l<length ?bs. ?ok l \<or> band_rate (?bs ! l) \<le> band_rate (?bs ! j)"
      "\<forall>l<j. ?ok l \<or> band_rate (?bs ! l) < band_rate (?bs ! j)" by auto
    then show ?thesis unfolding res j(2) exceeds_def by blast
  qed
qed


theorem choose_band_highest_rate_witness:
  "fst (choose_band 1 (refill_bucket 1 (meter_entry_create 0 ex_meter_mod))) = Some 1 \<and>
   exceeds (refill_bucket 1 (meter_entry_create 0 ex_meter_mod)) 1 1"
proof -
  let ?e = "refill_bucket 1 (meter_entry_create 0 ex_meter_mod)"
  have b: "bands_match ?e" by code_simp
  have c: "fst (choose_band 1 ?e) = Some 1" by code_simp
  show ?thesis using c choose_band_highest_rate [OF b, of 1] by blast
qed

section \<open>Limits of the arithmetic\<close>

text \<open>A meter in packets forgets tokens: a refill that brings less than one packet advances the time of
  the last refill and adds nothing.  A meter of one packet a second that is refilled every 999
  milliseconds never lets a packet through.\<close>

lemma packet_meter_starves:
  "mb_tokens (refill_band OFPMF_PKTPS (t + 999) (DropBand 1 0)
     \<lparr>mb_packet_count = 0, mb_byte_count = 0, mb_last_fill = of_nat t, mb_tokens = 0\<rparr>) = 0"
proof -
  have e: "of_nat (t + 999) - of_nat t = (999 :: u64)" by simp
  have w: "word_of_int (sint (ucast (1 * 1000 :: u32) * (999 :: u64)) sdiv 1000) + 0 = (999 :: u64)"
    by code_simp
  show ?thesis
    unfolding refill_band_def Let_def ofl_meter_band_stats.simps e band_rate.simps w
    by (simp add: OFPMF_PKTPS_def OFPMF_KBPS_def)
qed

text \<open>The rate is multiplied by 1000 in 32 bits: a band of 4294968 kilobits a second is filled like one
  of 704 bits a second.\<close>

lemma rate_wraps: "band_rate (DropBand 4294968 0) * 1000 = 704"
  by simp

end
