(* ===== verification/Flow_Entry.thy ===== *)
theory Flow_Entry
  imports Group_Entry Meter_Entry "HOL-Library.Monad_Syntax"
begin

text \<open>
  The state the tables of the datapath share and the flow entries, \<^verbatim>\<open>udatapath/flow_entry.c\<close>.  Flow
  entries and arrays of instructions live in heaps: an absent address is freed memory, and an
  operation that would follow a pointer to it yields \<open>None\<close>.  The group and meter tables are hash
  maps keyed by the identifier; \<open>gt_freed\<close> names the nodes whose memory is freed while the map
  still links to them, which happens inside the deletion of all groups.  The three lists of a
  flow table are lists of addresses; the theory of intrusive lists justifies this view.
\<close>

unbundle bit_operations_syntax

section \<open>The state of the tables\<close>

definition OFPFF_SEND_FLOW_REM :: u16 where "OFPFF_SEND_FLOW_REM = 1"
definition OFPFF_CHECK_OVERLAP :: u16 where "OFPFF_CHECK_OVERLAP = 2"
definition OFPFF_RESET_COUNTS :: u16 where "OFPFF_RESET_COUNTS = 4"
definition OFPFF_NO_PKT_COUNTS :: u16 where "OFPFF_NO_PKT_COUNTS = 8"
definition OFPFF_NO_BYT_COUNTS :: u16 where "OFPFF_NO_BYT_COUNTS = 16"

record ofl_flow_stats =
  fs_table_id :: u8
  fs_duration_sec :: u32
  fs_duration_nsec :: u32
  fs_priority :: u16
  fs_idle_timeout :: u16
  fs_hard_timeout :: u16
  fs_flags :: u16
  fs_cookie :: u64
  fs_packet_count :: u64
  fs_byte_count :: u64
  fs_match :: ofl_match
  fs_instructions :: addr

record flow_entry =
  fe_table :: nat
  fe_stats :: ofl_flow_stats
  fe_created :: nat
  fe_remove_at :: nat
  fe_last_used :: nat
  fe_send_removed :: bool
  fe_no_pkt_count :: bool
  fe_no_byt_count :: bool
  fe_group_refs :: "u32 list"
  fe_meter_refs :: "u32 list"

record ofl_table_stats =
  ts_table_id :: u8
  ts_active_count :: u32
  ts_lookup_count :: u64
  ts_matched_count :: u64

record flow_table =
  ft_stats :: ofl_table_stats
  ft_config :: u32
  ft_match_entries :: "addr list"
  ft_hard_entries :: "addr list"
  ft_idle_entries :: "addr list"

record group_table =
  gt_entries_num :: u64
  gt_entries :: "group_entry hmap"
  gt_freed :: "u64 list"
  gt_buckets_num :: u64

record meter_table =
  mt_entries_num :: u64
  mt_entries :: "meter_entry hmap"
  mt_freed :: "u64 list"
  mt_bands_num :: u64

datatype ofp_flow_removed_reason =
  OFPRR_IDLE_TIMEOUT | OFPRR_HARD_TIMEOUT | OFPRR_DELETE | OFPRR_GROUP_DELETE | OFPRR_METER_DELETE

datatype table_msg =
    FlowRemoved ofp_flow_removed_reason ofl_flow_stats
  | FlowStatsReply "ofl_flow_stats list"
  | AggregateReply u64 u64 u32
  | TableStatsReply "ofl_table_stats list"
  | GroupStatsReply u64 "ofl_group_stats list"
  | GroupDescReply u64 "ofl_group_desc_stats list"
  | MeterStatsReply u64 "ofl_meter_stats list"
  | MeterConfigReply u64 "ofl_meter_config list"

record dp_tables =
  flows :: "addr \<Rightarrow> flow_entry option"
  insts :: "addr \<Rightarrow> ofl_instruction list option"
  next_addr :: addr
  groups :: group_table
  meters :: meter_table
  tables :: "flow_table list"
  table_sent :: "table_msg list"

section \<open>Looking up groups and meters\<close>

text \<open>The walk along the chain of a bucket reads every node up to the one it looks for.\<close>

fun chain_find :: "u64 list \<Rightarrow> (u64 \<times> 'a) list \<Rightarrow> u64 \<Rightarrow> 'a option option" where
  "chain_find freed [] k = Some None"
| "chain_find freed (nd # r) k =
    (if fst nd \<in> set freed then None
     else if fst nd = k then Some (Some (snd nd)) else chain_find freed r k)"

definition hmap_find :: "u64 list \<Rightarrow> 'a hmap \<Rightarrow> u64 \<Rightarrow> 'a option option" where
  "hmap_find freed h k = chain_find freed (hm_buckets h ! bucket_of k (hm_mask h)) k"

definition group_table_find :: "dp_tables \<Rightarrow> u32 \<Rightarrow> group_entry option option" where
  "group_table_find st group_id = hmap_find (gt_freed (groups st)) (gt_entries (groups st)) (ucast group_id)"

definition meter_table_find :: "dp_tables \<Rightarrow> u32 \<Rightarrow> meter_entry option option" where
  "meter_table_find st meter_id = hmap_find (mt_freed (meters st)) (mt_entries (meters st)) (ucast meter_id)"

text \<open>Writing through the pointer a lookup returned.\<close>

definition write_group :: "u32 \<Rightarrow> (group_entry \<Rightarrow> group_entry) \<Rightarrow> dp_tables \<Rightarrow> dp_tables" where
  "write_group g f st = st\<lparr>groups := (groups st)\<lparr>gt_entries := hmap_write (ucast g) f (gt_entries (groups st))\<rparr>\<rparr>"

definition write_meter :: "u32 \<Rightarrow> (meter_entry \<Rightarrow> meter_entry) \<Rightarrow> dp_tables \<Rightarrow> dp_tables" where
  "write_meter m f st = st\<lparr>meters := (meters st)\<lparr>mt_entries := hmap_write (ucast m) f (mt_entries (meters st))\<rparr>\<rparr>"

definition set_flow :: "addr \<Rightarrow> flow_entry \<Rightarrow> dp_tables \<Rightarrow> dp_tables" where
  "set_flow a fe st = st\<lparr>flows := (flows st)(a \<mapsto> fe)\<rparr>"

definition send_table_msg :: "table_msg \<Rightarrow> dp_tables \<Rightarrow> dp_tables" where
  "send_table_msg m st = st\<lparr>table_sent := table_sent st @ [m]\<rparr>"

section \<open>Instructions of an entry\<close>

primrec inst_actions :: "ofl_instruction \<Rightarrow> ofl_action list" where
  "inst_actions (GotoTable t) = []"
| "inst_actions (WriteMetadata m k) = []"
| "inst_actions (WriteActions as) = as"
| "inst_actions (ApplyActions as) = as"
| "inst_actions ClearActions = []"
| "inst_actions (MeterInst m) = []"
| "inst_actions (ExperimenterInst x) = []"

text \<open>The groups a list of actions names, in order.\<close>

definition action_groups :: "ofl_action list \<Rightarrow> u32 list" where
  "action_groups as = concat (map (\<lambda>a. case a of Group g \<Rightarrow> [g] | _ \<Rightarrow> []) as)"

definition flow_entry_has_out_port :: "dp_tables \<Rightarrow> flow_entry \<Rightarrow> u32 \<Rightarrow> bool option" where
  "flow_entry_has_out_port st fe port = do {
     is \<leftarrow> insts st (fs_instructions (fe_stats fe));
     Some (list_ex (\<lambda>i. dp_actions_list_has_out_port (inst_actions i) port) is)
   }"

definition flow_entry_has_out_group :: "dp_tables \<Rightarrow> flow_entry \<Rightarrow> u32 \<Rightarrow> bool option" where
  "flow_entry_has_out_group st fe grp = do {
     is \<leftarrow> insts st (fs_instructions (fe_stats fe));
     Some (list_ex (\<lambda>i. dp_actions_list_has_out_group (inst_actions i) grp) is)
   }"

definition flow_entry_matches :: "flow_entry \<Rightarrow> ofl_msg_flow_mod \<Rightarrow> bool \<Rightarrow> bool \<Rightarrow> bool" where
  "flow_entry_matches fe m strict check_cookie =
    (if check_cookie \<and> fs_cookie (fe_stats fe) AND fm_cookie_mask m \<noteq> fm_cookie m AND fm_cookie_mask m then False
     else if strict then fs_priority (fe_stats fe) = fm_priority m \<and> match_std_strict (fm_match m) (fs_match (fe_stats fe))
     else match_std_nonstrict (fm_match m) (fs_match (fe_stats fe)))"

text \<open>The tests on the output port and group that a request makes, in the order of the source.\<close>

definition out_filter :: "dp_tables \<Rightarrow> flow_entry \<Rightarrow> u32 \<Rightarrow> u32 \<Rightarrow> bool option" where
  "out_filter st fe port grp = do {
     p \<leftarrow> (if port = OFPP_ANY then Some True else flow_entry_has_out_port st fe port);
     if \<not> p then Some False
     else if grp = OFPG_ANY then Some True else flow_entry_has_out_group st fe grp
   }"

definition flow_entry_overlaps :: "dp_tables \<Rightarrow> flow_entry \<Rightarrow> ofl_msg_flow_mod \<Rightarrow> bool option" where
  "flow_entry_overlaps st fe m =
    (if fs_priority (fe_stats fe) = fm_priority m then do {
       ok \<leftarrow> out_filter st fe (fm_out_port m) (fm_out_group m);
       Some (ok \<and> match_std_overlap (fs_match (fe_stats fe)) (fm_match m))
     } else Some False)"

section \<open>References to groups and meters\<close>

definition has_group_ref :: "flow_entry \<Rightarrow> u32 \<Rightarrow> bool" where
  "has_group_ref fe g \<longleftrightarrow> list_ex (\<lambda>x. x = g) (fe_group_refs fe)"

definition has_meter_ref :: "flow_entry \<Rightarrow> u32 \<Rightarrow> bool" where
  "has_meter_ref fe m \<longleftrightarrow> list_ex (\<lambda>x. x = m) (fe_meter_refs fe)"

definition add_group_ref :: "ofl_action \<Rightarrow> flow_entry \<Rightarrow> flow_entry" where
  "add_group_ref a fe =
    (case a of
       Group g \<Rightarrow> if has_group_ref fe g then fe else fe\<lparr>fe_group_refs := fe_group_refs fe @ [g]\<rparr>
     | _ \<Rightarrow> fe)"

definition add_meter_ref :: "ofl_instruction \<Rightarrow> flow_entry \<Rightarrow> flow_entry" where
  "add_meter_ref i fe =
    (case i of
       MeterInst m \<Rightarrow> if has_meter_ref fe m then fe else fe\<lparr>fe_meter_refs := fe_meter_refs fe @ [m]\<rparr>
     | _ \<Rightarrow> fe)"

fun notify_groups :: "addr \<Rightarrow> u32 list \<Rightarrow> dp_tables \<Rightarrow> dp_tables option" where
  "notify_groups a [] st = Some st"
| "notify_groups a (g # gs) st = do {
     r \<leftarrow> group_table_find st g;
     notify_groups a gs (case r of None \<Rightarrow> st | Some e \<Rightarrow> write_group g (group_entry_add_flow_ref a) st)
   }"

definition init_group_refs :: "addr \<Rightarrow> dp_tables \<Rightarrow> dp_tables option" where
  "init_group_refs a st = do {
     fe \<leftarrow> flows st a;
     is \<leftarrow> insts st (fs_instructions (fe_stats fe));
     let fe1 = fold add_group_ref (concat (map inst_actions is)) fe;
     notify_groups a (fe_group_refs fe1) (set_flow a fe1 st)
   }"

fun notify_meters :: "addr \<Rightarrow> u32 list \<Rightarrow> dp_tables \<Rightarrow> dp_tables option" where
  "notify_meters a [] st = Some st"
| "notify_meters a (m # ms) st = do {
     r \<leftarrow> meter_table_find st m;
     notify_meters a ms (case r of None \<Rightarrow> st | Some e \<Rightarrow> write_meter m (meter_entry_add_flow_ref a) st)
   }"

definition init_meter_refs :: "addr \<Rightarrow> dp_tables \<Rightarrow> dp_tables option" where
  "init_meter_refs a st = do {
     fe \<leftarrow> flows st a;
     is \<leftarrow> insts st (fs_instructions (fe_stats fe));
     let fe1 = fold add_meter_ref is fe;
     notify_meters a (fe_meter_refs fe1) (set_flow a fe1 st)
   }"

text \<open>Deleting the references: each is taken off the group, then off the entry.\<close>

fun unlink_groups :: "addr \<Rightarrow> u32 list \<Rightarrow> dp_tables \<Rightarrow> dp_tables option" where
  "unlink_groups a [] st = Some st"
| "unlink_groups a (g # gs) st = do {
     r \<leftarrow> group_table_find st g;
     fe \<leftarrow> flows st a;
     unlink_groups a gs
       (set_flow a (fe\<lparr>fe_group_refs := remove1 g (fe_group_refs fe)\<rparr>)
         (case r of None \<Rightarrow> st | Some e \<Rightarrow> write_group g (group_entry_del_flow_ref a) st))
   }"

definition del_group_refs :: "addr \<Rightarrow> dp_tables \<Rightarrow> dp_tables option" where
  "del_group_refs a st = do { fe \<leftarrow> flows st a; unlink_groups a (fe_group_refs fe) st }"

fun unlink_meters :: "addr \<Rightarrow> u32 list \<Rightarrow> dp_tables \<Rightarrow> dp_tables option" where
  "unlink_meters a [] st = Some st"
| "unlink_meters a (m # ms) st = do {
     r \<leftarrow> meter_table_find st m;
     fe \<leftarrow> flows st a;
     unlink_meters a ms
       (set_flow a (fe\<lparr>fe_meter_refs := remove1 m (fe_meter_refs fe)\<rparr>)
         (case r of None \<Rightarrow> st | Some e \<Rightarrow> write_meter m (meter_entry_del_flow_ref a) st))
   }"

definition del_meter_refs :: "addr \<Rightarrow> dp_tables \<Rightarrow> dp_tables option" where
  "del_meter_refs a st = do { fe \<leftarrow> flows st a; unlink_meters a (fe_meter_refs fe) st }"

section \<open>Creation, replacement, removal\<close>

text \<open>The instructions of the message are kept by the entry: \<open>ia\<close> is the address of their array.\<close>

definition new_flow :: "nat \<Rightarrow> nat \<Rightarrow> ofl_msg_flow_mod \<Rightarrow> addr \<Rightarrow> flow_entry" where
  "new_flow now ti m ia =
    \<lparr>fe_table = ti,
     fe_stats = \<lparr>fs_table_id = fm_table_id m, fs_duration_sec = 0, fs_duration_nsec = 0,
       fs_priority = fm_priority m, fs_idle_timeout = fm_idle_timeout m, fs_hard_timeout = fm_hard_timeout m,
       fs_flags = fm_flags m, fs_cookie = fm_cookie m,
       fs_packet_count = (if fm_flags m AND OFPFF_NO_PKT_COUNTS \<noteq> 0 then 0xffffffffffffffff else 0),
       fs_byte_count = (if fm_flags m AND OFPFF_NO_BYT_COUNTS \<noteq> 0 then 0xffffffffffffffff else 0),
       fs_match = fm_match m, fs_instructions = ia\<rparr>,
     fe_created = now,
     fe_remove_at = (if fm_hard_timeout m = 0 then 0 else now + unat (fm_hard_timeout m) * 1000),
     fe_last_used = now,
     fe_send_removed = (fm_flags m AND OFPFF_SEND_FLOW_REM \<noteq> 0),
     fe_no_pkt_count = (fm_flags m AND OFPFF_NO_PKT_COUNTS \<noteq> 0),
     fe_no_byt_count = (fm_flags m AND OFPFF_NO_BYT_COUNTS \<noteq> 0),
     fe_group_refs = [], fe_meter_refs = []\<rparr>"

definition flow_entry_create ::
    "nat \<Rightarrow> nat \<Rightarrow> ofl_msg_flow_mod \<Rightarrow> addr \<Rightarrow> dp_tables \<Rightarrow> (addr \<times> dp_tables) option" where
  "flow_entry_create now ti m ia st = do {
     let a = next_addr st;
     let st1 = set_flow a (new_flow now ti m ia) (st\<lparr>next_addr := Suc a\<rparr>);
     st2 \<leftarrow> init_group_refs a st1;
     st3 \<leftarrow> init_meter_refs a st2;
     Some (a, st3)
   }"

text \<open>Freeing the statistics frees the instructions: freeing them twice is a fault.\<close>

definition free_insts :: "addr \<Rightarrow> dp_tables \<Rightarrow> dp_tables option" where
  "free_insts ia st =
    (case insts st ia of None \<Rightarrow> None | Some is \<Rightarrow> Some (st\<lparr>insts := (insts st)(ia := None)\<rparr>))"

definition flow_entry_destroy :: "addr \<Rightarrow> dp_tables \<Rightarrow> dp_tables option" where
  "flow_entry_destroy a st = do {
     st1 \<leftarrow> del_group_refs a st;
     st2 \<leftarrow> del_meter_refs a st1;
     fe \<leftarrow> flows st2 a;
     st3 \<leftarrow> free_insts (fs_instructions (fe_stats fe)) st2;
     Some (st3\<lparr>flows := (flows st3)(a := None)\<rparr>)
   }"

definition flow_entry_update :: "nat \<Rightarrow> flow_entry \<Rightarrow> flow_entry" where
  "flow_entry_update now fe =
    fe\<lparr>fe_stats := (fe_stats fe)\<lparr>fs_duration_sec := dur_sec now (fe_created fe),
                                fs_duration_nsec := dur_nsec now (fe_created fe)\<rparr>\<rparr>"

definition flow_entry_replace_instructions :: "addr \<Rightarrow> addr \<Rightarrow> dp_tables \<Rightarrow> dp_tables option" where
  "flow_entry_replace_instructions a ia st = do {
     st1 \<leftarrow> del_group_refs a st;
     fe \<leftarrow> flows st1 a;
     st2 \<leftarrow> free_insts (fs_instructions (fe_stats fe)) st1;
     init_group_refs a (set_flow a (fe\<lparr>fe_stats := (fe_stats fe)\<lparr>fs_instructions := ia\<rparr>\<rparr>) st2)
   }"

definition flow_entry_modify_stats :: "ofl_msg_flow_mod \<Rightarrow> flow_entry \<Rightarrow> flow_entry" where
  "flow_entry_modify_stats m fe =
    (if fm_flags m AND OFPFF_RESET_COUNTS \<noteq> 0 then
       fe\<lparr>fe_stats := (fe_stats fe)
          \<lparr>fs_packet_count := (if fe_no_pkt_count fe then fs_packet_count (fe_stats fe) else 0),
           fs_byte_count := (if fe_no_byt_count fe then fs_byte_count (fe_stats fe) else 0)\<rparr>\<rparr>
     else fe)"

text \<open>Unlinking an entry from the three lists of its table; a node that is in no list is its own
  neighbour, so unlinking it changes nothing.\<close>

definition unlink_flow :: "addr \<Rightarrow> flow_table \<Rightarrow> flow_table" where
  "unlink_flow a t =
    t\<lparr>ft_match_entries := remove1 a (ft_match_entries t),
      ft_hard_entries := remove1 a (ft_hard_entries t),
      ft_idle_entries := remove1 a (ft_idle_entries t),
      ft_stats := (ft_stats t)\<lparr>ts_active_count := ts_active_count (ft_stats t) - 1\<rparr>\<rparr>"

definition upd_table :: "nat \<Rightarrow> (flow_table \<Rightarrow> flow_table) \<Rightarrow> dp_tables \<Rightarrow> dp_tables" where
  "upd_table ti f st = st\<lparr>tables := (tables st)[ti := f (tables st ! ti)]\<rparr>"

definition flow_entry_remove :: "nat \<Rightarrow> addr \<Rightarrow> ofp_flow_removed_reason \<Rightarrow> dp_tables \<Rightarrow> dp_tables option" where
  "flow_entry_remove now a reason st = do {
     fe \<leftarrow> flows st a;
     let fe1 = (if fe_send_removed fe then flow_entry_update now fe else fe);
     let st1 = set_flow a fe1 st;
     let st2 = (if fe_send_removed fe then send_table_msg (FlowRemoved reason (fe_stats fe1)) st1 else st1);
     flow_entry_destroy a (upd_table (fe_table fe) (unlink_flow a) st2)
   }"

definition idle_expired :: "nat \<Rightarrow> flow_entry \<Rightarrow> bool" where
  "idle_expired now fe \<longleftrightarrow> fs_idle_timeout (fe_stats fe) \<noteq> 0 \<and>
     fe_last_used fe + unat (fs_idle_timeout (fe_stats fe)) * 1000 < now"

definition hard_expired :: "nat \<Rightarrow> flow_entry \<Rightarrow> bool" where
  "hard_expired now fe \<longleftrightarrow> fe_remove_at fe \<noteq> 0 \<and> fe_remove_at fe < now"

definition flow_entry_idle_timeout :: "nat \<Rightarrow> addr \<Rightarrow> dp_tables \<Rightarrow> (bool \<times> dp_tables) option" where
  "flow_entry_idle_timeout now a st = do {
     fe \<leftarrow> flows st a;
     if idle_expired now fe then do { st1 \<leftarrow> flow_entry_remove now a OFPRR_IDLE_TIMEOUT st; Some (True, st1) }
     else Some (False, st)
   }"

definition flow_entry_hard_timeout :: "nat \<Rightarrow> addr \<Rightarrow> dp_tables \<Rightarrow> (bool \<times> dp_tables) option" where
  "flow_entry_hard_timeout now a st = do {
     fe \<leftarrow> flows st a;
     if hard_expired now fe then do { st1 \<leftarrow> flow_entry_remove now a OFPRR_HARD_TIMEOUT st; Some (True, st1) }
     else Some (False, st)
   }"


section \<open>The effect of the reference walks\<close>

lemma chain_find_next: "chain_find [] b k = Some (next_with_hash b k)"
  by (induction b) auto

lemma hmap_find_first [simp]: "hmap_find [] h k = Some (hmap_first_with_hash h k)"
  by (simp add: hmap_find_def hmap_first_with_hash_def chain_find_next)

abbreviation gfind :: "group_table \<Rightarrow> u64 \<Rightarrow> group_entry option" where
  "gfind G \<equiv> hmap_first_with_hash (gt_entries G)"

abbreviation mfind :: "meter_table \<Rightarrow> u64 \<Rightarrow> meter_entry option" where
  "mfind M \<equiv> hmap_first_with_hash (mt_entries M)"

definition gok :: "group_table \<Rightarrow> bool" where
  "gok G \<longleftrightarrow> hmap_ok (gt_entries G) \<and> gt_freed G = []"

definition mok :: "meter_table \<Rightarrow> bool" where
  "mok M \<longleftrightarrow> hmap_ok (mt_entries M) \<and> mt_freed M = []"

lemma group_find_ok: "gok (groups st) \<Longrightarrow> group_table_find st g = Some (gfind (groups st) (ucast g))"
  by (simp add: group_table_find_def gok_def)

lemma meter_find_ok: "mok (meters st) \<Longrightarrow> meter_table_find st m = Some (mfind (meters st) (ucast m))"
  by (simp add: meter_table_find_def mok_def)

text \<open>A table whose entries under the given identifiers were mapped and that is otherwise the same.\<close>

definition groups_mapped :: "(group_entry \<Rightarrow> group_entry) \<Rightarrow> u32 list \<Rightarrow> group_table \<Rightarrow> group_table \<Rightarrow> bool" where
  "groups_mapped f gs G G' \<longleftrightarrow> gok G' \<and> gt_entries_num G' = gt_entries_num G \<and> gt_buckets_num G' = gt_buckets_num G \<and>
     gfind G' = (\<lambda>k. if k \<in> ucast ` set gs then map_option f (gfind G k) else gfind G k)"

definition meters_mapped :: "(meter_entry \<Rightarrow> meter_entry) \<Rightarrow> u32 list \<Rightarrow> meter_table \<Rightarrow> meter_table \<Rightarrow> bool" where
  "meters_mapped f ms M M' \<longleftrightarrow> mok M' \<and> mt_entries_num M' = mt_entries_num M \<and> mt_bands_num M' = mt_bands_num M \<and>
     mfind M' = (\<lambda>k. if k \<in> ucast ` set ms then map_option f (mfind M k) else mfind M k)"

lemma ucast_id_inj [simp]: "(ucast g :: u64) = ucast h \<longleftrightarrow> g = h" for g h :: u32
proof
  assume "(ucast g :: u64) = ucast h"
  then have "unat (ucast g :: u64) = unat (ucast h :: u64)" by simp
  then show "g = h" unfolding unat_ucast_32_64 by (rule word_unat_eq_iff [THEN iffD2])
qed simp

lemma groups_mapped_Nil: "gok G \<Longrightarrow> groups_mapped f [] G G"
  by (simp add: groups_mapped_def)

lemma meters_mapped_Nil: "mok M \<Longrightarrow> meters_mapped f [] M M"
  by (simp add: meters_mapped_def)

lemma groups_mapped_Cons:
  assumes "gok G" and "g \<notin> set gs"
    and "groups_mapped f gs (G\<lparr>gt_entries := hmap_write (ucast g) f (gt_entries G)\<rparr>) G'"
  shows "groups_mapped f (g # gs) G G'"
  using assms ht.find_upd [of "gt_entries G" "ucast g" f]
  by (auto simp: groups_mapped_def gok_def fun_eq_iff)

lemma meters_mapped_Cons:
  assumes "mok M" and "m \<notin> set ms"
    and "meters_mapped f ms (M\<lparr>mt_entries := hmap_write (ucast m) f (mt_entries M)\<rparr>) M'"
  shows "meters_mapped f (m # ms) M M'"
  using assms ht.find_upd [of "mt_entries M" "ucast m" f]
  by (auto simp: meters_mapped_def mok_def fun_eq_iff)

text \<open>Writing where nothing was found changes nothing, so both cases of a walk are a write.\<close>

lemma write_group_case:
  assumes "gok (groups st)"
  shows "(case gfind (groups st) (ucast g) of None \<Rightarrow> st | Some e \<Rightarrow> write_group g f st) = write_group g f st"
  using assms write_absent [of "gt_entries (groups st)" "ucast g" f]
  by (auto simp: gok_def hmap_ok_def hmap_first_with_hash_map_of write_group_def split: option.splits)

lemma write_meter_case:
  assumes "mok (meters st)"
  shows "(case mfind (meters st) (ucast m) of None \<Rightarrow> st | Some e \<Rightarrow> write_meter m f st) = write_meter m f st"
  using assms write_absent [of "mt_entries (meters st)" "ucast m" f]
  by (auto simp: mok_def hmap_ok_def hmap_first_with_hash_map_of write_meter_def split: option.splits)

lemma gok_write: "gok G \<Longrightarrow> gok (G\<lparr>gt_entries := hmap_write k f (gt_entries G)\<rparr>)"
  by (simp add: gok_def ht.invar_upd)

lemma mok_write: "mok M \<Longrightarrow> mok (M\<lparr>mt_entries := hmap_write k f (mt_entries M)\<rparr>)"
  by (simp add: mok_def ht.invar_upd)

lemma notify_groups_ok:
  assumes "gok (groups st)" and "distinct gs"
  shows "\<exists>G. notify_groups a gs st = Some (st\<lparr>groups := G\<rparr>) \<and>
    groups_mapped (group_entry_add_flow_ref a) gs (groups st) G"
  using assms
proof (induction gs arbitrary: st)
  case Nil
  then show ?case by (auto intro!: exI [of _ "groups st"] groups_mapped_Nil)
next
  case (Cons g gs)
  let ?st = "write_group g (group_entry_add_flow_ref a) st"
  have ok: "gok (groups ?st)" using Cons.prems by (simp add: write_group_def gok_write)
  from Cons.IH [OF this] Cons.prems obtain G where
    G: "notify_groups a gs ?st = Some (?st\<lparr>groups := G\<rparr>)" "groups_mapped (group_entry_add_flow_ref a) gs (groups ?st) G"
    by auto
  have "groups_mapped (group_entry_add_flow_ref a) (g # gs) (groups st) G"
    using G(2) Cons.prems by (auto intro: groups_mapped_Cons simp: write_group_def)
  moreover have "?st\<lparr>groups := G\<rparr> = st\<lparr>groups := G\<rparr>" by (simp add: write_group_def)
  ultimately show ?case using G(1) Cons.prems
    by (intro exI [of _ G]) (simp add: group_find_ok write_group_case)
qed

lemma notify_meters_ok:
  assumes "mok (meters st)" and "distinct ms"
  shows "\<exists>M. notify_meters a ms st = Some (st\<lparr>meters := M\<rparr>) \<and>
    meters_mapped (meter_entry_add_flow_ref a) ms (meters st) M"
  using assms
proof (induction ms arbitrary: st)
  case Nil
  then show ?case by (auto intro!: exI [of _ "meters st"] meters_mapped_Nil)
next
  case (Cons m ms)
  let ?st = "write_meter m (meter_entry_add_flow_ref a) st"
  have ok: "mok (meters ?st)" using Cons.prems by (simp add: write_meter_def mok_write)
  from Cons.IH [OF this] Cons.prems obtain M where
    M: "notify_meters a ms ?st = Some (?st\<lparr>meters := M\<rparr>)" "meters_mapped (meter_entry_add_flow_ref a) ms (meters ?st) M"
    by auto
  have "meters_mapped (meter_entry_add_flow_ref a) (m # ms) (meters st) M"
    using M(2) Cons.prems by (auto intro: meters_mapped_Cons simp: write_meter_def)
  moreover have "?st\<lparr>meters := M\<rparr> = st\<lparr>meters := M\<rparr>" by (simp add: write_meter_def)
  ultimately show ?case using M(1) Cons.prems
    by (intro exI [of _ M]) (simp add: meter_find_ok write_meter_case)
qed


lemma unlink_groups_ok:
  assumes "gok (groups st)" and "distinct gs" and "flows st a = Some fe"
  shows "\<exists>G. unlink_groups a gs st = Some (st\<lparr>groups := G,
      flows := (flows st)(a \<mapsto> fe\<lparr>fe_group_refs := fold remove1 gs (fe_group_refs fe)\<rparr>)\<rparr>) \<and>
    groups_mapped (group_entry_del_flow_ref a) gs (groups st) G"
  using assms
proof (induction gs arbitrary: st fe)
  case Nil
  then show ?case by (auto intro!: exI [of _ "groups st"] groups_mapped_Nil simp: fun_upd_idem)
next
  case (Cons g gs)
  let ?fe = "fe\<lparr>fe_group_refs := remove1 g (fe_group_refs fe)\<rparr>"
  let ?st = "set_flow a ?fe (write_group g (group_entry_del_flow_ref a) st)"
  have fl: "flows ?st = (flows st)(a \<mapsto> ?fe)"
    by (simp_all add: set_flow_def write_group_def)
  have ok: "gok (groups ?st)" using Cons.prems by (simp add: set_flow_def write_group_def gok_write)
  have d: "distinct gs" "flows ?st a = Some ?fe" using Cons.prems(2) by (simp_all add: fl)
  from Cons.IH [OF ok d] obtain G where
    G: "unlink_groups a gs ?st = Some (?st\<lparr>groups := G,
          flows := (flows ?st)(a \<mapsto> ?fe\<lparr>fe_group_refs := fold remove1 gs (fe_group_refs ?fe)\<rparr>)\<rparr>)"
       "groups_mapped (group_entry_del_flow_ref a) gs (groups ?st) G"
    by blast
  have m: "groups_mapped (group_entry_del_flow_ref a) (g # gs) (groups st) G"
    using G(2) Cons.prems by (auto intro: groups_mapped_Cons simp: set_flow_def write_group_def)
  have s: "?st\<lparr>groups := G, flows := (flows ?st)(a \<mapsto> ?fe\<lparr>fe_group_refs := fold remove1 gs (fe_group_refs ?fe)\<rparr>)\<rparr> =
      st\<lparr>groups := G, flows := (flows st)(a \<mapsto> fe\<lparr>fe_group_refs := fold remove1 (g # gs) (fe_group_refs fe)\<rparr>)\<rparr>"
    by (simp add: set_flow_def write_group_def)
  have eq: "unlink_groups a (g # gs) st = unlink_groups a gs ?st"
    using Cons.prems by (simp add: group_find_ok write_group_case)
  show ?case unfolding eq G(1) s by (intro exI [of _ G] conjI refl m)
qed

lemma unlink_meters_ok:
  assumes "mok (meters st)" and "distinct ms" and "flows st a = Some fe"
  shows "\<exists>M. unlink_meters a ms st = Some (st\<lparr>meters := M,
      flows := (flows st)(a \<mapsto> fe\<lparr>fe_meter_refs := fold remove1 ms (fe_meter_refs fe)\<rparr>)\<rparr>) \<and>
    meters_mapped (meter_entry_del_flow_ref a) ms (meters st) M"
  using assms
proof (induction ms arbitrary: st fe)
  case Nil
  then show ?case by (auto intro!: exI [of _ "meters st"] meters_mapped_Nil simp: fun_upd_idem)
next
  case (Cons m ms)
  let ?fe = "fe\<lparr>fe_meter_refs := remove1 m (fe_meter_refs fe)\<rparr>"
  let ?st = "set_flow a ?fe (write_meter m (meter_entry_del_flow_ref a) st)"
  have fl: "flows ?st = (flows st)(a \<mapsto> ?fe)"
    by (simp_all add: set_flow_def write_meter_def)
  have ok: "mok (meters ?st)" using Cons.prems by (simp add: set_flow_def write_meter_def mok_write)
  have d: "distinct ms" "flows ?st a = Some ?fe" using Cons.prems(2) by (simp_all add: fl)
  from Cons.IH [OF ok d] obtain M where
    M: "unlink_meters a ms ?st = Some (?st\<lparr>meters := M,
          flows := (flows ?st)(a \<mapsto> ?fe\<lparr>fe_meter_refs := fold remove1 ms (fe_meter_refs ?fe)\<rparr>)\<rparr>)"
       "meters_mapped (meter_entry_del_flow_ref a) ms (meters ?st) M"
    by blast
  have m: "meters_mapped (meter_entry_del_flow_ref a) (m # ms) (meters st) M"
    using M(2) Cons.prems by (auto intro: meters_mapped_Cons simp: set_flow_def write_meter_def)
  have s: "?st\<lparr>meters := M, flows := (flows ?st)(a \<mapsto> ?fe\<lparr>fe_meter_refs := fold remove1 ms (fe_meter_refs ?fe)\<rparr>)\<rparr> =
      st\<lparr>meters := M, flows := (flows st)(a \<mapsto> fe\<lparr>fe_meter_refs := fold remove1 (m # ms) (fe_meter_refs fe)\<rparr>)\<rparr>"
    by (simp add: set_flow_def write_meter_def)
  have eq: "unlink_meters a (m # ms) st = unlink_meters a ms ?st"
    using Cons.prems by (simp add: meter_find_ok write_meter_case)
  show ?case unfolding eq M(1) s by (intro exI [of _ M] conjI refl m)
qed

text \<open>The identifiers an entry refers to: each once, in the order of the first use.\<close>

definition add_end :: "'a \<Rightarrow> 'a list \<Rightarrow> 'a list" where
  "add_end x xs = (if x \<in> set xs then xs else xs @ [x])"

lemma set_fold_add_end: "set (fold add_end ys xs) = set xs \<union> set ys"
  by (induction ys arbitrary: xs) (auto simp: add_end_def)

lemma distinct_fold_add_end: "distinct xs \<Longrightarrow> distinct (fold add_end ys xs)"
  by (induction ys arbitrary: xs) (auto simp: add_end_def)

definition inst_groups :: "ofl_instruction list \<Rightarrow> u32 list" where
  "inst_groups is = fold add_end (action_groups (concat (map inst_actions is))) []"

definition meter_ids :: "ofl_instruction list \<Rightarrow> u32 list" where
  "meter_ids is = concat (map (\<lambda>i. case i of MeterInst m \<Rightarrow> [m] | _ \<Rightarrow> []) is)"

definition inst_meters :: "ofl_instruction list \<Rightarrow> u32 list" where
  "inst_meters is = fold add_end (meter_ids is) []"

lemma fold_add_group_ref:
  "fold add_group_ref as fe = fe\<lparr>fe_group_refs := fold add_end (action_groups as) (fe_group_refs fe)\<rparr>"
proof (induction as arbitrary: fe)
  case Nil
  then show ?case by (simp add: action_groups_def)
next
  case (Cons a as)
  then show ?case
    by (cases a) (auto simp: add_group_ref_def has_group_ref_def action_groups_def add_end_def list_ex_iff)
qed

lemma fold_add_meter_ref:
  "fold add_meter_ref is fe = fe\<lparr>fe_meter_refs := fold add_end (meter_ids is) (fe_meter_refs fe)\<rparr>"
proof (induction "is" arbitrary: fe)
  case Nil
  then show ?case by (simp add: meter_ids_def)
next
  case (Cons i "is")
  then show ?case
    by (cases i) (auto simp: add_meter_ref_def has_meter_ref_def meter_ids_def add_end_def list_ex_iff)
qed

lemma distinct_inst_refs [simp]: "distinct (inst_groups is)" "distinct (inst_meters is)"
  by (simp_all add: inst_groups_def inst_meters_def distinct_fold_add_end)

lemma init_group_refs_ok:
  assumes "gok (groups st)" and "flows st a = Some fe" and "fe_group_refs fe = []"
    and "insts st (fs_instructions (fe_stats fe)) = Some is"
  shows "\<exists>G. init_group_refs a st = Some (st\<lparr>groups := G, flows := (flows st)(a \<mapsto> fe\<lparr>fe_group_refs := inst_groups is\<rparr>)\<rparr>) \<and>
    groups_mapped (group_entry_add_flow_ref a) (inst_groups is) (groups st) G"
proof -
  let ?st = "set_flow a (fe\<lparr>fe_group_refs := inst_groups is\<rparr>) st"
  have "groups ?st = groups st" by (simp add: set_flow_def)
  then obtain G where "notify_groups a (inst_groups is) ?st = Some (?st\<lparr>groups := G\<rparr>)"
    "groups_mapped (group_entry_add_flow_ref a) (inst_groups is) (groups st) G"
    using notify_groups_ok [of ?st "inst_groups is" a] assms(1) by auto
  moreover have "?st\<lparr>groups := G\<rparr> = st\<lparr>groups := G, flows := (flows st)(a \<mapsto> fe\<lparr>fe_group_refs := inst_groups is\<rparr>)\<rparr>"
    by (simp add: set_flow_def)
  ultimately show ?thesis using assms
    by (intro exI [of _ G]) (simp add: init_group_refs_def fold_add_group_ref inst_groups_def)
qed

lemma init_meter_refs_ok:
  assumes "mok (meters st)" and "flows st a = Some fe" and "fe_meter_refs fe = []"
    and "insts st (fs_instructions (fe_stats fe)) = Some is"
  shows "\<exists>M. init_meter_refs a st = Some (st\<lparr>meters := M, flows := (flows st)(a \<mapsto> fe\<lparr>fe_meter_refs := inst_meters is\<rparr>)\<rparr>) \<and>
    meters_mapped (meter_entry_add_flow_ref a) (inst_meters is) (meters st) M"
proof -
  let ?st = "set_flow a (fe\<lparr>fe_meter_refs := inst_meters is\<rparr>) st"
  have "meters ?st = meters st" by (simp add: set_flow_def)
  then obtain M where "notify_meters a (inst_meters is) ?st = Some (?st\<lparr>meters := M\<rparr>)"
    "meters_mapped (meter_entry_add_flow_ref a) (inst_meters is) (meters st) M"
    using notify_meters_ok [of ?st "inst_meters is" a] assms(1) by auto
  moreover have "?st\<lparr>meters := M\<rparr> = st\<lparr>meters := M, flows := (flows st)(a \<mapsto> fe\<lparr>fe_meter_refs := inst_meters is\<rparr>)\<rparr>"
    by (simp add: set_flow_def)
  ultimately show ?thesis using assms
    by (intro exI [of _ M]) (simp add: init_meter_refs_def fold_add_meter_ref inst_meters_def)
qed


section \<open>The effect of creating and destroying an entry\<close>

lemma fold_remove1_self: "fold remove1 xs xs = []"
  using fold_remove1_prefix [of xs "[]"] by simp

lemma del_group_refs_ok:
  assumes "gok (groups st)" and "flows st a = Some fe" and "distinct (fe_group_refs fe)"
  shows "\<exists>G. del_group_refs a st = Some (st\<lparr>groups := G, flows := (flows st)(a \<mapsto> fe\<lparr>fe_group_refs := []\<rparr>)\<rparr>) \<and>
    groups_mapped (group_entry_del_flow_ref a) (fe_group_refs fe) (groups st) G"
  using unlink_groups_ok [OF assms(1,3,2)] assms(2) by (simp add: del_group_refs_def fold_remove1_self)

lemma del_meter_refs_ok:
  assumes "mok (meters st)" and "flows st a = Some fe" and "distinct (fe_meter_refs fe)"
  shows "\<exists>M. del_meter_refs a st = Some (st\<lparr>meters := M, flows := (flows st)(a \<mapsto> fe\<lparr>fe_meter_refs := []\<rparr>)\<rparr>) \<and>
    meters_mapped (meter_entry_del_flow_ref a) (fe_meter_refs fe) (meters st) M"
  using unlink_meters_ok [OF assms(1,3,2)] assms(2) by (simp add: del_meter_refs_def fold_remove1_self)

definition flow_ok :: "dp_tables \<Rightarrow> flow_entry \<Rightarrow> bool" where
  "flow_ok st fe \<longleftrightarrow> distinct (fe_group_refs fe) \<and> distinct (fe_meter_refs fe) \<and>
     insts st (fs_instructions (fe_stats fe)) \<noteq> None"

lemma flow_entry_destroy_ok:
  assumes "gok (groups st)" and "mok (meters st)" and "flows st a = Some fe" and "flow_ok st fe"
  shows "\<exists>G M. flow_entry_destroy a st = Some (st\<lparr>groups := G, meters := M,
      insts := (insts st)(fs_instructions (fe_stats fe) := None), flows := (flows st)(a := None)\<rparr>) \<and>
    groups_mapped (group_entry_del_flow_ref a) (fe_group_refs fe) (groups st) G \<and>
    meters_mapped (meter_entry_del_flow_ref a) (fe_meter_refs fe) (meters st) M"
proof -
  have d: "distinct (fe_group_refs fe)" "distinct (fe_meter_refs fe)"
    using assms(4) by (simp_all add: flow_ok_def)
  obtain "is" where i: "insts st (fs_instructions (fe_stats fe)) = Some is"
    using assms(4) by (auto simp: flow_ok_def)
  obtain G where G: "del_group_refs a st = Some (st\<lparr>groups := G, flows := (flows st)(a \<mapsto> fe\<lparr>fe_group_refs := []\<rparr>)\<rparr>)"
    "groups_mapped (group_entry_del_flow_ref a) (fe_group_refs fe) (groups st) G"
    using del_group_refs_ok [OF assms(1,3) d(1)] by auto
  let ?st = "st\<lparr>groups := G, flows := (flows st)(a \<mapsto> fe\<lparr>fe_group_refs := []\<rparr>)\<rparr>"
  obtain M where M: "del_meter_refs a ?st = Some (?st\<lparr>meters := M,
      flows := (flows ?st)(a \<mapsto> fe\<lparr>fe_group_refs := [], fe_meter_refs := []\<rparr>)\<rparr>)"
    "meters_mapped (meter_entry_del_flow_ref a) (fe_meter_refs fe) (meters st) M"
    using del_meter_refs_ok [of ?st a "fe\<lparr>fe_group_refs := []\<rparr>"] assms(2) d(2) by auto
  show ?thesis
    by (intro exI [of _ G] exI [of _ M] conjI)
      (use G M i in \<open>simp_all add: flow_entry_destroy_def free_insts_def\<close>)
qed

definition created_flow :: "nat \<Rightarrow> nat \<Rightarrow> ofl_msg_flow_mod \<Rightarrow> addr \<Rightarrow> ofl_instruction list \<Rightarrow> flow_entry" where
  "created_flow now ti m ia is =
    (new_flow now ti m ia)\<lparr>fe_group_refs := inst_groups is, fe_meter_refs := inst_meters is\<rparr>"

lemma flow_entry_create_ok:
  assumes "gok (groups st)" and "mok (meters st)" and "insts st ia = Some is"
  shows "\<exists>G M. flow_entry_create now ti m ia st = Some (next_addr st, st\<lparr>next_addr := Suc (next_addr st),
      groups := G, meters := M, flows := (flows st)(next_addr st \<mapsto> created_flow now ti m ia is)\<rparr>) \<and>
    groups_mapped (group_entry_add_flow_ref (next_addr st)) (inst_groups is) (groups st) G \<and>
    meters_mapped (meter_entry_add_flow_ref (next_addr st)) (inst_meters is) (meters st) M"
proof -
  let ?a = "next_addr st" and ?fe = "new_flow now ti m ia"
  let ?st1 = "set_flow ?a ?fe (st\<lparr>next_addr := Suc ?a\<rparr>)"
  have 1: "groups ?st1 = groups st" "meters ?st1 = meters st" "insts ?st1 = insts st"
    "flows ?st1 = (flows st)(?a \<mapsto> ?fe)" by (simp_all add: set_flow_def)
  have fe: "fe_group_refs ?fe = []" "fe_meter_refs ?fe = []" "fs_instructions (fe_stats ?fe) = ia"
    by (simp_all add: new_flow_def)
  obtain G where G: "init_group_refs ?a ?st1 = Some (?st1\<lparr>groups := G,
      flows := (flows ?st1)(?a \<mapsto> ?fe\<lparr>fe_group_refs := inst_groups is\<rparr>)\<rparr>)"
    "groups_mapped (group_entry_add_flow_ref ?a) (inst_groups is) (groups st) G"
    using init_group_refs_ok [of ?st1 ?a ?fe "is"] assms fe by (auto simp: 1)
  let ?st2 = "?st1\<lparr>groups := G, flows := (flows ?st1)(?a \<mapsto> ?fe\<lparr>fe_group_refs := inst_groups is\<rparr>)\<rparr>"
  obtain M where M: "init_meter_refs ?a ?st2 = Some (?st2\<lparr>meters := M,
      flows := (flows ?st2)(?a \<mapsto> created_flow now ti m ia is)\<rparr>)"
    "meters_mapped (meter_entry_add_flow_ref ?a) (inst_meters is) (meters st) M"
    using init_meter_refs_ok [of ?st2 ?a "?fe\<lparr>fe_group_refs := inst_groups is\<rparr>" "is"] assms fe
    by (auto simp: 1 created_flow_def)
  have "?st2\<lparr>meters := M, flows := (flows ?st2)(?a \<mapsto> created_flow now ti m ia is)\<rparr> =
      st\<lparr>next_addr := Suc ?a, groups := G, meters := M, flows := (flows st)(?a \<mapsto> created_flow now ti m ia is)\<rparr>"
    by (simp add: set_flow_def)
  with G M show ?thesis
    by (intro exI [of _ G] exI [of _ M]) (simp add: flow_entry_create_def Let_def)
qed

lemma flow_entry_replace_ok:
  assumes "gok (groups st)" and "flows st a = Some fe" and "flow_ok st fe"
    and "insts st ia = Some is" and "ia \<noteq> fs_instructions (fe_stats fe)"
  shows "\<exists>G1 G. flow_entry_replace_instructions a ia st = Some (st\<lparr>groups := G,
      insts := (insts st)(fs_instructions (fe_stats fe) := None),
      flows := (flows st)(a \<mapsto> fe\<lparr>fe_stats := (fe_stats fe)\<lparr>fs_instructions := ia\<rparr>, fe_group_refs := inst_groups is\<rparr>)\<rparr>) \<and>
    groups_mapped (group_entry_del_flow_ref a) (fe_group_refs fe) (groups st) G1 \<and>
    groups_mapped (group_entry_add_flow_ref a) (inst_groups is) G1 G"
proof -
  let ?ip = "fs_instructions (fe_stats fe)"
  obtain old where i: "insts st ?ip = Some old" and d: "distinct (fe_group_refs fe)"
    using assms(3) by (auto simp: flow_ok_def)
  obtain G1 where G1: "del_group_refs a st = Some (st\<lparr>groups := G1, flows := (flows st)(a \<mapsto> fe\<lparr>fe_group_refs := []\<rparr>)\<rparr>)"
    "groups_mapped (group_entry_del_flow_ref a) (fe_group_refs fe) (groups st) G1"
    using del_group_refs_ok [OF assms(1,2) d] by auto
  let ?fe = "fe\<lparr>fe_group_refs := [], fe_stats := (fe_stats fe)\<lparr>fs_instructions := ia\<rparr>\<rparr>"
  let ?st = "st\<lparr>groups := G1, insts := (insts st)(?ip := None), flows := (flows st)(a \<mapsto> ?fe)\<rparr>"
  have "gok G1" using G1(2) by (simp add: groups_mapped_def)
  then obtain G where G: "init_group_refs a ?st = Some (?st\<lparr>groups := G,
      flows := (flows ?st)(a \<mapsto> ?fe\<lparr>fe_group_refs := inst_groups is\<rparr>)\<rparr>)"
    "groups_mapped (group_entry_add_flow_ref a) (inst_groups is) G1 G"
    using init_group_refs_ok [of ?st a ?fe "is"] assms(4,5) by auto
  show ?thesis
    by (intro exI [of _ G1] exI [of _ G] conjI)
      (use G1 G i in \<open>simp_all add: flow_entry_replace_instructions_def free_insts_def set_flow_def\<close>)
qed

end
