(* ===== verification/Flow_Table.thy ===== *)
theory Flow_Table
  imports Flow_Entry
begin

text \<open>
  Flow tables, \<^verbatim>\<open>udatapath/flow_table.c\<close>: adding, modifying and deleting entries, the lookup of a
  packet, the timeouts and the statistics.  A table is named by its index in the pipeline.  A walk
  that unlinks the element it is at runs over the elements the list had when it started, as the
  safe iteration of the source does.  The description of the table features is not part of the
  state.
\<close>

unbundle bit_operations_syntax

section \<open>Adding entries\<close>

definition FLOW_TABLE_MAX_ENTRIES :: u32 where "FLOW_TABLE_MAX_ENTRIES = 4096"

fun insert_hard :: "dp_tables \<Rightarrow> nat \<Rightarrow> addr \<Rightarrow> addr list \<Rightarrow> addr list option" where
  "insert_hard st remove_at a [] = Some [a]"
| "insert_hard st remove_at a (e # es) = do {
     fe \<leftarrow> flows st e;
     if remove_at < fe_remove_at fe then Some (a # e # es)
     else do { r \<leftarrow> insert_hard st remove_at a es; Some (e # r) }
   }"

definition add_to_timeout_lists :: "nat \<Rightarrow> addr \<Rightarrow> dp_tables \<Rightarrow> dp_tables option" where
  "add_to_timeout_lists ti a st = do {
     fe \<leftarrow> flows st a;
     let st1 = (if 0 < fs_idle_timeout (fe_stats fe)
                then upd_table ti (\<lambda>t. t\<lparr>ft_idle_entries := ft_idle_entries t @ [a]\<rparr>) st else st);
     if 0 < fe_remove_at fe then do {
       hs \<leftarrow> insert_hard st1 (fe_remove_at fe) a (ft_hard_entries (tables st1 ! ti));
       Some (upd_table ti (\<lambda>t. t\<lparr>ft_hard_entries := hs\<rparr>) st1)
     } else Some st1
   }"

text \<open>Where the walk over the entries stops: at an overlapping entry, at an equal one, or at the
  place of the new entry, in front of an entry or at the end.\<close>

datatype add_place = Overlapping | Equal addr | Before addr | AtEnd

fun add_walk :: "dp_tables \<Rightarrow> ofl_msg_flow_mod \<Rightarrow> bool \<Rightarrow> addr list \<Rightarrow> add_place option" where
  "add_walk st m check_overlap [] = Some AtEnd"
| "add_walk st m check_overlap (e # es) = do {
     fe \<leftarrow> flows st e;
     ov \<leftarrow> (if check_overlap then flow_entry_overlaps st fe m else Some False);
     if ov then Some Overlapping
     else if flow_entry_matches fe m True False then Some (Equal e)
     else if fs_priority (fe_stats fe) < fm_priority m then Some (Before e)
     else add_walk st m check_overlap es
   }"

fun insert_at :: "add_place \<Rightarrow> addr \<Rightarrow> addr list \<Rightarrow> addr list" where
  "insert_at (Before e) a es = insert_before (\<lambda>x. x = e) a es"
| "insert_at p a es = es @ [a]"

definition replace_entry :: "addr \<Rightarrow> addr \<Rightarrow> flow_table \<Rightarrow> flow_table" where
  "replace_entry old a t =
    t\<lparr>ft_match_entries := replace1 old a (ft_match_entries t),
      ft_hard_entries := remove1 old (ft_hard_entries t),
      ft_idle_entries := remove1 old (ft_idle_entries t)\<rparr>"

text \<open>The result: the error or none, whether the instructions of the message were kept, the state.\<close>

definition flow_table_add ::
    "nat \<Rightarrow> nat \<Rightarrow> ofl_msg_flow_mod \<Rightarrow> addr \<Rightarrow> bool \<Rightarrow> dp_tables \<Rightarrow> (ofl_err option \<times> bool \<times> dp_tables) option" where
  "flow_table_add now ti m ia check_overlap st = do {
     p \<leftarrow> add_walk st m check_overlap (ft_match_entries (tables st ! ti));
     case p of
       Overlapping \<Rightarrow> Some (Some OFPFMFC_OVERLAP, False, st)
     | Equal old \<Rightarrow> do {
         (a, st1) \<leftarrow> flow_entry_create now ti m ia st;
         st2 \<leftarrow> flow_entry_destroy old (upd_table ti (replace_entry old a) st1);
         st3 \<leftarrow> add_to_timeout_lists ti a st2;
         Some (None, True, st3)
       }
     | _ \<Rightarrow>
         if ts_active_count (ft_stats (tables st ! ti)) = FLOW_TABLE_MAX_ENTRIES
         then Some (Some OFPFMFC_TABLE_FULL, False, st)
         else do {
           let st1 = upd_table ti (\<lambda>t. t\<lparr>ft_stats := (ft_stats t)\<lparr>ts_active_count := ts_active_count (ft_stats t) + 1\<rparr>\<rparr>) st;
           (a, st2) \<leftarrow> flow_entry_create now ti m ia st1;
           st3 \<leftarrow> add_to_timeout_lists ti a
                    (upd_table ti (\<lambda>t. t\<lparr>ft_match_entries := insert_at p a (ft_match_entries t)\<rparr>) st2);
           Some (None, True, st3)
         }
   }"

section \<open>Modifying and deleting\<close>

fun modify_walk ::
    "ofl_msg_flow_mod \<Rightarrow> addr \<Rightarrow> bool \<Rightarrow> addr list \<Rightarrow> bool \<Rightarrow> dp_tables \<Rightarrow> (bool \<times> dp_tables) option" where
  "modify_walk m ia strict [] kept st = Some (kept, st)"
| "modify_walk m ia strict (a # as) kept st = do {
     fe \<leftarrow> flows st a;
     if flow_entry_matches fe m strict True then do {
       st1 \<leftarrow> flow_entry_replace_instructions a ia st;
       fe1 \<leftarrow> flows st1 a;
       modify_walk m ia strict as True (set_flow a (flow_entry_modify_stats m fe1) st1)
     } else modify_walk m ia strict as kept st
   }"

definition flow_table_modify ::
    "nat \<Rightarrow> ofl_msg_flow_mod \<Rightarrow> addr \<Rightarrow> bool \<Rightarrow> dp_tables \<Rightarrow> (ofl_err option \<times> bool \<times> dp_tables) option" where
  "flow_table_modify ti m ia strict st = do {
     (kept, st1) \<leftarrow> modify_walk m ia strict (ft_match_entries (tables st ! ti)) False st;
     Some (None, kept, st1)
   }"

fun delete_walk :: "nat \<Rightarrow> ofl_msg_flow_mod \<Rightarrow> bool \<Rightarrow> addr list \<Rightarrow> dp_tables \<Rightarrow> dp_tables option" where
  "delete_walk now m strict [] st = Some st"
| "delete_walk now m strict (a # as) st = do {
     fe \<leftarrow> flows st a;
     ok \<leftarrow> out_filter st fe (fm_out_port m) (fm_out_group m);
     st1 \<leftarrow> (if ok \<and> flow_entry_matches fe m strict True
             then flow_entry_remove now a OFPRR_DELETE st else Some st);
     delete_walk now m strict as st1
   }"

definition flow_table_delete ::
    "nat \<Rightarrow> nat \<Rightarrow> ofl_msg_flow_mod \<Rightarrow> bool \<Rightarrow> dp_tables \<Rightarrow> (ofl_err option \<times> bool \<times> dp_tables) option" where
  "flow_table_delete now ti m strict st = do {
     st1 \<leftarrow> delete_walk now m strict (ft_match_entries (tables st ! ti)) st;
     Some (None, False, st1)
   }"

definition flow_table_flow_mod ::
    "nat \<Rightarrow> nat \<Rightarrow> ofl_msg_flow_mod \<Rightarrow> addr \<Rightarrow> dp_tables \<Rightarrow> (ofl_err option \<times> bool \<times> dp_tables) option" where
  "flow_table_flow_mod now ti m ia st =
    (if length (tables st) \<le> ti then None
     else case fm_command m of
       OFPFC_ADD \<Rightarrow> flow_table_add now ti m ia (fm_flags m AND OFPFF_CHECK_OVERLAP \<noteq> 0) st
     | OFPFC_MODIFY \<Rightarrow> flow_table_modify ti m ia False st
     | OFPFC_MODIFY_STRICT \<Rightarrow> flow_table_modify ti m ia True st
     | OFPFC_DELETE \<Rightarrow> flow_table_delete now ti m False st
     | OFPFC_DELETE_STRICT \<Rightarrow> flow_table_delete now ti m True st
     | OFPFC_OTHER c \<Rightarrow> Some (Some OFPFMFC_BAD_COMMAND, False, st))"

section \<open>Lookup and timeouts\<close>

text \<open>The lookup may validate the handler of the packet, which it returns.\<close>

definition count_match :: "nat \<Rightarrow> nat \<Rightarrow> flow_entry \<Rightarrow> flow_entry" where
  "count_match now len fe =
    fe\<lparr>fe_stats := (fe_stats fe)
        \<lparr>fs_byte_count := (if fe_no_byt_count fe then fs_byte_count (fe_stats fe)
                           else fs_byte_count (fe_stats fe) + of_nat len),
         fs_packet_count := (if fe_no_pkt_count fe then fs_packet_count (fe_stats fe)
                             else fs_packet_count (fe_stats fe) + 1)\<rparr>,
       fe_last_used := now\<rparr>"

fun lookup_walk ::
    "packet_parser \<Rightarrow> dp_tables \<Rightarrow> packet \<Rightarrow> addr list \<Rightarrow> (addr option \<times> packet) option" where
  "lookup_walk parse st k [] = Some (None, k)"
| "lookup_walk parse st k (a # as) = do {
     fe \<leftarrow> flows st a;
     if m_type (fs_match (fe_stats fe)) \<noteq> OFPMT_OXM then lookup_walk parse st k as
     else
       let (ok, h) = packet_handle_std_match parse (pkt_data k) (pkt_in_port k) (pkt_handle_std k)
                       (fs_match (fe_stats fe));
           k1 = k\<lparr>pkt_handle_std := h\<rparr>
       in if ok then Some (Some a, k1) else lookup_walk parse st k1 as
   }"

definition flow_table_lookup ::
    "packet_parser \<Rightarrow> nat \<Rightarrow> nat \<Rightarrow> packet \<Rightarrow> dp_tables \<Rightarrow> (addr option \<times> packet \<times> dp_tables) option" where
  "flow_table_lookup parse now ti k st = do {
     let st1 = upd_table ti (\<lambda>t. t\<lparr>ft_stats := (ft_stats t)\<lparr>ts_lookup_count := ts_lookup_count (ft_stats t) + 1\<rparr>\<rparr>) st;
     (r, k1) \<leftarrow> lookup_walk parse st1 k (ft_match_entries (tables st ! ti));
     case r of
       None \<Rightarrow> Some (None, k1, st1)
     | Some a \<Rightarrow> do {
         fe \<leftarrow> flows st1 a;
         Some (Some a, k1,
           upd_table ti (\<lambda>t. t\<lparr>ft_stats := (ft_stats t)\<lparr>ts_matched_count := ts_matched_count (ft_stats t) + 1\<rparr>\<rparr>)
             (set_flow a (count_match now (length (pkt_data k)) fe) st1))
       }
   }"

fun hard_walk :: "nat \<Rightarrow> addr list \<Rightarrow> dp_tables \<Rightarrow> dp_tables option" where
  "hard_walk now [] st = Some st"
| "hard_walk now (a # as) st = do {
     (gone, st1) \<leftarrow> flow_entry_hard_timeout now a st;
     if gone then hard_walk now as st1 else Some st1
   }"

fun idle_walk :: "nat \<Rightarrow> addr list \<Rightarrow> dp_tables \<Rightarrow> dp_tables option" where
  "idle_walk now [] st = Some st"
| "idle_walk now (a # as) st = do {
     (gone, st1) \<leftarrow> flow_entry_idle_timeout now a st;
     idle_walk now as st1
   }"

definition flow_table_timeout :: "nat \<Rightarrow> nat \<Rightarrow> dp_tables \<Rightarrow> dp_tables option" where
  "flow_table_timeout now ti st = do {
     st1 \<leftarrow> hard_walk now (ft_hard_entries (tables st ! ti)) st;
     idle_walk now (ft_idle_entries (tables st1 ! ti)) st1
   }"

section \<open>Creation, destruction, statistics\<close>

definition OFPTC_DEPRECATED_MASK :: u32 where "OFPTC_DEPRECATED_MASK = 3"

definition flow_table_create :: "u8 \<Rightarrow> flow_table" where
  "flow_table_create table_id =
    \<lparr>ft_stats = \<lparr>ts_table_id = table_id, ts_active_count = 0, ts_lookup_count = 0, ts_matched_count = 0\<rparr>,
     ft_config = OFPTC_DEPRECATED_MASK, ft_match_entries = [], ft_hard_entries = [], ft_idle_entries = []\<rparr>"

fun destroy_walk :: "addr list \<Rightarrow> dp_tables \<Rightarrow> dp_tables option" where
  "destroy_walk [] st = Some st"
| "destroy_walk (a # as) st = do { st1 \<leftarrow> flow_entry_destroy a st; destroy_walk as st1 }"

record ofl_msg_multipart_request_flow =
  rf_table_id :: u8
  rf_out_port :: u32
  rf_out_group :: u32
  rf_match :: ofl_match

fun stats_walk ::
    "nat \<Rightarrow> ofl_msg_multipart_request_flow \<Rightarrow> addr list \<Rightarrow> dp_tables \<Rightarrow> (ofl_flow_stats list \<times> dp_tables) option" where
  "stats_walk now msg [] st = Some ([], st)"
| "stats_walk now msg (a # as) st = do {
     fe \<leftarrow> flows st a;
     ok \<leftarrow> out_filter st fe (rf_out_port msg) (rf_out_group msg);
     if ok \<and> match_std_nonstrict (rf_match msg) (fs_match (fe_stats fe)) then do {
       let fe1 = flow_entry_update now fe;
       (ss, st1) \<leftarrow> stats_walk now msg as (set_flow a fe1 st);
       Some (fe_stats fe1 # ss, st1)
     } else stats_walk now msg as st
   }"

definition flow_table_stats ::
    "nat \<Rightarrow> nat \<Rightarrow> ofl_msg_multipart_request_flow \<Rightarrow> dp_tables \<Rightarrow> (ofl_flow_stats list \<times> dp_tables) option" where
  "flow_table_stats now ti msg st = stats_walk now msg (ft_match_entries (tables st ! ti)) st"

fun aggregate_walk ::
    "ofl_msg_multipart_request_flow \<Rightarrow> addr list \<Rightarrow> dp_tables \<Rightarrow> u64 \<times> u64 \<times> u32 \<Rightarrow> (u64 \<times> u64 \<times> u32) option" where
  "aggregate_walk msg [] st c = Some c"
| "aggregate_walk msg (a # as) st (p, b, n) = do {
     fe \<leftarrow> flows st a;
     ok \<leftarrow> out_filter st fe (rf_out_port msg) (rf_out_group msg);
     if ok then
       aggregate_walk msg as st
         (if fe_no_pkt_count fe then p else p + fs_packet_count (fe_stats fe),
          if fe_no_byt_count fe then b else b + fs_byte_count (fe_stats fe), n + 1)
     else aggregate_walk msg as st (p, b, n)
   }"

definition flow_table_aggregate_stats ::
    "nat \<Rightarrow> ofl_msg_multipart_request_flow \<Rightarrow> dp_tables \<Rightarrow> u64 \<times> u64 \<times> u32 \<Rightarrow> (u64 \<times> u64 \<times> u32) option" where
  "flow_table_aggregate_stats ti msg st c = aggregate_walk msg (ft_match_entries (tables st ! ti)) st c"


section \<open>The invariant of the tables\<close>

text \<open>References are sound: a flow that a group or a meter lists is alive and refers to it.\<close>

definition group_refs_ok :: "(addr \<Rightarrow> flow_entry option) \<Rightarrow> group_table \<Rightarrow> bool" where
  "group_refs_ok F G \<longleftrightarrow> gok G \<and>
    (\<forall>k e. gfind G k = Some e \<longrightarrow> distinct (ge_flow_refs e) \<and>
       (\<forall>a \<in> set (ge_flow_refs e). \<exists>fe g. F a = Some fe \<and> g \<in> set (fe_group_refs fe) \<and> k = ucast g))"

definition meter_refs_ok :: "(addr \<Rightarrow> flow_entry option) \<Rightarrow> meter_table \<Rightarrow> bool" where
  "meter_refs_ok F M \<longleftrightarrow> mok M \<and>
    (\<forall>k e. mfind M k = Some e \<longrightarrow> distinct (me_flow_refs e) \<and>
       (\<forall>a \<in> set (me_flow_refs e). \<exists>fe m. F a = Some fe \<and> m \<in> set (fe_meter_refs fe) \<and> k = ucast m))"

lemma group_refsD:
  assumes "group_refs_ok F G" and "gfind G k = Some e"
  shows "distinct (ge_flow_refs e)"
    and "a \<in> set (ge_flow_refs e) \<Longrightarrow> \<exists>fe g. F a = Some fe \<and> g \<in> set (fe_group_refs fe) \<and> k = ucast g"
  using assms unfolding group_refs_ok_def by blast+

lemma meter_refsD:
  assumes "meter_refs_ok F M" and "mfind M k = Some e"
  shows "distinct (me_flow_refs e)"
    and "a \<in> set (me_flow_refs e) \<Longrightarrow> \<exists>fe m. F a = Some fe \<and> m \<in> set (fe_meter_refs fe) \<and> k = ucast m"
  using assms unfolding meter_refs_ok_def by blast+

lemma group_refs_del:
  assumes ok: "group_refs_ok F G" and a: "F a = Some fe"
    and m: "groups_mapped (group_entry_del_flow_ref a) (fe_group_refs fe) G G'"
  shows "group_refs_ok (F(a := x)) G'"
  unfolding group_refs_ok_def
proof (rule conjI; (intro allI impI)?)
  show "gok G'" using m by (simp add: groups_mapped_def)
  fix k e' assume e': "gfind G' k = Some e'"
  show "distinct (ge_flow_refs e') \<and>
    (\<forall>b \<in> set (ge_flow_refs e'). \<exists>fe' g. (F(a := x)) b = Some fe' \<and> g \<in> set (fe_group_refs fe') \<and> k = ucast g)"
  proof (cases "k \<in> ucast ` set (fe_group_refs fe)")
    case True
    then obtain e where e: "gfind G k = Some e" "e' = group_entry_del_flow_ref a e"
      using e' m by (auto simp: groups_mapped_def)
    have d: "distinct (ge_flow_refs e)" by (rule group_refsD(1) [OF ok e(1)])
    then show ?thesis using group_refsD(2) [OF ok e(1)] e(2)
      by (auto simp: gr.set_refs_del gr.distinct_refs_del)
  next
    case False
    then have e: "gfind G k = Some e'" using e' m by (simp add: groups_mapped_def)
    have "a \<notin> set (ge_flow_refs e')" using group_refsD(2) [OF ok e, of a] a False by auto
    then show ?thesis using group_refsD [OF ok e] by (metis fun_upd_apply)
  qed
qed

lemma meter_refs_del:
  assumes ok: "meter_refs_ok F M" and a: "F a = Some fe"
    and m: "meters_mapped (meter_entry_del_flow_ref a) (fe_meter_refs fe) M M'"
  shows "meter_refs_ok (F(a := x)) M'"
  unfolding meter_refs_ok_def
proof (rule conjI; (intro allI impI)?)
  show "mok M'" using m by (simp add: meters_mapped_def)
  fix k e' assume e': "mfind M' k = Some e'"
  show "distinct (me_flow_refs e') \<and>
    (\<forall>b \<in> set (me_flow_refs e'). \<exists>fe' m. (F(a := x)) b = Some fe' \<and> m \<in> set (fe_meter_refs fe') \<and> k = ucast m)"
  proof (cases "k \<in> ucast ` set (fe_meter_refs fe)")
    case True
    then obtain e where e: "mfind M k = Some e" "e' = meter_entry_del_flow_ref a e"
      using e' m by (auto simp: meters_mapped_def)
    have d: "distinct (me_flow_refs e)" by (rule meter_refsD(1) [OF ok e(1)])
    then show ?thesis using meter_refsD(2) [OF ok e(1)] e(2)
      by (auto simp: mr.set_refs_del mr.distinct_refs_del)
  next
    case False
    then have e: "mfind M k = Some e'" using e' m by (simp add: meters_mapped_def)
    have "a \<notin> set (me_flow_refs e')" using meter_refsD(2) [OF ok e, of a] a False by auto
    then show ?thesis using meter_refsD [OF ok e] by (metis fun_upd_apply)
  qed
qed

lemma group_refs_add:
  assumes ok: "group_refs_ok F G" and a: "F a = None"
    and m: "groups_mapped (group_entry_add_flow_ref a) gs G G'" and gs: "set gs \<subseteq> set (fe_group_refs fe)"
  shows "group_refs_ok (F(a \<mapsto> fe)) G'"
  unfolding group_refs_ok_def
proof (rule conjI; (intro allI impI)?)
  show "gok G'" using m by (simp add: groups_mapped_def)
  fix k e' assume e': "gfind G' k = Some e'"
  show "distinct (ge_flow_refs e') \<and>
    (\<forall>b \<in> set (ge_flow_refs e'). \<exists>fe' g. (F(a \<mapsto> fe)) b = Some fe' \<and> g \<in> set (fe_group_refs fe') \<and> k = ucast g)"
  proof (cases "k \<in> ucast ` set gs")
    case True
    then obtain e where e: "gfind G k = Some e" "e' = group_entry_add_flow_ref a e"
      using e' m by (auto simp: groups_mapped_def)
    then show ?thesis using group_refsD [OF ok e(1)] True gs a
      by (auto simp: gr.distinct_refs_add)
  next
    case False
    then have e: "gfind G k = Some e'" using e' m by (simp add: groups_mapped_def)
    then show ?thesis using group_refsD [OF ok e] a by fastforce
  qed
qed

lemma meter_refs_add:
  assumes ok: "meter_refs_ok F M" and a: "F a = None"
    and m: "meters_mapped (meter_entry_add_flow_ref a) ms M M'" and ms: "set ms \<subseteq> set (fe_meter_refs fe)"
  shows "meter_refs_ok (F(a \<mapsto> fe)) M'"
  unfolding meter_refs_ok_def
proof (rule conjI; (intro allI impI)?)
  show "mok M'" using m by (simp add: meters_mapped_def)
  fix k e' assume e': "mfind M' k = Some e'"
  show "distinct (me_flow_refs e') \<and>
    (\<forall>b \<in> set (me_flow_refs e'). \<exists>fe' m. (F(a \<mapsto> fe)) b = Some fe' \<and> m \<in> set (fe_meter_refs fe') \<and> k = ucast m)"
  proof (cases "k \<in> ucast ` set ms")
    case True
    then obtain e where e: "mfind M k = Some e" "e' = meter_entry_add_flow_ref a e"
      using e' m by (auto simp: meters_mapped_def)
    then show ?thesis using meter_refsD [OF ok e(1)] True ms a
      by (auto simp: mr.distinct_refs_add)
  next
    case False
    then have e: "mfind M k = Some e'" using e' m by (simp add: meters_mapped_def)
    then show ?thesis using meter_refsD [OF ok e] a by fastforce
  qed
qed

text \<open>The references do not depend on the rest of the entries.\<close>

lemma group_refs_cong:
  assumes "group_refs_ok F G" and "\<And>b. map_option fe_group_refs (F' b) = map_option fe_group_refs (F b)"
  shows "group_refs_ok F' G"
proof -
  have "\<exists>fe. F' b = Some fe \<and> g \<in> set (fe_group_refs fe)" if "F b = Some fe'" "g \<in> set (fe_group_refs fe')" for b fe' g
    using assms(2) [of b] that by auto
  then show ?thesis using assms(1) unfolding group_refs_ok_def by meson
qed

lemma meter_refs_cong:
  assumes "meter_refs_ok F M" and "\<And>b. map_option fe_meter_refs (F' b) = map_option fe_meter_refs (F b)"
  shows "meter_refs_ok F' M"
proof -
  have "\<exists>fe. F' b = Some fe \<and> m \<in> set (fe_meter_refs fe)" if "F b = Some fe'" "m \<in> set (fe_meter_refs fe')" for b fe' m
    using assms(2) [of b] that by auto
  then show ?thesis using assms(1) unfolding meter_refs_ok_def by meson
qed


text \<open>What the lists of a table depend on.\<close>

definition fkey :: "flow_entry \<Rightarrow> nat \<times> u16 \<times> nat \<times> u16" where
  "fkey fe = (fe_table fe, fs_priority (fe_stats fe), fe_remove_at fe, fs_idle_timeout (fe_stats fe))"

definition prio_of :: "(addr \<Rightarrow> flow_entry option) \<Rightarrow> addr \<Rightarrow> u16" where
  "prio_of F a = (case F a of None \<Rightarrow> 0 | Some fe \<Rightarrow> fs_priority (fe_stats fe))"

definition due_of :: "(addr \<Rightarrow> flow_entry option) \<Rightarrow> addr \<Rightarrow> nat" where
  "due_of F a = (case F a of None \<Rightarrow> 0 | Some fe \<Rightarrow> fe_remove_at fe)"

definition idle_of :: "(addr \<Rightarrow> flow_entry option) \<Rightarrow> addr \<Rightarrow> u16" where
  "idle_of F a = (case F a of None \<Rightarrow> 0 | Some fe \<Rightarrow> fs_idle_timeout (fe_stats fe))"

definition members :: "(addr \<Rightarrow> flow_entry option) \<Rightarrow> nat \<Rightarrow> addr set" where
  "members F ti = {a. \<exists>fe. F a = Some fe \<and> fe_table fe = ti}"

text \<open>The lists of a table: the entries in the order of falling priority, those with a hard timeout
  in the order of the time they are due, and those with an idle timeout.\<close>

definition listed :: "(addr \<Rightarrow> flow_entry option) \<Rightarrow> nat \<Rightarrow> flow_table \<Rightarrow> bool" where
  "listed F ti t \<longleftrightarrow>
    distinct (ft_match_entries t) \<and> set (ft_match_entries t) = members F ti \<and>
    sorted_wrt (\<lambda>a b. prio_of F b \<le> prio_of F a) (ft_match_entries t) \<and>
    distinct (ft_hard_entries t) \<and> set (ft_hard_entries t) = {a \<in> members F ti. 0 < due_of F a} \<and>
    sorted_wrt (\<lambda>a b. due_of F a \<le> due_of F b) (ft_hard_entries t) \<and>
    distinct (ft_idle_entries t) \<and> set (ft_idle_entries t) = {a \<in> members F ti. 0 < idle_of F a} \<and>
    ts_active_count (ft_stats t) = of_nat (length (ft_match_entries t)) \<and>
    length (ft_match_entries t) \<le> unat FLOW_TABLE_MAX_ENTRIES"

text \<open>Live entries have live instructions that no other entry shares.\<close>

definition insts_ok :: "dp_tables \<Rightarrow> bool" where
  "insts_ok st \<longleftrightarrow>
    (\<forall>a fe. flows st a = Some fe \<longrightarrow> a < next_addr st \<and> flow_ok st fe \<and> fs_instructions (fe_stats fe) < next_addr st \<and>
       fe_table fe < length (tables st)) \<and>
    (\<forall>a b fe fe'. flows st a = Some fe \<longrightarrow> flows st b = Some fe' \<longrightarrow>
       fs_instructions (fe_stats fe) = fs_instructions (fe_stats fe') \<longrightarrow> a = b)"

definition tables_ok :: "dp_tables \<Rightarrow> bool" where
  "tables_ok st \<longleftrightarrow> group_refs_ok (flows st) (groups st) \<and> meter_refs_ok (flows st) (meters st) \<and> insts_ok st \<and>
     (\<forall>ti < length (tables st). listed (flows st) ti (tables st ! ti))"

lemma insts_okI:
  assumes "\<And>a fe. flows st a = Some fe \<Longrightarrow>
      a < next_addr st \<and> flow_ok st fe \<and> fs_instructions (fe_stats fe) < next_addr st \<and> fe_table fe < length (tables st)"
    and "\<And>a b fe fe'. flows st a = Some fe \<Longrightarrow> flows st b = Some fe' \<Longrightarrow>
      fs_instructions (fe_stats fe) = fs_instructions (fe_stats fe') \<Longrightarrow> a = b"
  shows "insts_ok st"
  using assms unfolding insts_ok_def by blast

lemma tables_okD:
  assumes "tables_ok st"
  shows "gok (groups st)" and "mok (meters st)" and "ti < length (tables st) \<Longrightarrow> listed (flows st) ti (tables st ! ti)"
    and "flows st a = Some fe \<Longrightarrow> flow_ok st fe" and "flows st a = Some fe \<Longrightarrow> fe_table fe < length (tables st)"
    and "flows st a = Some fe \<Longrightarrow> a < next_addr st"
  using assms unfolding tables_ok_def group_refs_ok_def meter_refs_ok_def insts_ok_def by blast+

lemma key_views:
  assumes "map_option fkey (F' a) = map_option fkey (F a)"
  shows "prio_of F' a = prio_of F a" "due_of F' a = due_of F a" "idle_of F' a = idle_of F a"
    "a \<in> members F' ti \<longleftrightarrow> a \<in> members F ti"
  by (cases "F a"; cases "F' a"; use assms in \<open>simp add: prio_of_def due_of_def idle_of_def members_def fkey_def\<close>)+

lemma listed_cong:
  assumes "listed F ti t" and "\<And>a. map_option fkey (F' a) = map_option fkey (F a)"
    and "ft_match_entries t' = ft_match_entries t" "ft_hard_entries t' = ft_hard_entries t"
    "ft_idle_entries t' = ft_idle_entries t" "ts_active_count (ft_stats t') = ts_active_count (ft_stats t)"
  shows "listed F' ti t'"
proof -
  have "prio_of F' = prio_of F" "due_of F' = due_of F" "idle_of F' = idle_of F" "members F' ti = members F ti"
    using key_views [of F' _ F, OF assms(2)] by (auto simp: fun_eq_iff)
  then show ?thesis using assms(1,3-) unfolding listed_def by simp
qed

text \<open>Taking an entry out of the heap and out of the lists of its table.\<close>

lemma sorted_remove1:
  assumes "sorted_wrt R xs" and "distinct xs" and "\<And>x y. x \<noteq> a \<Longrightarrow> y \<noteq> a \<Longrightarrow> R x y \<Longrightarrow> S x y"
  shows "sorted_wrt S (remove1 a xs)"
proof -
  have "sorted_wrt R (remove1 a xs)"
    using sorted_wrt_filter_list [OF assms(1), of "\<lambda>y. y \<noteq> a"] by (simp add: filter_remove1_eq [OF assms(2)])
  then show ?thesis by (rule sorted_wrt_mono_rel [rotated]) (use assms(2,3) in auto)
qed

lemma views_del:
  "b \<noteq> a \<Longrightarrow> prio_of (F(a := x)) b = prio_of F b" "b \<noteq> a \<Longrightarrow> due_of (F(a := x)) b = due_of F b"
  "b \<noteq> a \<Longrightarrow> idle_of (F(a := x)) b = idle_of F b" "members (F(a := None)) ti = members F ti - {a}"
  by (auto simp: prio_of_def due_of_def idle_of_def members_def split: if_splits)

lemma of_nat_remove1: "a \<in> set xs \<Longrightarrow> of_nat (length (remove1 a xs)) = (of_nat (length xs) - 1 :: u32)"
proof (induction xs)
  case (Cons x xs)
  then show ?case by (cases "x = a") auto
qed simp

lemma listed_remove:
  assumes "listed F ti t" and "a \<in> members F ti"
  shows "listed (F(a := None)) ti (unlink_flow a t)"
proof -
  note l = assms(1) [unfolded listed_def]
  have "sorted_wrt (\<lambda>x y. prio_of (F(a := None)) y \<le> prio_of (F(a := None)) x) (remove1 a (ft_match_entries t))"
    "sorted_wrt (\<lambda>x y. due_of (F(a := None)) x \<le> due_of (F(a := None)) y) (remove1 a (ft_hard_entries t))"
    by (rule sorted_remove1 [of "\<lambda>x y. prio_of F y \<le> prio_of F x"]; use l in \<open>simp add: views_del\<close>)
      (rule sorted_remove1 [of "\<lambda>x y. due_of F x \<le> due_of F y"]; use l in \<open>simp add: views_del\<close>)
  moreover have "{x \<in> members F ti - {a}. 0 < due_of (F(a := None)) x} = {x \<in> members F ti. 0 < due_of F x} - {a}"
    "{x \<in> members F ti - {a}. 0 < idle_of (F(a := None)) x} = {x \<in> members F ti. 0 < idle_of F x} - {a}"
    by (auto simp: views_del)
  moreover have "length (remove1 a (ft_match_entries t)) \<le> unat FLOW_TABLE_MAX_ENTRIES"
    using l by (auto simp: length_remove1)
  ultimately show ?thesis
    using l assms(2) unfolding listed_def unlink_flow_def by (simp add: views_del(4) of_nat_remove1)
qed

lemma listed_other:
  assumes "listed F ti t" and "\<And>fe. F a = Some fe \<Longrightarrow> fe_table fe \<noteq> ti" and "\<And>fe. x = Some fe \<Longrightarrow> fe_table fe \<noteq> ti"
  shows "listed (F(a := x)) ti t"
proof -
  have m: "members (F(a := x)) ti = members F ti" using assms(2,3) by (auto simp: members_def split: if_splits)
  have a: "a \<notin> members F ti" using assms(2) by (auto simp: members_def)
  note l = assms(1) [unfolded listed_def]
  have v: "prio_of (F(a := x)) b = prio_of F b" "due_of (F(a := x)) b = due_of F b" "idle_of (F(a := x)) b = idle_of F b"
    if "b \<in> members F ti" for b
    using that a by (metis views_del(1), metis views_del(2), metis views_del(3))
  have "sorted_wrt (\<lambda>b c. prio_of (F(a := x)) c \<le> prio_of (F(a := x)) b) (ft_match_entries t)"
    by (rule sorted_wrt_mono_rel [of _ "\<lambda>b c. prio_of F c \<le> prio_of F b"]) (use l v in auto)
  moreover have "sorted_wrt (\<lambda>b c. due_of (F(a := x)) b \<le> due_of (F(a := x)) c) (ft_hard_entries t)"
    by (rule sorted_wrt_mono_rel [of _ "\<lambda>b c. due_of F b \<le> due_of F c"]) (use l v in auto)
  moreover have "{b \<in> members F ti. 0 < due_of (F(a := x)) b} = {b \<in> members F ti. 0 < due_of F b}"
    "{b \<in> members F ti. 0 < idle_of (F(a := x)) b} = {b \<in> members F ti. 0 < idle_of F b}"
    using v by auto
  ultimately show ?thesis using l unfolding listed_def by (simp add: m)
qed


section \<open>Removing entries\<close>

lemma insts_ok_del:
  assumes "insts_ok st" and "flows st a = Some fe" and "flows st' = (flows st)(a := None)"
    and "insts st' = (insts st)(fs_instructions (fe_stats fe) := None)" and "next_addr st' = next_addr st"
    and "length (tables st') = length (tables st)"
  shows "insts_ok st'"
proof -
  have other: "fs_instructions (fe_stats fe') \<noteq> fs_instructions (fe_stats fe)" if "flows st b = Some fe'" "b \<noteq> a" for b fe'
    using assms(1,2) that unfolding insts_ok_def by metis
  have "b < next_addr st' \<and> flow_ok st' fe' \<and> fs_instructions (fe_stats fe') < next_addr st' \<and> fe_table fe' < length (tables st')"
    if "flows st' b = Some fe'" for b fe'
  proof -
    have b: "flows st b = Some fe'" "b \<noteq> a" using that assms(3) by (auto split: if_splits)
    have "b < next_addr st \<and> flow_ok st fe' \<and> fs_instructions (fe_stats fe') < next_addr st \<and> fe_table fe' < length (tables st)"
      using assms(1) b(1) unfolding insts_ok_def by blast
    then show ?thesis using other [OF b] assms(4-) by (simp add: flow_ok_def)
  qed
  moreover have "b = c" if "flows st' b = Some f1" "flows st' c = Some f2"
    "fs_instructions (fe_stats f1) = fs_instructions (fe_stats f2)" for b c f1 f2
  proof -
    have "flows st b = Some f1" "flows st c = Some f2" using that(1,2) assms(3) by (auto split: if_splits)
    then show ?thesis using assms(1) that(3) unfolding insts_ok_def by metis
  qed
  ultimately show ?thesis unfolding insts_ok_def by blast
qed

lemma tables_nth_update:
  "ti < length xs \<Longrightarrow> tj < length xs \<Longrightarrow> xs[ti := y] ! tj = (if tj = ti then y else xs ! tj)"
  by simp

text \<open>The state in front of the destruction of an entry that is being removed.\<close>

definition unlinked :: "nat \<Rightarrow> addr \<Rightarrow> ofp_flow_removed_reason \<Rightarrow> flow_entry \<Rightarrow> dp_tables \<Rightarrow> dp_tables" where
  "unlinked now a r fe st =
    (let fe1 = (if fe_send_removed fe then flow_entry_update now fe else fe);
         st1 = set_flow a fe1 st;
         st2 = (if fe_send_removed fe then send_table_msg (FlowRemoved r (fe_stats fe1)) st1 else st1)
     in upd_table (fe_table fe) (unlink_flow a) st2)"

lemma unlinked_sel:
  "groups (unlinked now a r fe st) = groups st" "meters (unlinked now a r fe st) = meters st"
  "insts (unlinked now a r fe st) = insts st" "next_addr (unlinked now a r fe st) = next_addr st"
  "tables (unlinked now a r fe st) = (tables st)[fe_table fe := unlink_flow a (tables st ! fe_table fe)]"
  "flows (unlinked now a r fe st) = (flows st)(a \<mapsto> (if fe_send_removed fe then flow_entry_update now fe else fe))"
  "table_sent (unlinked now a r fe st) = table_sent st @
     (if fe_send_removed fe then [FlowRemoved r (fe_stats (flow_entry_update now fe))] else [])"
  by (simp_all add: unlinked_def Let_def upd_table_def set_flow_def send_table_msg_def)

text \<open>Removing a live entry succeeds: exactly this entry and its instructions are freed, it leaves the
  lists of its table, and every group and meter forgets it.\<close>

lemma flow_entry_remove_ok:
  assumes ok: "tables_ok st" and a: "flows st a = Some fe"
  shows "\<exists>st'. flow_entry_remove now a r st = Some st' \<and> tables_ok st' \<and>
    flows st' = (flows st)(a := None) \<and> insts st' = (insts st)(fs_instructions (fe_stats fe) := None) \<and>
    tables st' = (tables st)[fe_table fe := unlink_flow a (tables st ! fe_table fe)] \<and> next_addr st' = next_addr st \<and>
    groups_mapped (group_entry_del_flow_ref a) (fe_group_refs fe) (groups st) (groups st') \<and>
    meters_mapped (meter_entry_del_flow_ref a) (fe_meter_refs fe) (meters st) (meters st') \<and>
    table_sent st' = table_sent st @ (if fe_send_removed fe then [FlowRemoved r (fe_stats (flow_entry_update now fe))] else [])"
proof -
  let ?u = "unlinked now a r fe st"
  let ?fe = "if fe_send_removed fe then flow_entry_update now fe else fe"
  let ?ti = "fe_table fe"
  have same: "fe_group_refs ?fe = fe_group_refs fe" "fe_meter_refs ?fe = fe_meter_refs fe"
    "fs_instructions (fe_stats ?fe) = fs_instructions (fe_stats fe)" by (simp_all add: flow_entry_update_def)
  have fok: "flow_ok st fe" and ti: "?ti < length (tables st)" using tables_okD(4,5) [OF ok a] by simp_all
  have "flows ?u a = Some ?fe" "flow_ok ?u ?fe" using fok by (simp_all add: unlinked_sel flow_ok_def same)
  then obtain G M where D: "flow_entry_destroy a ?u = Some (?u\<lparr>groups := G, meters := M,
      insts := (insts ?u)(fs_instructions (fe_stats fe) := None), flows := (flows ?u)(a := None)\<rparr>)"
    "groups_mapped (group_entry_del_flow_ref a) (fe_group_refs fe) (groups st) G"
    "meters_mapped (meter_entry_del_flow_ref a) (fe_meter_refs fe) (meters st) M"
    using flow_entry_destroy_ok [of ?u a ?fe] tables_okD(1,2) [OF ok] by (auto simp: unlinked_sel same)
  let ?st' = "?u\<lparr>groups := G, meters := M,
      insts := (insts ?u)(fs_instructions (fe_stats fe) := None), flows := (flows ?u)(a := None)\<rparr>"
  have r: "flow_entry_remove now a r st = Some ?st'"
    using D(1) a by (simp add: flow_entry_remove_def unlinked_def Let_def)
  have fl: "flows ?st' = (flows st)(a := None)" by (simp add: unlinked_sel)
  have "group_refs_ok (flows ?st') G" "meter_refs_ok (flows ?st') M"
    unfolding fl using group_refs_del [of "flows st" "groups st" a fe] meter_refs_del [of "flows st" "meters st" a fe] ok a D(2,3)
    by (simp_all add: tables_ok_def)
  moreover have "insts_ok ?st'"
    by (rule insts_ok_del [of st a fe]) (use ok a in \<open>simp_all add: tables_ok_def unlinked_sel\<close>)
  moreover have "listed (flows ?st') tj (tables ?st' ! tj)" if "tj < length (tables ?st')" for tj
  proof -
    have tj: "tj < length (tables st)" using that by (simp add: unlinked_sel)
    show ?thesis
    proof (cases "tj = ?ti")
      case True
      then show ?thesis using listed_remove [OF tables_okD(3) [OF ok ti], of a] a ti
        by (simp add: unlinked_sel members_def)
    next
      case False
      then show ?thesis using listed_other [OF tables_okD(3) [OF ok tj], of a None] a
        by (simp add: unlinked_sel)
    qed
  qed
  ultimately have "tables_ok ?st'" unfolding tables_ok_def by simp
  with r D(2,3) show ?thesis by (intro exI [of _ ?st']) (simp add: unlinked_sel)
qed


text \<open>A sequence of removals: the entries are gone, the lists keep the order of the rest, the groups and
  meters keep what does not concern references, and the controller was told about the entries that
  asked for it.\<close>

definition notices :: "nat \<Rightarrow> ofp_flow_removed_reason \<Rightarrow> (addr \<Rightarrow> flow_entry option) \<Rightarrow> addr list \<Rightarrow> table_msg list" where
  "notices now r F as = concat (map (\<lambda>a. case F a of None \<Rightarrow> []
     | Some fe \<Rightarrow> if fe_send_removed fe then [FlowRemoved r (fe_stats (flow_entry_update now fe))] else []) as)"

definition lists_without :: "addr set \<Rightarrow> flow_table \<Rightarrow> flow_table \<Rightarrow> bool" where
  "lists_without A t t' \<longleftrightarrow>
    ft_match_entries t' = filter (\<lambda>a. a \<notin> A) (ft_match_entries t) \<and>
    ft_hard_entries t' = filter (\<lambda>a. a \<notin> A) (ft_hard_entries t) \<and>
    ft_idle_entries t' = filter (\<lambda>a. a \<notin> A) (ft_idle_entries t)"

definition group_frame :: "group_table \<Rightarrow> group_table \<Rightarrow> bool" where
  "group_frame G G' \<longleftrightarrow> gt_entries_num G' = gt_entries_num G \<and> gt_buckets_num G' = gt_buckets_num G \<and>
     (\<forall>k. map_option (\<lambda>e. (ge_desc e, gs_group_id (ge_stats e))) (gfind G' k) =
          map_option (\<lambda>e. (ge_desc e, gs_group_id (ge_stats e))) (gfind G k))"

definition meter_frame :: "meter_table \<Rightarrow> meter_table \<Rightarrow> bool" where
  "meter_frame M M' \<longleftrightarrow> mt_entries_num M' = mt_entries_num M \<and> mt_bands_num M' = mt_bands_num M \<and>
     (\<forall>k. map_option (\<lambda>e. (me_config e, ms_band_stats (me_stats e))) (mfind M' k) =
          map_option (\<lambda>e. (me_config e, ms_band_stats (me_stats e))) (mfind M k))"

definition removed :: "nat \<Rightarrow> ofp_flow_removed_reason \<Rightarrow> addr list \<Rightarrow> dp_tables \<Rightarrow> dp_tables \<Rightarrow> bool" where
  "removed now r as st st' \<longleftrightarrow> tables_ok st' \<and> next_addr st' = next_addr st \<and>
     length (tables st') = length (tables st) \<and>
     flows st' = (\<lambda>a. if a \<in> set as then None else flows st a) \<and>
     (\<forall>b fe. b \<notin> set as \<longrightarrow> flows st b = Some fe \<longrightarrow>
        insts st' (fs_instructions (fe_stats fe)) = insts st (fs_instructions (fe_stats fe))) \<and>
     (\<forall>ti < length (tables st). lists_without (set as) (tables st ! ti) (tables st' ! ti)) \<and>
     group_frame (groups st) (groups st') \<and> meter_frame (meters st) (meters st') \<and>
     table_sent st' = table_sent st @ notices now r (flows st) as"

lemma fold_keeps: "(\<And>x y. g (f x y) = g y) \<Longrightarrow> g (fold f xs y) = g y"
  by (induction xs arbitrary: y) simp_all

lemma group_del_desc [simp]:
  "ge_desc (group_entry_del_flow_ref a e) = ge_desc e"
  "gs_group_id (ge_stats (group_entry_del_flow_ref a e)) = gs_group_id (ge_stats e)"
  unfolding group_entry_del_flow_ref_def
  by (rule fold_keeps, simp) (rule fold_keeps [where g = "\<lambda>e. gs_group_id (ge_stats e)"], simp)

lemma group_add_desc [simp]:
  "ge_desc (group_entry_add_flow_ref a e) = ge_desc e"
  "gs_group_id (ge_stats (group_entry_add_flow_ref a e)) = gs_group_id (ge_stats e)"
  by (simp_all add: group_entry_add_flow_ref_def)

lemma groups_mapped_frame:
  assumes "groups_mapped f gs G G'" and "\<And>e. ge_desc (f e) = ge_desc e"
    and "\<And>e. gs_group_id (ge_stats (f e)) = gs_group_id (ge_stats e)"
  shows "group_frame G G'"
  using assms by (auto simp: groups_mapped_def group_frame_def option.map_comp o_def)

lemma meters_mapped_frame:
  assumes "meters_mapped f ms M M'" and "\<And>e. me_config (f e) = me_config e"
    and "\<And>e. ms_band_stats (me_stats (f e)) = ms_band_stats (me_stats e)"
  shows "meter_frame M M'"
  using assms by (auto simp: meters_mapped_def meter_frame_def option.map_comp o_def)

lemma meter_del_frame [simp]:
  "me_config (meter_entry_del_flow_ref a e) = me_config e"
  "ms_band_stats (me_stats (meter_entry_del_flow_ref a e)) = ms_band_stats (me_stats e)"
  unfolding meter_entry_del_flow_ref_def
  by (rule fold_keeps, simp) (rule fold_keeps [where g = "\<lambda>e. ms_band_stats (me_stats e)"], simp)

lemma meter_add_frame [simp]:
  "me_config (meter_entry_add_flow_ref a e) = me_config e"
  "ms_band_stats (me_stats (meter_entry_add_flow_ref a e)) = ms_band_stats (me_stats e)"
  by (simp_all add: meter_entry_add_flow_ref_def)

lemma frame_find:
  assumes "group_frame G G'"
  shows "gfind G k = None \<Longrightarrow> gfind G' k = None"
    and "gfind G k = Some e \<Longrightarrow> \<exists>e'. gfind G' k = Some e' \<and> ge_desc e' = ge_desc e \<and> gs_group_id (ge_stats e') = gs_group_id (ge_stats e)"
proof -
  have "map_option (\<lambda>e. (ge_desc e, gs_group_id (ge_stats e))) (gfind G' k) =
      map_option (\<lambda>e. (ge_desc e, gs_group_id (ge_stats e))) (gfind G k)" using assms by (simp add: group_frame_def)
  then show "gfind G k = None \<Longrightarrow> gfind G' k = None"
    and "gfind G k = Some e \<Longrightarrow> \<exists>e'. gfind G' k = Some e' \<and> ge_desc e' = ge_desc e \<and> gs_group_id (ge_stats e') = gs_group_id (ge_stats e)"
    by auto
qed

lemma frame_trans:
  "group_frame G H \<Longrightarrow> group_frame H K \<Longrightarrow> group_frame G K"
  "meter_frame L M \<Longrightarrow> meter_frame M N \<Longrightarrow> meter_frame L N"
  by (simp_all add: group_frame_def meter_frame_def)

lemma frame_refl [simp]: "group_frame G G" "meter_frame M M"
  by (simp_all add: group_frame_def meter_frame_def)

lemma removed_Nil: "tables_ok st \<Longrightarrow> removed now r [] st st"
  by (simp add: removed_def lists_without_def notices_def)

lemma removeds:
  assumes "removed now r as st st'"
  shows "tables_ok st'" "flows st' = (\<lambda>a. if a \<in> set as then None else flows st a)"
    "length (tables st') = length (tables st)" "next_addr st' = next_addr st"
    "ti < length (tables st) \<Longrightarrow> lists_without (set as) (tables st ! ti) (tables st' ! ti)"
    "b \<notin> set as \<Longrightarrow> flows st b = Some fe \<Longrightarrow>
       insts st' (fs_instructions (fe_stats fe)) = insts st (fs_instructions (fe_stats fe))"
    "group_frame (groups st) (groups st')" "meter_frame (meters st) (meters st')"
    "table_sent st' = table_sent st @ notices now r (flows st) as"
  using assms unfolding removed_def by blast+

lemma lists_unlink:
  "listed F ti t \<Longrightarrow> lists_without {a} t (unlink_flow a t)"
  by (simp add: lists_without_def unlink_flow_def listed_def filter_remove1_eq)

lemma lists_unlink_other:
  assumes "listed F ti t" and "a \<notin> members F ti"
  shows "lists_without {a} t t"
proof -
  have "filter (\<lambda>b. b \<notin> {a}) xs = xs" if "set xs \<subseteq> members F ti" for xs
    using that assms(2) by (auto simp: filter_id_conv)
  then show ?thesis using assms(1) unfolding listed_def lists_without_def by simp
qed

lemma lists_without_trans:
  "lists_without A t t' \<Longrightarrow> lists_without B t' t'' \<Longrightarrow> lists_without (A \<union> B) t t''"
  by (auto simp: lists_without_def intro: filter_cong)

lemma insts_distinct:
  assumes "tables_ok st" and "flows st a = Some fe" and "flows st b = Some fe'" and "a \<noteq> b"
  shows "fs_instructions (fe_stats fe') \<noteq> fs_instructions (fe_stats fe)"
  using assms unfolding tables_ok_def insts_ok_def by metis

lemma removed_one:
  assumes ok: "tables_ok st" and a: "flows st a = Some fe"
  shows "\<exists>st'. flow_entry_remove now a r st = Some st' \<and> removed now r [a] st st'"
proof -
  obtain st' where r: "flow_entry_remove now a r st = Some st'" and ok': "tables_ok st'"
    and fl: "flows st' = (flows st)(a := None)" and ins: "insts st' = (insts st)(fs_instructions (fe_stats fe) := None)"
    and t: "tables st' = (tables st)[fe_table fe := unlink_flow a (tables st ! fe_table fe)]"
    and n: "next_addr st' = next_addr st"
    and g: "groups_mapped (group_entry_del_flow_ref a) (fe_group_refs fe) (groups st) (groups st')"
    and m: "meters_mapped (meter_entry_del_flow_ref a) (fe_meter_refs fe) (meters st) (meters st')"
    and s: "table_sent st' = table_sent st @ (if fe_send_removed fe then [FlowRemoved r (fe_stats (flow_entry_update now fe))] else [])"
    using flow_entry_remove_ok [OF ok a] by blast
  have "lists_without {a} (tables st ! ti) (tables st' ! ti)" if "ti < length (tables st)" for ti
  proof (cases "ti = fe_table fe")
    case True
    then show ?thesis using that lists_unlink [OF tables_okD(3) [OF ok that], of a] by (simp add: t)
  next
    case False
    then show ?thesis using lists_unlink_other [OF tables_okD(3) [OF ok that], of a] a
      by (auto simp: t members_def)
  qed
  moreover have "insts st' (fs_instructions (fe_stats fe')) = insts st (fs_instructions (fe_stats fe'))"
    if "b \<noteq> a" "flows st b = Some fe'" for b fe'
    using insts_distinct [OF ok a that(2)] that(1) by (auto simp: ins)
  moreover have "flows st' = (\<lambda>b. if b \<in> set [a] then None else flows st b)" by (auto simp: fl)
  moreover have "group_frame (groups st) (groups st')" "meter_frame (meters st) (meters st')"
    using groups_mapped_frame [OF g] meters_mapped_frame [OF m] by simp_all
  moreover have "notices now r (flows st) [a] = (if fe_send_removed fe then [FlowRemoved r (fe_stats (flow_entry_update now fe))] else [])"
    by (simp add: notices_def a)
  ultimately have "removed now r [a] st st'" unfolding removed_def using ok' n t s by simp
  with r show ?thesis by blast
qed

lemma removed_trans:
  assumes 1: "removed now r as st st1" and 2: "removed now r bs st1 st2" and d: "set as \<inter> set bs = {}"
  shows "removed now r (as @ bs) st st2"
proof -
  have fl: "flows st2 = (\<lambda>a. if a \<in> set (as @ bs) then None else flows st a)"
    using removeds(2) [OF 1] removeds(2) [OF 2] by auto
  have len: "length (tables st1) = length (tables st)" by (rule removeds(3) [OF 1])
  have "lists_without (set (as @ bs)) (tables st ! ti) (tables st2 ! ti)" if "ti < length (tables st)" for ti
    using lists_without_trans [OF removeds(5) [OF 1 that] removeds(5) [OF 2, of ti]] that len by simp
  moreover have "insts st2 (fs_instructions (fe_stats fe)) = insts st (fs_instructions (fe_stats fe))"
    if "b \<notin> set (as @ bs)" "flows st b = Some fe" for b fe
  proof -
    have "flows st1 b = Some fe" using that removeds(2) [OF 1] by simp
    then show ?thesis using that removeds(6) [OF 1, of b fe] removeds(6) [OF 2, of b fe] by simp
  qed
  moreover have "notices now r (flows st1) bs = notices now r (flows st) bs"
    unfolding notices_def using d removeds(2) [OF 1] by (intro arg_cong [where f = concat] map_cong) auto
  then have "table_sent st2 = table_sent st @ notices now r (flows st) (as @ bs)"
    using removeds(9) [OF 1] removeds(9) [OF 2] by (simp add: notices_def)
  ultimately show ?thesis unfolding removed_def
    using fl len removeds(1,3,4,7,8) [OF 2] removeds(4,7,8) [OF 1] frame_trans by (simp; blast)
qed


text \<open>A walk that removes some of the elements it visits, the selection not depending on the removals.\<close>

lemma removed_Cons_filter:
  assumes "removed now r [a] st st1" and "removed now r (filter P as) st1 st2" and "a \<notin> set as"
  shows "removed now r (a # filter P as) st st2"
  using removed_trans [OF assms(1,2)] assms(3) by auto

lemma filter_others: "a \<notin> set as \<Longrightarrow> (\<And>b. b \<noteq> a \<Longrightarrow> P b = Q b) \<Longrightarrow> filter P as = filter Q as"
  by (rule filter_cong) metis+

lemma out_filter_live:
  assumes "flow_ok st fe"
  shows "\<exists>b. out_filter st fe port grp = Some b"
  using assms by (auto simp: flow_ok_def out_filter_def flow_entry_has_out_port_def flow_entry_has_out_group_def)

lemma out_filter_cong:
  "insts st' (fs_instructions (fe_stats fe)) = insts st (fs_instructions (fe_stats fe)) \<Longrightarrow>
     out_filter st' fe port grp = out_filter st fe port grp"
  by (cases "insts st (fs_instructions (fe_stats fe))")
    (simp_all add: out_filter_def flow_entry_has_out_port_def flow_entry_has_out_group_def)

definition selected :: "ofl_msg_flow_mod \<Rightarrow> bool \<Rightarrow> dp_tables \<Rightarrow> addr \<Rightarrow> bool" where
  "selected m strict st a \<longleftrightarrow> (\<exists>fe. flows st a = Some fe \<and>
     out_filter st fe (fm_out_port m) (fm_out_group m) = Some True \<and> flow_entry_matches fe m strict True)"

lemma selected_removed:
  assumes "removed now r as st st'" and "b \<notin> set as"
  shows "selected m strict st' b = selected m strict st b"
  using removeds(2) [OF assms(1)] removeds(6) [OF assms] assms(2) out_filter_cong [of st' _ st]
  unfolding selected_def by (metis (lifting))

lemma delete_walk_ok:
  assumes "tables_ok st" and "distinct as" and "\<forall>a \<in> set as. flows st a \<noteq> None"
  shows "\<exists>st'. delete_walk now m strict as st = Some st' \<and>
    removed now OFPRR_DELETE (filter (selected m strict st) as) st st'"
  using assms
proof (induction as arbitrary: st)
  case Nil
  then show ?case by (simp add: removed_Nil)
next
  case (Cons a as)
  obtain fe where fe: "flows st a = Some fe" using Cons.prems(3) by auto
  obtain ok where o: "out_filter st fe (fm_out_port m) (fm_out_group m) = Some ok"
    using out_filter_live [OF tables_okD(4) [OF Cons.prems(1) fe]] by blast
  have sel: "selected m strict st a \<longleftrightarrow> ok \<and> flow_entry_matches fe m strict True"
    by (simp add: selected_def fe o)
  show ?case
  proof (cases "selected m strict st a")
    case True
    obtain st1 where s1: "flow_entry_remove now a OFPRR_DELETE st = Some st1" "removed now OFPRR_DELETE [a] st st1"
      using removed_one [OF Cons.prems(1) fe] by blast
    have live: "\<forall>b \<in> set as. flows st1 b \<noteq> None"
      using Cons.prems(2,3) removeds(2) [OF s1(2)] by auto
    obtain st2 where s2: "delete_walk now m strict as st1 = Some st2"
      "removed now OFPRR_DELETE (filter (selected m strict st1) as) st1 st2"
      using Cons.IH [OF removeds(1) [OF s1(2)] _ live] Cons.prems(2) by auto
    have "filter (selected m strict st1) as = filter (selected m strict st) as"
      by (rule filter_others [of a]) (use Cons.prems(2) selected_removed [OF s1(2)] in auto)
    then have "removed now OFPRR_DELETE (a # filter (selected m strict st) as) st st2"
      using removed_Cons_filter [OF s1(2), of "selected m strict st1" as st2] s2(2) Cons.prems(2) by simp
    then show ?thesis using True s1(1) s2(1) sel fe o by auto
  next
    case False
    then show ?thesis using Cons.IH [OF Cons.prems(1)] Cons.prems(2,3) sel fe o by auto
  qed
qed

definition expired :: "(nat \<Rightarrow> flow_entry \<Rightarrow> bool) \<Rightarrow> nat \<Rightarrow> dp_tables \<Rightarrow> addr \<Rightarrow> bool" where
  "expired P now st a \<longleftrightarrow> (\<exists>fe. flows st a = Some fe \<and> P now fe)"

lemma expired_removed:
  "removed now r as st st' \<Longrightarrow> b \<notin> set as \<Longrightarrow> expired P now st' b = expired P now st b"
  by (simp add: expired_def removeds(2))

lemma idle_walk_ok:
  assumes "tables_ok st" and "distinct as" and "\<forall>a \<in> set as. flows st a \<noteq> None"
  shows "\<exists>st'. idle_walk now as st = Some st' \<and>
    removed now OFPRR_IDLE_TIMEOUT (filter (expired idle_expired now st) as) st st'"
  using assms
proof (induction as arbitrary: st)
  case Nil
  then show ?case by (simp add: removed_Nil)
next
  case (Cons a as)
  obtain fe where fe: "flows st a = Some fe" using Cons.prems(3) by auto
  show ?case
  proof (cases "idle_expired now fe")
    case True
    obtain st1 where s1: "flow_entry_remove now a OFPRR_IDLE_TIMEOUT st = Some st1" "removed now OFPRR_IDLE_TIMEOUT [a] st st1"
      using removed_one [OF Cons.prems(1) fe] by blast
    have live: "\<forall>b \<in> set as. flows st1 b \<noteq> None"
      using Cons.prems(2,3) removeds(2) [OF s1(2)] by auto
    obtain st2 where s2: "idle_walk now as st1 = Some st2"
      "removed now OFPRR_IDLE_TIMEOUT (filter (expired idle_expired now st1) as) st1 st2"
      using Cons.IH [OF removeds(1) [OF s1(2)] _ live] Cons.prems(2) by auto
    have "filter (expired idle_expired now st1) as = filter (expired idle_expired now st) as"
      by (rule filter_others [of a]) (use Cons.prems(2) expired_removed [OF s1(2)] in auto)
    then have "removed now OFPRR_IDLE_TIMEOUT (a # filter (expired idle_expired now st) as) st st2"
      using removed_Cons_filter [OF s1(2), of "expired idle_expired now st1" as st2] s2(2) Cons.prems(2) by simp
    moreover have "expired idle_expired now st a" using True fe by (simp add: expired_def)
    ultimately show ?thesis using True s1(1) s2(1) fe by (simp add: flow_entry_idle_timeout_def)
  next
    case False
    moreover have "\<not> expired idle_expired now st a" using False fe by (simp add: expired_def)
    ultimately show ?thesis using Cons.IH [OF Cons.prems(1)] Cons.prems(2,3) fe
      by (simp add: flow_entry_idle_timeout_def)
  qed
qed

text \<open>The walk over the hard timeouts stops at the first entry that is not due; the order of the list
  makes this the same as testing every entry.\<close>

lemma hard_walk_ok:
  assumes "tables_ok st" and "distinct as" and "\<forall>a \<in> set as. flows st a \<noteq> None"
    and "sorted_wrt (\<lambda>a b. due_of (flows st) a \<le> due_of (flows st) b) as" and "\<forall>a \<in> set as. 0 < due_of (flows st) a"
  shows "\<exists>st'. hard_walk now as st = Some st' \<and>
    removed now OFPRR_HARD_TIMEOUT (filter (expired hard_expired now st) as) st st'"
  using assms
proof (induction as arbitrary: st)
  case Nil
  then show ?case by (simp add: removed_Nil)
next
  case (Cons a as)
  obtain fe where fe: "flows st a = Some fe" using Cons.prems(3) by auto
  have due: "expired hard_expired now st b \<longleftrightarrow> due_of (flows st) b < now" if "b \<in> set (a # as)" for b
    using that Cons.prems(3,5) by (auto simp: expired_def hard_expired_def due_of_def split: option.splits)
  show ?case
  proof (cases "hard_expired now fe")
    case True
    obtain st1 where s1: "flow_entry_remove now a OFPRR_HARD_TIMEOUT st = Some st1" "removed now OFPRR_HARD_TIMEOUT [a] st st1"
      using removed_one [OF Cons.prems(1) fe] by blast
    have same: "flows st1 b = flows st b" if "b \<in> set as" for b
      using that Cons.prems(2) removeds(2) [OF s1(2)] by auto
    have d: "due_of (flows st1) b = due_of (flows st) b" if "b \<in> set as" for b
      using same [OF that] by (simp add: due_of_def)
    have "sorted_wrt (\<lambda>a b. due_of (flows st1) a \<le> due_of (flows st1) b) as"
      by (rule sorted_wrt_mono_rel [of _ "\<lambda>a b. due_of (flows st) a \<le> due_of (flows st) b"])
        (use Cons.prems(4) d in auto)
    then obtain st2 where s2: "hard_walk now as st1 = Some st2"
      "removed now OFPRR_HARD_TIMEOUT (filter (expired hard_expired now st1) as) st1 st2"
      using Cons.IH [OF removeds(1) [OF s1(2)]] Cons.prems(2,3,5) same d by auto
    have "filter (expired hard_expired now st1) as = filter (expired hard_expired now st) as"
      by (rule filter_others [of a]) (use Cons.prems(2) expired_removed [OF s1(2)] in auto)
    then have "removed now OFPRR_HARD_TIMEOUT (a # filter (expired hard_expired now st) as) st st2"
      using removed_Cons_filter [OF s1(2), of "expired hard_expired now st1" as st2] s2(2) Cons.prems(2) by simp
    moreover have "expired hard_expired now st a" using True fe by (simp add: expired_def)
    ultimately show ?thesis using True s1(1) s2(1) fe by (simp add: flow_entry_hard_timeout_def)
  next
    case False
    then have "\<not> due_of (flows st) a < now" using due [of a] fe by (simp add: expired_def)
    then have "\<not> due_of (flows st) b < now" if "b \<in> set (a # as)" for b
      using that Cons.prems(4) by fastforce
    then have "filter (expired hard_expired now st) (a # as) = []" using due by (simp add: filter_empty_conv)
    then show ?thesis using False fe Cons.prems(1)
      by (auto simp: flow_entry_hard_timeout_def removed_Nil)
  qed
qed


section \<open>Adding entries\<close>

definition heap_ok :: "dp_tables \<Rightarrow> bool" where
  "heap_ok st \<longleftrightarrow> group_refs_ok (flows st) (groups st) \<and> meter_refs_ok (flows st) (meters st) \<and> insts_ok st"

lemma tables_ok_heap:
  "tables_ok st \<longleftrightarrow> heap_ok st \<and> (\<forall>ti < length (tables st). listed (flows st) ti (tables st ! ti))"
  by (auto simp: tables_ok_def heap_ok_def)

lemma heap_okD:
  assumes "heap_ok st"
  shows "gok (groups st)" "mok (meters st)" "flows st a = Some fe \<Longrightarrow> flow_ok st fe"
    "flows st a = Some fe \<Longrightarrow> a < next_addr st" "flows st (next_addr st) = None"
proof -
  show "flows st (next_addr st) = None"
    using assms unfolding heap_ok_def insts_ok_def by (cases "flows st (next_addr st)") auto
qed (use assms in \<open>auto simp: heap_ok_def group_refs_ok_def meter_refs_ok_def insts_ok_def\<close>)

lemma upd_table_sel [simp]:
  "flows (upd_table ti f st) = flows st" "insts (upd_table ti f st) = insts st"
  "next_addr (upd_table ti f st) = next_addr st" "groups (upd_table ti f st) = groups st"
  "meters (upd_table ti f st) = meters st" "table_sent (upd_table ti f st) = table_sent st"
  "tables (upd_table ti f st) = (tables st)[ti := f (tables st ! ti)]"
  by (simp_all add: upd_table_def)

lemma heap_ok_upd_table [simp]: "heap_ok (upd_table ti f st) = heap_ok st"
  by (simp add: heap_ok_def insts_ok_def flow_ok_def)

text \<open>The array of instructions of a message: allocated, and not yet owned by an entry.\<close>

definition fresh_insts :: "dp_tables \<Rightarrow> addr \<Rightarrow> ofl_instruction list \<Rightarrow> bool" where
  "fresh_insts st ia is \<longleftrightarrow> insts st ia = Some is \<and> ia < next_addr st \<and>
     (\<forall>a fe. flows st a = Some fe \<longrightarrow> fs_instructions (fe_stats fe) \<noteq> ia)"

lemma insts_ok_add:
  assumes ok: "insts_ok st" and fr: "fresh_insts st ia is" and "flows st' = (flows st)(next_addr st \<mapsto> fe)"
    and "insts st' = insts st" and "next_addr st' = Suc (next_addr st)" and "length (tables st') = length (tables st)"
    and "fs_instructions (fe_stats fe) = ia" and "distinct (fe_group_refs fe)" and "distinct (fe_meter_refs fe)"
    and "fe_table fe < length (tables st)"
  shows "insts_ok st'"
proof -
  have live: "b < next_addr st \<and> flow_ok st fe' \<and> fs_instructions (fe_stats fe') < next_addr st \<and>
      fe_table fe' < length (tables st) \<and> fs_instructions (fe_stats fe') \<noteq> ia"
    if "flows st b = Some fe'" for b fe'
    using ok fr that unfolding insts_ok_def fresh_insts_def by blast
  have "b < next_addr st' \<and> flow_ok st' fe' \<and> fs_instructions (fe_stats fe') < next_addr st' \<and> fe_table fe' < length (tables st')"
    if "flows st' b = Some fe'" for b fe'
  proof (cases "b = next_addr st")
    case True
    then show ?thesis using that assms by (simp add: flow_ok_def fresh_insts_def)
  next
    case False
    then have "flows st b = Some fe'" using that assms(3) by simp
    then show ?thesis using live [of b fe'] assms(4-6) by (simp add: flow_ok_def less_Suc_eq)
  qed
  moreover have "b = c" if "flows st' b = Some f1" "flows st' c = Some f2"
    "fs_instructions (fe_stats f1) = fs_instructions (fe_stats f2)" for b c f1 f2
  proof (cases "b = next_addr st \<or> c = next_addr st")
    case True
    then show ?thesis using that assms(3,7) live by (metis fun_upd_apply option.inject)
  next
    case False
    then have "flows st b = Some f1" "flows st c = Some f2" using that assms(3) by simp_all
    then show ?thesis using ok that(3) unfolding insts_ok_def by metis
  qed
  ultimately show ?thesis unfolding insts_ok_def by blast
qed

lemma heap_create:
  assumes ok: "heap_ok st" and fr: "fresh_insts st ia is" and ti: "ti < length (tables st)"
  shows "\<exists>st1. flow_entry_create now ti m ia st = Some (next_addr st, st1) \<and> heap_ok st1 \<and>
    flows st1 = (flows st)(next_addr st \<mapsto> created_flow now ti m ia is) \<and> insts st1 = insts st \<and>
    tables st1 = tables st \<and> next_addr st1 = Suc (next_addr st) \<and> table_sent st1 = table_sent st \<and>
    group_frame (groups st) (groups st1) \<and> meter_frame (meters st) (meters st1)"
proof -
  let ?a = "next_addr st" and ?fe = "created_flow now ti m ia is"
  have i: "insts st ia = Some is" using fr by (simp add: fresh_insts_def)
  obtain G M where c: "flow_entry_create now ti m ia st = Some (?a, st\<lparr>next_addr := Suc ?a,
      groups := G, meters := M, flows := (flows st)(?a \<mapsto> ?fe)\<rparr>)"
    and G: "groups_mapped (group_entry_add_flow_ref ?a) (inst_groups is) (groups st) G"
    and M: "meters_mapped (meter_entry_add_flow_ref ?a) (inst_meters is) (meters st) M"
    using flow_entry_create_ok [of st ia "is" now ti m] heap_okD(1,2) [OF ok] i by blast
  let ?st = "st\<lparr>next_addr := Suc ?a, groups := G, meters := M, flows := (flows st)(?a \<mapsto> ?fe)\<rparr>"
  have "group_refs_ok (flows ?st) G" "meter_refs_ok (flows ?st) M"
    using group_refs_add [of "flows st" "groups st" ?a "inst_groups is" G ?fe]
      meter_refs_add [of "flows st" "meters st" ?a "inst_meters is" M ?fe] ok heap_okD(5) [OF ok] G M
    by (simp_all add: heap_ok_def created_flow_def)
  moreover have "insts_ok ?st"
    by (rule insts_ok_add [of st ia "is" _ ?fe])
      (use ok fr ti in \<open>simp_all add: heap_ok_def created_flow_def new_flow_def\<close>)
  ultimately have "heap_ok ?st" by (simp add: heap_ok_def)
  then show ?thesis using c groups_mapped_frame [OF G] meters_mapped_frame [OF M]
    by (intro exI [of _ ?st]) simp
qed

lemma heap_destroy:
  assumes ok: "heap_ok st" and a: "flows st a = Some fe"
  shows "\<exists>st1. flow_entry_destroy a st = Some st1 \<and> heap_ok st1 \<and> flows st1 = (flows st)(a := None) \<and>
    insts st1 = (insts st)(fs_instructions (fe_stats fe) := None) \<and>
    tables st1 = tables st \<and> next_addr st1 = next_addr st \<and> table_sent st1 = table_sent st \<and>
    group_frame (groups st) (groups st1) \<and> meter_frame (meters st) (meters st1)"
proof -
  obtain G M where d: "flow_entry_destroy a st = Some (st\<lparr>groups := G, meters := M,
      insts := (insts st)(fs_instructions (fe_stats fe) := None), flows := (flows st)(a := None)\<rparr>)"
    and G: "groups_mapped (group_entry_del_flow_ref a) (fe_group_refs fe) (groups st) G"
    and M: "meters_mapped (meter_entry_del_flow_ref a) (fe_meter_refs fe) (meters st) M"
    using flow_entry_destroy_ok [of st a fe] heap_okD(1,2,3) [OF ok] a by blast
  let ?st = "st\<lparr>groups := G, meters := M,
      insts := (insts st)(fs_instructions (fe_stats fe) := None), flows := (flows st)(a := None)\<rparr>"
  have "group_refs_ok (flows ?st) G" "meter_refs_ok (flows ?st) M"
    using group_refs_del [of "flows st" "groups st" a fe] meter_refs_del [of "flows st" "meters st" a fe] ok a G M
    by (simp_all add: heap_ok_def)
  moreover have "insts_ok ?st"
    by (rule insts_ok_del [of st a fe]) (use ok a in \<open>simp_all add: heap_ok_def\<close>)
  ultimately have "heap_ok ?st" by (simp add: heap_ok_def)
  then show ?thesis using d groups_mapped_frame [OF G] meters_mapped_frame [OF M]
    by (intro exI [of _ ?st]) simp
qed

text \<open>The place of a new entry: in front of the first entry of lower priority.\<close>

lemma overlaps_live:
  assumes "flow_ok st fe"
  shows "\<exists>b. flow_entry_overlaps st fe m = Some b"
proof -
  obtain b where "out_filter st fe (fm_out_port m) (fm_out_group m) = Some b" using out_filter_live [OF assms] by blast
  then show ?thesis by (simp add: flow_entry_overlaps_def) blast
qed

lemma place_before: "add_walk st m ov as = Some (Before e) \<Longrightarrow> e \<in> set as"
  by (induction as) (auto split: if_splits option.splits simp: bind_eq_Some_conv)

lemma add_walk_ok:
  assumes "\<forall>a \<in> set as. \<exists>fe. flows st a = Some fe \<and> flow_ok st fe" and "distinct as"
  shows "\<exists>p. add_walk st m ov as = Some p \<and>
    (p = Overlapping \<and> ov \<or>
     (\<exists>e fe. p = Equal e \<and> e \<in> set as \<and> flows st e = Some fe \<and> flow_entry_matches fe m True False) \<or>
     (p = AtEnd \<or> (\<exists>e. p = Before e)) \<and>
     (\<forall>a. insert_at p a as = insert_before (\<lambda>x. prio_of (flows st) x < fm_priority m) a as))"
  using assms
proof (induction as)
  case Nil
  then show ?case by simp
next
  case (Cons e as)
  obtain fe where fe: "flows st e = Some fe" "flow_ok st fe" using Cons.prems(1) by auto
  obtain o' where o: "(if ov then flow_entry_overlaps st fe m else Some False) = Some o'" "o' \<Longrightarrow> ov"
    using overlaps_live [OF fe(2), of m] by (cases ov) auto
  have p: "prio_of (flows st) e = fs_priority (fe_stats fe)" by (simp add: prio_of_def fe)
  obtain q where q: "add_walk st m ov as = Some q"
    "q = Overlapping \<and> ov \<or>
     (\<exists>e fe. q = Equal e \<and> e \<in> set as \<and> flows st e = Some fe \<and> flow_entry_matches fe m True False) \<or>
     (q = AtEnd \<or> (\<exists>e. q = Before e)) \<and>
     (\<forall>a. insert_at q a as = insert_before (\<lambda>x. prio_of (flows st) x < fm_priority m) a as)"
    using Cons.IH Cons.prems by auto
  consider "o'" | "\<not> o'" "flow_entry_matches fe m True False"
    | "\<not> o'" "\<not> flow_entry_matches fe m True False" "fs_priority (fe_stats fe) < fm_priority m"
    | "\<not> o'" "\<not> flow_entry_matches fe m True False" "\<not> fs_priority (fe_stats fe) < fm_priority m" by blast
  then show ?case
  proof cases
    case 4
    have "(q = AtEnd \<or> (\<exists>e. q = Before e)) \<Longrightarrow>
      \<forall>a. insert_at q a as = insert_before (\<lambda>x. prio_of (flows st) x < fm_priority m) a as \<Longrightarrow>
      insert_at q a (e # as) = insert_before (\<lambda>x. prio_of (flows st) x < fm_priority m) a (e # as)" for a
      using 4(3) Cons.prems(2) p place_before [of st m ov as] q(1) by (cases q) auto
    then show ?thesis using 4 q fe o by auto
  qed (use fe o p in auto)
qed


lemma insert_hard_ok:
  "\<forall>e \<in> set es. flows st e \<noteq> None \<Longrightarrow>
     insert_hard st d a es = Some (insert_before (\<lambda>e. d < due_of (flows st) e) a es)"
  by (induction es) (auto simp: due_of_def)

text \<open>The table after the new entry was added to the timeout lists.\<close>

definition timed :: "(addr \<Rightarrow> flow_entry option) \<Rightarrow> addr \<Rightarrow> flow_entry \<Rightarrow> flow_table \<Rightarrow> flow_table" where
  "timed F a fe t = t\<lparr>
     ft_idle_entries := (if 0 < fs_idle_timeout (fe_stats fe) then ft_idle_entries t @ [a] else ft_idle_entries t),
     ft_hard_entries := (if 0 < fe_remove_at fe then insert_before (\<lambda>e. fe_remove_at fe < due_of F e) a (ft_hard_entries t)
                         else ft_hard_entries t)\<rparr>"

lemma add_to_timeout_lists_ok:
  assumes "flows st a = Some fe" and "ti < length (tables st)"
    and "\<forall>e \<in> set (ft_hard_entries (tables st ! ti)). flows st e \<noteq> None"
  shows "add_to_timeout_lists ti a st = Some (upd_table ti (timed (flows st) a fe) st)"
proof -
  let ?st1 = "if 0 < fs_idle_timeout (fe_stats fe)
    then upd_table ti (\<lambda>t. t\<lparr>ft_idle_entries := ft_idle_entries t @ [a]\<rparr>) st else st"
  have 1: "flows ?st1 = flows st" "ft_hard_entries (tables ?st1 ! ti) = ft_hard_entries (tables st ! ti)"
    using assms(2) by (simp_all add: upd_table_def)
  have "insert_hard ?st1 (fe_remove_at fe) a (ft_hard_entries (tables ?st1 ! ti)) =
      Some (insert_before (\<lambda>e. fe_remove_at fe < due_of (flows st) e) a (ft_hard_entries (tables st ! ti)))"
    using insert_hard_ok [of "ft_hard_entries (tables ?st1 ! ti)" ?st1] assms(3) unfolding 1 by simp
  then show ?thesis using assms(1,2)
    by (simp add: add_to_timeout_lists_def Let_def timed_def upd_table_def)
qed

lemma views_add:
  "prio_of (F(a \<mapsto> fe)) a = fs_priority (fe_stats fe)" "due_of (F(a \<mapsto> fe)) a = fe_remove_at fe"
  "idle_of (F(a \<mapsto> fe)) a = fs_idle_timeout (fe_stats fe)"
  "members (F(a \<mapsto> fe)) (fe_table fe) = insert a (members F (fe_table fe))"
  by (auto simp: prio_of_def due_of_def idle_of_def members_def)

text \<open>Linking an entry at a given place of the priority order and into the timeout lists.\<close>

lemma listed_link:
  assumes l: "listed F ti t" and a: "F a = None" and ti: "fe_table fe = ti"
    and xs: "distinct xs" "set xs = insert a (members F ti)"
      "sorted_wrt (\<lambda>b c. prio_of (F(a \<mapsto> fe)) c \<le> prio_of (F(a \<mapsto> fe)) b) xs"
      "length xs \<le> unat FLOW_TABLE_MAX_ENTRIES"
    and t': "ft_match_entries t' = xs" "ts_active_count (ft_stats t') = of_nat (length xs)"
      "ft_idle_entries t' = ft_idle_entries (timed (F(a \<mapsto> fe)) a fe t)"
      "ft_hard_entries t' = ft_hard_entries (timed (F(a \<mapsto> fe)) a fe t)"
  shows "listed (F(a \<mapsto> fe)) ti t'"
proof -
  let ?F = "F(a \<mapsto> fe)"
  have am: "a \<notin> members F ti" using a by (simp add: members_def)
  have v: "due_of ?F b = due_of F b" "idle_of ?F b = idle_of F b" if "b \<in> members F ti" for b
    using that am by (metis views_del(2), metis views_del(3))
  have m: "members ?F ti = insert a (members F ti)" using views_add(4) [of F a fe] ti by simp
  note l' = l [unfolded listed_def]
  have sets: "{b \<in> members ?F ti. 0 < due_of ?F b} =
      (if 0 < fe_remove_at fe then insert a else id) {b \<in> members F ti. 0 < due_of F b}"
    "{b \<in> members ?F ti. 0 < idle_of ?F b} =
      (if 0 < fs_idle_timeout (fe_stats fe) then insert a else id) {b \<in> members F ti. 0 < idle_of F b}"
    unfolding m using v am by (auto simp: views_add)
  have hs: "sorted_wrt (\<lambda>b c. due_of ?F b \<le> due_of ?F c) (ft_hard_entries t)"
    by (rule sorted_wrt_mono_rel [of _ "\<lambda>b c. due_of F b \<le> due_of F c"]) (use l' v in auto)
  have "sorted_wrt (\<lambda>b c. due_of ?F b \<le> due_of ?F c) (insert_before (\<lambda>e. fe_remove_at fe < due_of ?F e) a (ft_hard_entries t))"
    by (rule sorted_wrt_insert_before [OF hs]) (auto simp: transp_def views_add)
  then have "sorted_wrt (\<lambda>b c. due_of ?F b \<le> due_of ?F c) (ft_hard_entries t')"
    using hs by (simp add: t' timed_def)
  moreover have "distinct (ft_hard_entries t')" "set (ft_hard_entries t') = {b \<in> members ?F ti. 0 < due_of ?F b}"
    using l' am unfolding sets by (auto simp: t' timed_def)
  moreover have "distinct (ft_idle_entries t')" "set (ft_idle_entries t') = {b \<in> members ?F ti. 0 < idle_of ?F b}"
    using l' am unfolding sets by (auto simp: t' timed_def)
  ultimately show ?thesis unfolding listed_def using xs t'(1,2) m by simp
qed

lemma listed_new:
  assumes l: "listed F ti t" and a: "F a = None" and ti: "fe_table fe = ti"
    and n: "length (ft_match_entries t) < unat FLOW_TABLE_MAX_ENTRIES"
    and t': "ft_match_entries t' = insert_before (\<lambda>x. prio_of F x < fs_priority (fe_stats fe)) a (ft_match_entries t)"
      "ts_active_count (ft_stats t') = ts_active_count (ft_stats t) + 1"
      "ft_idle_entries t' = ft_idle_entries (timed (F(a \<mapsto> fe)) a fe t)"
      "ft_hard_entries t' = ft_hard_entries (timed (F(a \<mapsto> fe)) a fe t)"
  shows "listed (F(a \<mapsto> fe)) ti t'"
proof (rule listed_link [OF l a ti _ _ _ _ refl _ t'(3,4)])
  let ?F = "F(a \<mapsto> fe)"
  note l' = l [unfolded listed_def]
  have am: "a \<notin> members F ti" using a by (simp add: members_def)
  have v: "prio_of ?F b = prio_of F b" if "b \<in> members F ti" for b
    using that am by (metis views_del(1))
  show "distinct (ft_match_entries t')" "set (ft_match_entries t') = insert a (members F ti)"
    using l' am by (simp_all add: t')
  show "length (ft_match_entries t') \<le> unat FLOW_TABLE_MAX_ENTRIES" using n by (simp add: t')
  show "ts_active_count (ft_stats t') = of_nat (length (ft_match_entries t'))" using l' by (simp add: t')
  have "sorted_wrt (\<lambda>b c. prio_of ?F c \<le> prio_of ?F b) (ft_match_entries t)"
    by (rule sorted_wrt_mono_rel [of _ "\<lambda>b c. prio_of F c \<le> prio_of F b"]) (use l' v in auto)
  then show "sorted_wrt (\<lambda>b c. prio_of ?F c \<le> prio_of ?F b) (ft_match_entries t')"
    unfolding t' by (rule sorted_wrt_insert_before) (use l' v in \<open>auto simp: transp_def views_add\<close>)
qed

lemma listed_replace:
  assumes l: "listed F ti t" and a: "F a = None" and ti: "fe_table fe = ti"
    and old: "old \<in> members F ti" and p: "prio_of F old = fs_priority (fe_stats fe)"
    and t': "ft_match_entries t' = replace1 old a (ft_match_entries t)"
      "ts_active_count (ft_stats t') = ts_active_count (ft_stats t)"
      "ft_idle_entries t' = ft_idle_entries (timed (F(old := None, a \<mapsto> fe)) a fe (unlink_flow old t))"
      "ft_hard_entries t' = ft_hard_entries (timed (F(old := None, a \<mapsto> fe)) a fe (unlink_flow old t))"
  shows "listed (F(old := None, a \<mapsto> fe)) ti t'"
proof (rule listed_link [OF listed_remove [OF l old] _ ti _ _ _ _ refl _ t'(3,4)])
  let ?F = "F(old := None, a \<mapsto> fe)" and ?xs = "ft_match_entries t"
  note l' = l [unfolded listed_def]
  have am: "a \<notin> members F ti" using a by (simp add: members_def)
  show "(F(old := None)) a = None" using a by simp
  show "distinct (ft_match_entries t')" using l' am by (simp add: t' distinct_replace1)
  show s: "set (ft_match_entries t') = insert a (members (F(old := None)) ti)"
    using l' am old by (simp add: t' set_replace1 views_del(4))
  show "length (ft_match_entries t') \<le> unat FLOW_TABLE_MAX_ENTRIES"
    "ts_active_count (ft_stats t') = of_nat (length (ft_match_entries t'))" using l' by (simp_all add: t')
  let ?g = "\<lambda>x. if x = a then prio_of F old else prio_of F x"
  have "map ?g (replace1 old a ?xs) = map ?g ?xs" by (rule replace1_map_eq) (use am old in auto)
  also have "\<dots> = map (prio_of F) ?xs" using am l' by auto
  finally have "sorted_wrt (\<lambda>x y. y \<le> x) (map ?g (ft_match_entries t'))"
    using l' by (simp add: t' sorted_wrt_map)
  then have "sorted_wrt (\<lambda>b c. ?g c \<le> ?g b) (ft_match_entries t')" by (simp only: sorted_wrt_map)
  then show "sorted_wrt (\<lambda>b c. prio_of ?F c \<le> prio_of ?F b) (ft_match_entries t')"
  proof (rule sorted_wrt_mono_rel [rotated])
    have "prio_of ?F x = ?g x" if "x \<in> set (ft_match_entries t')" for x
      using that p unfolding s by (auto simp: views_add views_del prio_of_def members_def)
    then show "prio_of ?F y \<le> prio_of ?F x"
      if "x \<in> set (ft_match_entries t')" "y \<in> set (ft_match_entries t')" "?g y \<le> ?g x" for x y
      using that by simp
  qed
qed


text \<open>What adding does: nothing but the new entry appears, and at most the entry it replaces goes.\<close>

definition added :: "nat \<Rightarrow> nat \<Rightarrow> ofl_msg_flow_mod \<Rightarrow> addr \<Rightarrow> ofl_instruction list \<Rightarrow> dp_tables \<Rightarrow> dp_tables \<Rightarrow> bool" where
  "added now ti m ia is st st' \<longleftrightarrow> tables_ok st' \<and> next_addr st' = Suc (next_addr st) \<and>
     length (tables st') = length (tables st) \<and> (\<forall>tj. tj \<noteq> ti \<longrightarrow> tables st' ! tj = tables st ! tj) \<and>
     table_sent st' = table_sent st \<and> group_frame (groups st) (groups st') \<and> meter_frame (meters st) (meters st') \<and>
     (flows st' = (flows st)(next_addr st \<mapsto> created_flow now ti m ia is) \<and>
      ft_match_entries (tables st' ! ti) =
        insert_before (\<lambda>x. prio_of (flows st) x < fm_priority m) (next_addr st) (ft_match_entries (tables st ! ti)) \<or>
      (\<exists>old fe. old \<in> members (flows st) ti \<and> flows st old = Some fe \<and> flow_entry_matches fe m True False \<and>
         flows st' = (flows st)(old := None, next_addr st \<mapsto> created_flow now ti m ia is) \<and>
         ft_match_entries (tables st' ! ti) = replace1 old (next_addr st) (ft_match_entries (tables st ! ti))))"

lemma listed_live:
  "listed F ti t \<Longrightarrow> e \<in> set (ft_match_entries t) \<union> set (ft_hard_entries t) \<union> set (ft_idle_entries t) \<Longrightarrow> e \<in> members F ti"
  unfolding listed_def by auto

lemma listed_frame:
  assumes "tables_ok st" and "tj < length (tables st)" and "tj \<noteq> ti" and "fe_table fe = ti" and "old \<in> insert a (members (flows st) ti)"
    and "flows st a = None"
  shows "listed ((flows st)(old := None, a \<mapsto> fe)) tj (tables st ! tj)"
proof (rule listed_other [OF listed_other [OF tables_okD(3) [OF assms(1,2)]]])
  show "\<And>f. flows st old = Some f \<Longrightarrow> fe_table f \<noteq> tj" using assms(3,5,6) by (auto simp: members_def)
  show "\<And>f. ((flows st)(old := None)) a = Some f \<Longrightarrow> fe_table f \<noteq> tj" using assms(6) by (auto split: if_splits)
qed (use assms(3,4) in auto)

lemma add_new_ok:
  assumes ok: "tables_ok st" and ti: "ti < length (tables st)" and fr: "fresh_insts st ia is"
    and n: "length (ft_match_entries (tables st ! ti)) < unat FLOW_TABLE_MAX_ENTRIES"
    and p: "\<forall>a. insert_at p a (ft_match_entries (tables st ! ti)) =
      insert_before (\<lambda>x. prio_of (flows st) x < fm_priority m) a (ft_match_entries (tables st ! ti))"
    and st1: "st1 = upd_table ti (\<lambda>t. t\<lparr>ft_stats := (ft_stats t)\<lparr>ts_active_count := ts_active_count (ft_stats t) + 1\<rparr>\<rparr>) st"
  shows "\<exists>st2 st3. flow_entry_create now ti m ia st1 = Some (next_addr st, st2) \<and>
    add_to_timeout_lists ti (next_addr st)
      (upd_table ti (\<lambda>t. t\<lparr>ft_match_entries := insert_at p (next_addr st) (ft_match_entries t)\<rparr>) st2) = Some st3 \<and>
    added now ti m ia is st st3"
proof -
  let ?a = "next_addr st" and ?fe = "created_flow now ti m ia is" and ?t = "tables st ! ti"
  have fe: "fe_table ?fe = ti" "fs_priority (fe_stats ?fe) = fm_priority m" by (simp_all add: created_flow_def new_flow_def)
  have hp: "heap_ok st1" "fresh_insts st1 ia is" "ti < length (tables st1)" "next_addr st1 = ?a"
    using ok fr ti unfolding st1 by (simp_all add: tables_ok_heap fresh_insts_def)
  have na: "flows st ?a = None" using heap_okD(5) [of st] ok by (simp add: tables_ok_heap)
  obtain st2 where c: "flow_entry_create now ti m ia st1 = Some (?a, st2)" and h2: "heap_ok st2"
    and fl: "flows st2 = (flows st)(?a \<mapsto> ?fe)" and tb: "tables st2 = tables st1" and nx: "next_addr st2 = Suc ?a"
    and sn: "table_sent st2 = table_sent st" and gf: "group_frame (groups st) (groups st2)" and mf: "meter_frame (meters st) (meters st2)"
    using heap_create [OF hp(1-3), of now m] unfolding hp(4) by (auto simp: st1)
  let ?st3 = "upd_table ti (\<lambda>t. t\<lparr>ft_match_entries := insert_at p ?a (ft_match_entries t)\<rparr>) st2"
  let ?t3 = "?t\<lparr>ft_stats := (ft_stats ?t)\<lparr>ts_active_count := ts_active_count (ft_stats ?t) + 1\<rparr>,
      ft_match_entries := insert_at p ?a (ft_match_entries ?t)\<rparr>"
  have t3: "tables ?st3 = (tables st)[ti := ?t3]" using ti by (simp add: tb st1)
  have f3: "flows ?st3 = (flows st)(?a \<mapsto> ?fe)" by (simp add: fl)
  have "\<forall>e \<in> set (ft_hard_entries (tables ?st3 ! ti)). flows ?st3 e \<noteq> None"
    unfolding t3 f3 using ti listed_live [OF tables_okD(3) [OF ok ti]] by (auto simp: members_def)
  then have "add_to_timeout_lists ti ?a ?st3 = Some (upd_table ti (timed (flows ?st3) ?a ?fe) ?st3)"
    by (rule add_to_timeout_lists_ok [rotated 2]) (use ti in \<open>simp_all add: fl tb st1\<close>)
  then have add: "add_to_timeout_lists ti ?a ?st3 = Some (upd_table ti (timed ((flows st)(?a \<mapsto> ?fe)) ?a ?fe) ?st3)"
    unfolding f3 .
  let ?st4 = "upd_table ti (timed ((flows st)(?a \<mapsto> ?fe)) ?a ?fe) ?st3"
  have t4: "tables ?st4 = (tables st)[ti := timed ((flows st)(?a \<mapsto> ?fe)) ?a ?fe ?t3]"
    using ti t3 by simp
  have "heap_ok ?st4" using h2 by simp
  moreover have "listed (flows ?st4) tj (tables ?st4 ! tj)" if tj: "tj < length (tables ?st4)" for tj
  proof (cases "tj = ti")
    case True
    have "listed ((flows st)(?a \<mapsto> ?fe)) ti (timed ((flows st)(?a \<mapsto> ?fe)) ?a ?fe ?t3)"
      by (rule listed_new [OF tables_okD(3) [OF ok ti] na fe(1) n]) (simp_all add: timed_def p fe)
    then show ?thesis using True ti by (simp add: t4 fl del: upd_table_sel(7))
  next
    case False
    have tj': "tj < length (tables st)" using tj by (simp add: tb st1)
    from listed_frame [OF ok tj' False fe(1), of ?a ?a] na have "listed ((flows st)(?a \<mapsto> ?fe)) tj (tables st ! tj)"
      by simp
    then show ?thesis using False by (simp add: t4 fl del: upd_table_sel(7))
  qed
  ultimately have "tables_ok ?st4" by (simp add: tables_ok_heap)
  then have "added now ti m ia is st ?st4"
    unfolding added_def t4 using ti gf mf sn nx p by (simp add: timed_def fl)
  with c add show ?thesis by blast
qed

lemma add_replace_ok:
  assumes ok: "tables_ok st" and ti: "ti < length (tables st)" and fr: "fresh_insts st ia is"
    and old: "old \<in> members (flows st) ti" "flows st old = Some ofe" "flow_entry_matches ofe m True False"
  shows "\<exists>st1 st2 st3. flow_entry_create now ti m ia st = Some (next_addr st, st1) \<and>
    flow_entry_destroy old (upd_table ti (replace_entry old (next_addr st)) st1) = Some st2 \<and>
    add_to_timeout_lists ti (next_addr st) st2 = Some st3 \<and> added now ti m ia is st st3"
proof -
  let ?a = "next_addr st" and ?fe = "created_flow now ti m ia is" and ?t = "tables st ! ti"
  let ?F = "(flows st)(old := None, ?a \<mapsto> ?fe)"
  have fe: "fe_table ?fe = ti" "fs_priority (fe_stats ?fe) = fm_priority m" by (simp_all add: created_flow_def new_flow_def)
  have h: "heap_ok st" using ok by (simp add: tables_ok_heap)
  have na: "flows st ?a = None" by (rule heap_okD(5) [OF h])
  have ao: "old \<noteq> ?a" using na old(2) by auto
  have pr: "prio_of (flows st) old = fs_priority (fe_stats ?fe)"
    using old(2,3) fe(2) by (simp add: prio_of_def flow_entry_matches_def)
  obtain st1 where c: "flow_entry_create now ti m ia st = Some (?a, st1)" and h1: "heap_ok st1"
    and fl: "flows st1 = (flows st)(?a \<mapsto> ?fe)" and tb: "tables st1 = tables st" and nx: "next_addr st1 = Suc ?a"
    and sn: "table_sent st1 = table_sent st" and gf: "group_frame (groups st) (groups st1)" and mf: "meter_frame (meters st) (meters st1)"
    using heap_create [OF h fr ti, of now m] by blast
  let ?st1 = "upd_table ti (replace_entry old ?a) st1"
  have "heap_ok ?st1" "flows ?st1 old = Some ofe"
    using h1 ao old(2) by (simp_all add: fl)
  then obtain st2 where d: "flow_entry_destroy old ?st1 = Some st2" and h2: "heap_ok st2"
    and fl2': "flows st2 = (flows ?st1)(old := None)" and tb2': "tables st2 = tables ?st1"
    and nx2': "next_addr st2 = next_addr ?st1" and sn2': "table_sent st2 = table_sent ?st1"
    and gf2': "group_frame (groups ?st1) (groups st2)" and mf2': "meter_frame (meters ?st1) (meters st2)"
    using heap_destroy [of ?st1 old ofe] by blast
  have fl2: "flows st2 = ?F" using ao by (auto simp: fl2' fl)
  have tb2: "tables st2 = (tables st)[ti := replace_entry old ?a ?t]" by (simp add: tb2' tb)
  have nx2: "next_addr st2 = Suc ?a" and sn2: "table_sent st2 = table_sent st"
    by (simp_all add: nx2' sn2' nx sn)
  have gf2: "group_frame (groups st) (groups st2)" and mf2: "meter_frame (meters st) (meters st2)"
    using frame_trans(1) [OF gf, of "groups st2"] frame_trans(2) [OF mf, of "meters st2"] gf2' mf2'
    by simp_all
  have live: "\<forall>e \<in> set (ft_hard_entries (tables st2 ! ti)). flows st2 e \<noteq> None"
    using ti listed_live [OF tables_okD(3) [OF ok ti]] tables_okD(3) [OF ok ti]
    by (auto simp: tb2 fl2 members_def replace_entry_def listed_def)
  then have "add_to_timeout_lists ti ?a st2 = Some (upd_table ti (timed (flows st2) ?a ?fe) st2)"
    by (rule add_to_timeout_lists_ok [rotated 2]) (use ti in \<open>simp_all add: fl2 tb2\<close>)
  then have add: "add_to_timeout_lists ti ?a st2 = Some (upd_table ti (timed ?F ?a ?fe) st2)"
    unfolding fl2 .
  let ?st3 = "upd_table ti (timed ?F ?a ?fe) st2"
  have t3: "tables ?st3 = (tables st)[ti := timed ?F ?a ?fe (replace_entry old ?a ?t)]"
    using ti by (simp add: tb2)
  have "heap_ok ?st3" using h2 by simp
  moreover have "listed (flows ?st3) tj (tables ?st3 ! tj)" if tj: "tj < length (tables ?st3)" for tj
  proof (cases "tj = ti")
    case True
    have "listed ?F ti (timed ?F ?a ?fe (replace_entry old ?a ?t))"
      by (rule listed_replace [OF tables_okD(3) [OF ok ti] na fe(1) old(1) pr])
        (simp_all add: timed_def replace_entry_def unlink_flow_def)
    then show ?thesis using True ti by (simp add: t3 fl2 del: upd_table_sel(7))
  next
    case False
    have tj': "tj < length (tables st)" using tj by (simp add: tb2)
    have "listed ?F tj (tables st ! tj)" using listed_frame [OF ok tj' False fe(1) _ na] old(1) by simp
    then show ?thesis using False by (simp add: t3 fl2 del: upd_table_sel(7))
  qed
  ultimately have "tables_ok ?st3" by (simp add: tables_ok_heap)
  then have "added now ti m ia is st ?st3"
    unfolding added_def t3 using ti gf2 mf2 sn2 nx2 old by (auto simp: timed_def replace_entry_def fl2)
  with c d add show ?thesis by blast
qed


lemma active_full:
  assumes "listed F ti t"
  shows "ts_active_count (ft_stats t) = FLOW_TABLE_MAX_ENTRIES \<longleftrightarrow> length (ft_match_entries t) = unat FLOW_TABLE_MAX_ENTRIES"
proof -
  have l: "length (ft_match_entries t) \<le> 4096" and a: "ts_active_count (ft_stats t) = of_nat (length (ft_match_entries t))"
    using assms by (simp_all add: listed_def FLOW_TABLE_MAX_ENTRIES_def)
  have "unat (of_nat (length (ft_match_entries t)) :: u32) = length (ft_match_entries t)"
    using l by (simp add: unsigned_of_nat take_bit_nat_eq_self)
  then show ?thesis unfolding a FLOW_TABLE_MAX_ENTRIES_def by (auto simp: word_unat_eq_iff)
qed

lemma match_live:
  assumes "tables_ok st" and "ti < length (tables st)" and "a \<in> set (ft_match_entries (tables st ! ti))"
  shows "\<exists>fe. flows st a = Some fe \<and> flow_ok st fe \<and> fe_table fe = ti"
proof -
  have "a \<in> members (flows st) ti" using listed_live [OF tables_okD(3) [OF assms(1,2)]] assms(3) by simp
  then obtain fe where "flows st a = Some fe" "fe_table fe = ti" by (auto simp: members_def)
  then show ?thesis using tables_okD(4) [OF assms(1)] by blast
qed

text \<open>The outcomes of adding an entry: an overlap, a full table, or success.\<close>

lemma flow_table_add_ok:
  assumes ok: "tables_ok st" and ti: "ti < length (tables st)" and fr: "fresh_insts st ia is"
  shows "flow_table_add now ti m ia ov st = Some (Some OFPFMFC_OVERLAP, False, st) \<and> ov \<or>
    flow_table_add now ti m ia ov st = Some (Some OFPFMFC_TABLE_FULL, False, st) \<and>
      length (ft_match_entries (tables st ! ti)) = unat FLOW_TABLE_MAX_ENTRIES \<or>
    (\<exists>st'. flow_table_add now ti m ia ov st = Some (None, True, st') \<and> added now ti m ia is st st')"
proof -
  let ?t = "tables st ! ti"
  note l = tables_okD(3) [OF ok ti]
  have live: "\<forall>a \<in> set (ft_match_entries ?t). \<exists>fe. flows st a = Some fe \<and> flow_ok st fe"
    using match_live [OF ok ti] by blast
  have d: "distinct (ft_match_entries ?t)" using l by (simp add: listed_def)
  obtain p where p: "add_walk st m ov (ft_match_entries ?t) = Some p"
    "p = Overlapping \<and> ov \<or>
     (\<exists>e fe. p = Equal e \<and> e \<in> set (ft_match_entries ?t) \<and> flows st e = Some fe \<and> flow_entry_matches fe m True False) \<or>
     (p = AtEnd \<or> (\<exists>e. p = Before e)) \<and>
     (\<forall>a. insert_at p a (ft_match_entries ?t) = insert_before (\<lambda>x. prio_of (flows st) x < fm_priority m) a (ft_match_entries ?t))"
    using add_walk_ok [OF live d, of m ov] by blast
  from p(2) consider "p = Overlapping" "ov"
    | e fe where "p = Equal e" "e \<in> set (ft_match_entries ?t)" "flows st e = Some fe" "flow_entry_matches fe m True False"
    | "p = AtEnd \<or> (\<exists>e. p = Before e)"
      "\<forall>a. insert_at p a (ft_match_entries ?t) = insert_before (\<lambda>x. prio_of (flows st) x < fm_priority m) a (ft_match_entries ?t)"
    by blast
  then show ?thesis
  proof cases
    case 1
    then show ?thesis using p(1) by (simp add: flow_table_add_def)
  next
    case 2
    have "e \<in> members (flows st) ti" using listed_live [OF l, of e] 2(2) by simp
    then obtain st1 st2 st3 where "flow_entry_create now ti m ia st = Some (next_addr st, st1)"
      "flow_entry_destroy e (upd_table ti (replace_entry e (next_addr st)) st1) = Some st2"
      "add_to_timeout_lists ti (next_addr st) st2 = Some st3" "added now ti m ia is st st3"
      using add_replace_ok [OF ok ti fr _ 2(3,4), of now] by blast
    moreover from this have "flow_table_add now ti m ia ov st = Some (None, True, st3)"
      using p(1) 2(1) by (simp add: flow_table_add_def)
    ultimately show ?thesis by blast
  next
    case 3
    show ?thesis
    proof (cases "length (ft_match_entries ?t) = unat FLOW_TABLE_MAX_ENTRIES")
      case True
      then show ?thesis using p(1) 3(1) active_full [OF l] by (auto simp: flow_table_add_def)
    next
      case False
      then have n: "length (ft_match_entries ?t) < unat FLOW_TABLE_MAX_ENTRIES" using l by (simp add: listed_def)
      let ?st1 = "upd_table ti (\<lambda>t. t\<lparr>ft_stats := (ft_stats t)\<lparr>ts_active_count := ts_active_count (ft_stats t) + 1\<rparr>\<rparr>) st"
      obtain st2 st3 where c: "flow_entry_create now ti m ia ?st1 = Some (next_addr st, st2)"
        "add_to_timeout_lists ti (next_addr st)
           (upd_table ti (\<lambda>t. t\<lparr>ft_match_entries := insert_at p (next_addr st) (ft_match_entries t)\<rparr>) st2) = Some st3"
        "added now ti m ia is st st3"
        using add_new_ok [OF ok ti fr n 3(2) refl, of now] by blast
      have "ts_active_count (ft_stats ?t) \<noteq> FLOW_TABLE_MAX_ENTRIES" using active_full [OF l] False by simp
      then have "flow_table_add now ti m ia ov st = Some (None, True, st3)"
        using p(1) 3(1) c(1,2) by (elim disjE exE) (simp_all add: flow_table_add_def Let_def)
      with c(3) show ?thesis by blast
    qed
  qed
qed

section \<open>Modifying entries\<close>

lemma heap_replace:
  assumes ok: "tables_ok st" and a: "flows st a = Some fe" and fr: "fresh_insts st ia is"
  shows "\<exists>st1. flow_entry_replace_instructions a ia st = Some st1 \<and> tables_ok st1 \<and>
    flows st1 = (flows st)(a \<mapsto> fe\<lparr>fe_stats := (fe_stats fe)\<lparr>fs_instructions := ia\<rparr>, fe_group_refs := inst_groups is\<rparr>) \<and>
    insts st1 = (insts st)(fs_instructions (fe_stats fe) := None) \<and> tables st1 = tables st \<and>
    next_addr st1 = next_addr st \<and> table_sent st1 = table_sent st \<and>
    group_frame (groups st) (groups st1) \<and> meters st1 = meters st"
proof -
  let ?fe = "fe\<lparr>fe_stats := (fe_stats fe)\<lparr>fs_instructions := ia\<rparr>, fe_group_refs := inst_groups is\<rparr>"
  let ?ip = "fs_instructions (fe_stats fe)"
  have ia: "insts st ia = Some is" "ia \<noteq> ?ip" "ia < next_addr st" using fr a by (auto simp: fresh_insts_def)
  have fok: "flow_ok st fe" by (rule tables_okD(4) [OF ok a])
  obtain G1 G where r: "flow_entry_replace_instructions a ia st = Some (st\<lparr>groups := G,
      insts := (insts st)(?ip := None), flows := (flows st)(a \<mapsto> ?fe)\<rparr>)"
    and G1: "groups_mapped (group_entry_del_flow_ref a) (fe_group_refs fe) (groups st) G1"
    and G: "groups_mapped (group_entry_add_flow_ref a) (inst_groups is) G1 G"
    using flow_entry_replace_ok [OF tables_okD(1) [OF ok] a fok ia(1,2)] by blast
  let ?st = "st\<lparr>groups := G, insts := (insts st)(?ip := None), flows := (flows st)(a \<mapsto> ?fe)\<rparr>"
  have "group_refs_ok ((flows st)(a := None)) G1"
    using group_refs_del [of "flows st" "groups st" a fe G1 None] ok a G1 by (simp add: tables_ok_def)
  then have "group_refs_ok (((flows st)(a := None))(a \<mapsto> ?fe)) G"
    by (rule group_refs_add [OF _ _ G]) simp_all
  moreover have "meter_refs_ok (flows ?st) (meters st)"
    by (rule meter_refs_cong [of "flows st"]) (use ok a in \<open>auto simp: tables_ok_def\<close>)
  moreover have "insts_ok ?st"
  proof -
    have other: "fs_instructions (fe_stats fe') \<noteq> ?ip \<and> fs_instructions (fe_stats fe') \<noteq> ia" if "flows st b = Some fe'" "b \<noteq> a" for b fe'
      using insts_distinct [OF ok a that(1)] that fr by (auto simp: fresh_insts_def)
    have live: "b < next_addr st \<and> flow_ok st fe' \<and> fs_instructions (fe_stats fe') < next_addr st \<and> fe_table fe' < length (tables st)"
      if "flows st b = Some fe'" for b fe'
      using ok that unfolding tables_ok_def insts_ok_def by blast
    have "b < next_addr st \<and> flow_ok ?st fe' \<and> fs_instructions (fe_stats fe') < next_addr st \<and> fe_table fe' < length (tables st)"
      if "flows ?st b = Some fe'" for b fe'
    proof (cases "b = a")
      case True
      then have "fe' = ?fe" using that by simp
      then show ?thesis using True live [OF a] ia fok by (simp add: flow_ok_def)
    next
      case False
      then have "flows st b = Some fe'" using that by simp
      then show ?thesis using live [of b fe'] other [of b fe'] False by (simp add: flow_ok_def)
    qed
    moreover have "b = c" if "flows ?st b = Some f1" "flows ?st c = Some f2"
      "fs_instructions (fe_stats f1) = fs_instructions (fe_stats f2)" for b c f1 f2
    proof -
      consider "b = c" | "b = a" "c \<noteq> a" | "b \<noteq> a" "c = a" | "b \<noteq> c" "b \<noteq> a" "c \<noteq> a" by blast
      then show ?thesis
      proof cases
        case 2
        then show ?thesis using that other [of c f2] by auto
      next
        case 3
        then show ?thesis using that other [of b f1] by auto
      next
        case 4
        then show ?thesis using that insts_distinct [OF ok, of b f1 c f2] by simp
      qed
    qed
    moreover have "next_addr ?st = next_addr st" "tables ?st = tables st" by simp_all
    ultimately show ?thesis by (intro insts_okI) (simp_all only:)
  qed
  moreover have "listed (flows ?st) tj (tables st ! tj)" if "tj < length (tables st)" for tj
    by (rule listed_cong [OF tables_okD(3) [OF ok that]]) (use a in \<open>auto simp: fkey_def\<close>)
  ultimately have "tables_ok ?st" by (simp add: tables_ok_def)
  moreover have "group_frame (groups st) G"
    using frame_trans(1) [OF groups_mapped_frame [OF G1] groups_mapped_frame [OF G]] by simp
  ultimately show ?thesis using r by (intro exI [of _ ?st]) simp
qed


text \<open>Changing counters of an entry.\<close>

lemma tables_ok_set_flow:
  assumes ok: "tables_ok st" and a: "flows st a = Some fe"
    and same: "fkey fe' = fkey fe" "fe_group_refs fe' = fe_group_refs fe" "fe_meter_refs fe' = fe_meter_refs fe"
      "fs_instructions (fe_stats fe') = fs_instructions (fe_stats fe)"
  shows "tables_ok (set_flow a fe' st)"
proof -
  let ?F = "(flows st)(a \<mapsto> fe')"
  have "group_refs_ok ?F (groups st)" "meter_refs_ok ?F (meters st)"
    using group_refs_cong [of "flows st" "groups st" ?F] meter_refs_cong [of "flows st" "meters st" ?F] ok a same(2,3)
    by (simp_all add: tables_ok_def)
  moreover have "insts_ok (set_flow a fe' st)"
  proof -
    have tb: "fe_table fe' = fe_table fe" using same(1) by (simp add: fkey_def)
    have old: "\<exists>f. flows st b = Some f \<and> fs_instructions (fe_stats f) = fs_instructions (fe_stats f1) \<and>
        fe_table f = fe_table f1 \<and> fe_group_refs f = fe_group_refs f1 \<and> fe_meter_refs f = fe_meter_refs f1"
      if "?F b = Some f1" for b f1
      using that a same tb by (cases "b = a") auto
    have "b < next_addr st \<and> flow_ok st f1 \<and> fs_instructions (fe_stats f1) < next_addr st \<and> fe_table f1 < length (tables st)"
      if "?F b = Some f1" for b f1
      using old [OF that] ok unfolding tables_ok_def insts_ok_def flow_ok_def by metis
    moreover have "b = c" if "?F b = Some f1" "?F c = Some f2"
      "fs_instructions (fe_stats f1) = fs_instructions (fe_stats f2)" for b c f1 f2
      using old [OF that(1)] old [OF that(2)] that(3) ok unfolding tables_ok_def insts_ok_def by metis
    moreover have "flows (set_flow a fe' st) = ?F" "next_addr (set_flow a fe' st) = next_addr st"
      "tables (set_flow a fe' st) = tables st" "flow_ok (set_flow a fe' st) = flow_ok st"
      by (simp_all add: set_flow_def flow_ok_def fun_eq_iff)
    ultimately show ?thesis by (intro insts_okI) (simp_all only:)
  qed
  moreover have "listed ?F tj (tables st ! tj)" if "tj < length (tables st)" for tj
    by (rule listed_cong [OF tables_okD(3) [OF ok that]]) (use a same(1) in auto)
  ultimately show ?thesis by (simp add: tables_ok_def set_flow_def)
qed

lemma tables_ok_upd_table:
  assumes "tables_ok st"
    and "\<And>t. ft_match_entries (f t) = ft_match_entries t \<and> ft_hard_entries (f t) = ft_hard_entries t \<and>
           ft_idle_entries (f t) = ft_idle_entries t \<and> ts_active_count (ft_stats (f t)) = ts_active_count (ft_stats t)"
  shows "tables_ok (upd_table ti f st)"
proof -
  have "listed (flows st) tj ((tables st)[ti := f (tables st ! ti)] ! tj)" if "tj < length (tables st)" for tj
    using listed_cong [OF tables_okD(3) [OF assms(1) that], of "flows st" "f (tables st ! tj)"] tables_okD(3) [OF assms(1) that]
      assms(2) that by (cases "tj = ti") simp_all
  then show ?thesis using assms(1) by (simp add: tables_ok_heap)
qed

text \<open>A modification that matches one entry at most: the instructions are exchanged and the old ones
  freed.\<close>

lemma modify_walk_none:
  assumes "\<forall>a \<in> set as. \<exists>fe. flows st a = Some fe \<and> \<not> flow_entry_matches fe m strict True"
  shows "modify_walk m ia strict as kept st = Some (kept, st)"
  using assms by (induction as) auto

lemma modify_walk_skip:
  assumes "\<forall>a \<in> set as. \<exists>fe. flows st a = Some fe \<and> \<not> flow_entry_matches fe m strict True"
  shows "modify_walk m ia strict (as @ bs) kept st = modify_walk m ia strict bs kept st"
  using assms by (induction as) auto

definition modified_flow :: "ofl_msg_flow_mod \<Rightarrow> addr \<Rightarrow> ofl_instruction list \<Rightarrow> flow_entry \<Rightarrow> flow_entry" where
  "modified_flow m ia is fe =
    flow_entry_modify_stats m (fe\<lparr>fe_stats := (fe_stats fe)\<lparr>fs_instructions := ia\<rparr>, fe_group_refs := inst_groups is\<rparr>)"

lemma flow_table_modify_one:
  assumes ok: "tables_ok st" and ti: "ti < length (tables st)" and fr: "fresh_insts st ia is"
    and a: "a \<in> members (flows st) ti" "flows st a = Some fe" "flow_entry_matches fe m strict True"
    and one: "\<And>b fe'. b \<noteq> a \<Longrightarrow> b \<in> members (flows st) ti \<Longrightarrow> flows st b = Some fe' \<Longrightarrow> \<not> flow_entry_matches fe' m strict True"
  shows "\<exists>st'. flow_table_modify ti m ia strict st = Some (None, True, st') \<and> tables_ok st' \<and>
    flows st' = (flows st)(a \<mapsto> modified_flow m ia is fe) \<and> tables st' = tables st \<and> next_addr st' = next_addr st \<and>
    table_sent st' = table_sent st \<and> group_frame (groups st) (groups st') \<and> meters st' = meters st"
proof -
  let ?xs = "ft_match_entries (tables st ! ti)"
  have l: "distinct ?xs" "set ?xs = members (flows st) ti" using tables_okD(3) [OF ok ti] by (simp_all add: listed_def)
  obtain as bs where xs: "?xs = as @ a # bs" using a(1) l(2) by (metis split_list)
  obtain st1 where s1: "flow_entry_replace_instructions a ia st = Some st1" "tables_ok st1"
    "flows st1 = (flows st)(a \<mapsto> fe\<lparr>fe_stats := (fe_stats fe)\<lparr>fs_instructions := ia\<rparr>, fe_group_refs := inst_groups is\<rparr>)"
    "tables st1 = tables st" "next_addr st1 = next_addr st" "table_sent st1 = table_sent st"
    "group_frame (groups st) (groups st1)" "meters st1 = meters st"
    using heap_replace [OF ok a(2) fr] by blast
  let ?st2 = "set_flow a (modified_flow m ia is fe) st1"
  have other: "\<exists>fe'. flows st b = Some fe' \<and> \<not> flow_entry_matches fe' m strict True" if "b \<in> set as \<union> set bs" for b
  proof -
    have "b \<in> members (flows st) ti" "b \<noteq> a" using that l unfolding xs by auto
    then show ?thesis using one [of b] by (auto simp: members_def)
  qed
  have "modify_walk m ia strict ?xs False st = modify_walk m ia strict bs True ?st2"
    unfolding xs using other a(2,3) s1(1,3) by (simp add: modify_walk_skip modified_flow_def)
  also have "\<dots> = Some (True, ?st2)"
  proof (rule modify_walk_none, rule ballI)
    fix b assume b: "b \<in> set bs"
    then have "b \<noteq> a" using l(1) unfolding xs by auto
    then show "\<exists>fe. flows ?st2 b = Some fe \<and> \<not> flow_entry_matches fe m strict True"
      using other [of b] b s1(3) by (simp add: set_flow_def)
  qed
  finally have "flow_table_modify ti m ia strict st = Some (None, True, ?st2)" by (simp add: flow_table_modify_def)
  moreover have "tables_ok ?st2"
    by (rule tables_ok_set_flow [OF s1(2), of a "fe\<lparr>fe_stats := (fe_stats fe)\<lparr>fs_instructions := ia\<rparr>, fe_group_refs := inst_groups is\<rparr>"])
      (simp_all add: s1(3) modified_flow_def flow_entry_modify_stats_def fkey_def)
  ultimately show ?thesis using s1 by (intro exI [of _ ?st2]) (simp add: set_flow_def)
qed

lemma flow_table_modify_none:
  assumes ok: "tables_ok st" and ti: "ti < length (tables st)"
    and none: "\<And>b fe'. b \<in> members (flows st) ti \<Longrightarrow> flows st b = Some fe' \<Longrightarrow> \<not> flow_entry_matches fe' m strict True"
  shows "flow_table_modify ti m ia strict st = Some (None, False, st)"
proof -
  have "set (ft_match_entries (tables st ! ti)) = members (flows st) ti"
    using tables_okD(3) [OF ok ti] by (simp add: listed_def)
  then have "modify_walk m ia strict (ft_match_entries (tables st ! ti)) False st = Some (False, st)"
    using none by (intro modify_walk_none) (auto simp: members_def)
  then show ?thesis by (simp add: flow_table_modify_def)
qed


section \<open>Lookup\<close>

definition validated :: "packet_parser \<Rightarrow> packet \<Rightarrow> packet_handle_std" where
  "validated parse k = packet_handle_std_validate parse (pkt_data k) (pkt_in_port k) (pkt_handle_std k)"

lemma validated_idem: "validated parse (k\<lparr>pkt_handle_std := validated parse k\<rparr>) = validated parse k"
  by (auto simp: validated_def packet_handle_std_validate_def Let_def split: option.splits)

lemma handle_match_validated:
  "packet_handle_std_match parse (pkt_data k) (pkt_in_port k) (pkt_handle_std k) m =
     (hs_valid (validated parse k) \<and> packet_match m (hs_match (validated parse k)), validated parse k)"
  by (simp add: packet_handle_std_match_def Let_def validated_def packet_handle_std_validate_def)

definition hits :: "packet_parser \<Rightarrow> packet \<Rightarrow> dp_tables \<Rightarrow> addr \<Rightarrow> bool" where
  "hits parse k st a \<longleftrightarrow> (\<exists>fe. flows st a = Some fe \<and> m_type (fs_match (fe_stats fe)) = OFPMT_OXM \<and>
     hs_valid (validated parse k) \<and> packet_match (fs_match (fe_stats fe)) (hs_match (validated parse k)))"

lemma hits_validated: "hits parse (k\<lparr>pkt_handle_std := validated parse k\<rparr>) st a = hits parse k st a"
  by (simp add: hits_def validated_idem)

lemma lookup_walk_ok:
  assumes "\<forall>a \<in> set as. flows st a \<noteq> None"
  shows "\<exists>k'. lookup_walk parse st k as = Some (find (hits parse k st) as, k') \<and>
    (k' = k \<or> k' = k\<lparr>pkt_handle_std := validated parse k\<rparr>)"
  using assms
proof (induction as arbitrary: k)
  case Nil
  then show ?case by simp
next
  case (Cons a as)
  obtain fe where fe: "flows st a = Some fe" using Cons.prems by auto
  let ?k = "k\<lparr>pkt_handle_std := validated parse k\<rparr>"
  have IH: "\<exists>k'. lookup_walk parse st k1 as = Some (find (hits parse k1 st) as, k') \<and>
      (k' = k1 \<or> k' = k1\<lparr>pkt_handle_std := validated parse k1\<rparr>)" for k1
    using Cons by simp
  have h: "hits parse ?k st = hits parse k st" by (simp add: fun_eq_iff hits_validated)
  consider "m_type (fs_match (fe_stats fe)) \<noteq> OFPMT_OXM"
    | "m_type (fs_match (fe_stats fe)) = OFPMT_OXM" "\<not> hits parse k st a"
    | "m_type (fs_match (fe_stats fe)) = OFPMT_OXM" "hits parse k st a" by blast
  then show ?case
  proof cases
    case 1
    then have "\<not> hits parse k st a" by (simp add: hits_def fe)
    then show ?thesis using 1 IH [of k] fe by simp
  next
    case 2
    then have "\<not> (hs_valid (validated parse k) \<and> packet_match (fs_match (fe_stats fe)) (hs_match (validated parse k)))"
      by (simp add: hits_def fe)
    then show ?thesis using 2 IH [of ?k] fe by (auto simp: handle_match_validated h validated_idem)
  next
    case 3
    then have "hs_valid (validated parse k) \<and> packet_match (fs_match (fe_stats fe)) (hs_match (validated parse k))"
      by (simp add: hits_def fe)
    then show ?thesis using 3 fe by (simp add: handle_match_validated)
  qed
qed

lemma find_first_of_sorted:
  assumes "sorted_wrt R xs" and "find P xs = Some a" and "b \<in> set xs" and "P b"
  shows "b = a \<or> R a b"
  using assms by (induction xs) (auto split: if_splits)

lemma flow_table_lookup_ok:
  assumes ok: "tables_ok st" and ti: "ti < length (tables st)"
  shows "\<exists>k' st'. flow_table_lookup parse now ti k st = Some (find (hits parse k st) (ft_match_entries (tables st ! ti)), k', st') \<and>
    tables_ok st' \<and> (k' = k \<or> k' = k\<lparr>pkt_handle_std := validated parse k\<rparr>) \<and>
    flows st' = (case find (hits parse k st) (ft_match_entries (tables st ! ti)) of None \<Rightarrow> flows st
       | Some a \<Rightarrow> (flows st)(a := map_option (count_match now (length (pkt_data k))) (flows st a))) \<and>
    groups st' = groups st \<and> meters st' = meters st \<and> insts st' = insts st \<and> next_addr st' = next_addr st \<and>
    table_sent st' = table_sent st \<and> length (tables st') = length (tables st)"
proof -
  let ?xs = "ft_match_entries (tables st ! ti)"
  let ?st1 = "upd_table ti (\<lambda>t. t\<lparr>ft_stats := (ft_stats t)\<lparr>ts_lookup_count := ts_lookup_count (ft_stats t) + 1\<rparr>\<rparr>) st"
  have ok1: "tables_ok ?st1" by (rule tables_ok_upd_table [OF ok]) simp
  have live: "\<forall>a \<in> set ?xs. flows ?st1 a \<noteq> None" using match_live [OF ok ti] by fastforce
  have hit: "hits parse k ?st1 = hits parse k st" by (simp add: hits_def fun_eq_iff)
  obtain k' where w: "lookup_walk parse ?st1 k ?xs = Some (find (hits parse k st) ?xs, k')"
    and k': "k' = k \<or> k' = k\<lparr>pkt_handle_std := validated parse k\<rparr>"
    using lookup_walk_ok [OF live, of parse k] unfolding hit by blast
  show ?thesis
  proof (cases "find (hits parse k st) ?xs")
    case None
    then show ?thesis using w k' ok1 by (auto simp: flow_table_lookup_def Let_def)
  next
    case (Some a)
    then have "a \<in> set ?xs" by (auto simp: find_Some_iff)
    then obtain fe where fe: "flows st a = Some fe" using match_live [OF ok ti] by blast
    let ?st2 = "set_flow a (count_match now (length (pkt_data k)) fe) ?st1"
    let ?st3 = "upd_table ti (\<lambda>t. t\<lparr>ft_stats := (ft_stats t)\<lparr>ts_matched_count := ts_matched_count (ft_stats t) + 1\<rparr>\<rparr>) ?st2"
    have "tables_ok ?st2"
      by (rule tables_ok_set_flow [OF ok1, of a fe]) (simp_all add: fe count_match_def fkey_def)
    then have "tables_ok ?st3" by (rule tables_ok_upd_table) simp
    moreover have "flow_table_lookup parse now ti k st = Some (Some a, k', ?st3)"
      using w Some fe by (simp add: flow_table_lookup_def Let_def)
    ultimately show ?thesis using Some k' fe by (simp add: set_flow_def)
  qed
qed

section \<open>Timeouts and deletion\<close>

lemma hard_list_ok:
  assumes ok: "tables_ok st" and ti: "ti < length (tables st)"
  shows "\<exists>st'. hard_walk now (ft_hard_entries (tables st ! ti)) st = Some st' \<and>
    removed now OFPRR_HARD_TIMEOUT (filter (expired hard_expired now st) (ft_hard_entries (tables st ! ti))) st st'"
proof (rule hard_walk_ok [OF ok])
  note l = tables_okD(3) [OF ok ti, unfolded listed_def]
  show "distinct (ft_hard_entries (tables st ! ti))"
    "sorted_wrt (\<lambda>a b. due_of (flows st) a \<le> due_of (flows st) b) (ft_hard_entries (tables st ! ti))"
    "\<forall>a \<in> set (ft_hard_entries (tables st ! ti)). 0 < due_of (flows st) a"
    "\<forall>a \<in> set (ft_hard_entries (tables st ! ti)). flows st a \<noteq> None"
    using l by (auto simp: members_def)
qed

lemma idle_list_ok:
  assumes ok: "tables_ok st" and ti: "ti < length (tables st)"
  shows "\<exists>st'. idle_walk now (ft_idle_entries (tables st ! ti)) st = Some st' \<and>
    removed now OFPRR_IDLE_TIMEOUT (filter (expired idle_expired now st) (ft_idle_entries (tables st ! ti))) st st'"
  by (rule idle_walk_ok [OF ok]) (use tables_okD(3) [OF ok ti, unfolded listed_def] in \<open>auto simp: members_def\<close>)

lemma hard_members:
  assumes "listed (flows st) ti t"
  shows "a \<in> set (filter (expired hard_expired now st) (ft_hard_entries t)) \<longleftrightarrow>
    a \<in> members (flows st) ti \<and> expired hard_expired now st a"
proof -
  have "0 < due_of (flows st) a" if "expired hard_expired now st a"
    using that by (auto simp: expired_def hard_expired_def due_of_def)
  then show ?thesis using assms unfolding listed_def by auto
qed

lemma idle_members:
  assumes "listed (flows st) ti t"
  shows "a \<in> set (filter (expired idle_expired now st) (ft_idle_entries t)) \<longleftrightarrow>
    a \<in> members (flows st) ti \<and> expired idle_expired now st a"
proof -
  have "0 < idle_of (flows st) a" if "expired idle_expired now st a"
    using that by (auto simp: expired_def idle_expired_def idle_of_def word_neq_0_conv)
  then show ?thesis using assms unfolding listed_def by auto
qed

lemma flow_table_timeout_ok:
  assumes ok: "tables_ok st" and ti: "ti < length (tables st)"
  shows "\<exists>st'. flow_table_timeout now ti st = Some st' \<and> tables_ok st' \<and>
    flows st' = (\<lambda>a. if a \<in> members (flows st) ti \<and> (expired hard_expired now st a \<or> expired idle_expired now st a)
                     then None else flows st a) \<and>
    length (tables st') = length (tables st) \<and> next_addr st' = next_addr st \<and>
    group_frame (groups st) (groups st') \<and> meter_frame (meters st) (meters st')"
proof -
  obtain st1 where h: "hard_walk now (ft_hard_entries (tables st ! ti)) st = Some st1"
    "removed now OFPRR_HARD_TIMEOUT (filter (expired hard_expired now st) (ft_hard_entries (tables st ! ti))) st st1"
    using hard_list_ok [OF ok ti] by blast
  have ti1: "ti < length (tables st1)" using removeds(3) [OF h(2)] ti by simp
  obtain st2 where i: "idle_walk now (ft_idle_entries (tables st1 ! ti)) st1 = Some st2"
    "removed now OFPRR_IDLE_TIMEOUT (filter (expired idle_expired now st1) (ft_idle_entries (tables st1 ! ti))) st1 st2"
    using idle_list_ok [OF removeds(1) [OF h(2)] ti1] by blast
  note m1 = hard_members [OF tables_okD(3) [OF ok ti], of _ now]
  note m2 = idle_members [OF tables_okD(3) [OF removeds(1) [OF h(2)] ti1], of _ now]
  have f1: "flows st1 a = (if a \<in> members (flows st) ti \<and> expired hard_expired now st a then None else flows st a)" for a
    unfolding removeds(2) [OF h(2)] m1 ..
  have f2: "flows st2 a = (if a \<in> members (flows st1) ti \<and> expired idle_expired now st1 a then None else flows st1 a)" for a
    unfolding removeds(2) [OF i(2)] m2 ..
  have "flows st2 a = (if a \<in> members (flows st) ti \<and> (expired hard_expired now st a \<or> expired idle_expired now st a)
      then None else flows st a)" for a
  proof (cases "a \<in> members (flows st) ti \<and> expired hard_expired now st a")
    case True
    then show ?thesis using f1 [of a] f2 [of a] by simp
  next
    case False
    have e: "flows st1 a = flows st a" using f1 [of a] unfolding if_not_P [OF False] .
    then have "a \<in> members (flows st1) ti \<longleftrightarrow> a \<in> members (flows st) ti"
      "expired idle_expired now st1 a = expired idle_expired now st a" by (simp_all add: members_def expired_def)
    then show ?thesis using False f2 [of a] e by auto
  qed
  moreover have "flow_table_timeout now ti st = Some st2" using h(1) i(1) by (simp add: flow_table_timeout_def)
  moreover have "group_frame (groups st) (groups st2)" "meter_frame (meters st) (meters st2)"
    by (rule frame_trans(1) [OF removeds(7) [OF h(2)] removeds(7) [OF i(2)]])
      (rule frame_trans(2) [OF removeds(8) [OF h(2)] removeds(8) [OF i(2)]])
  moreover have "length (tables st2) = length (tables st)" "next_addr st2 = next_addr st"
    using removeds(3,4) [OF i(2)] removeds(3,4) [OF h(2)] by simp_all
  ultimately show ?thesis using removeds(1) [OF i(2)] by (intro exI [of _ st2] conjI ext)
qed

lemma flow_table_delete_ok:
  assumes ok: "tables_ok st" and ti: "ti < length (tables st)"
  shows "\<exists>st'. flow_table_delete now ti m strict st = Some (None, False, st') \<and>
    removed now OFPRR_DELETE (filter (selected m strict st) (ft_match_entries (tables st ! ti))) st st'"
proof -
  have "distinct (ft_match_entries (tables st ! ti))" using tables_okD(3) [OF ok ti] by (simp add: listed_def)
  moreover have "\<forall>a \<in> set (ft_match_entries (tables st ! ti)). flows st a \<noteq> None" using match_live [OF ok ti] by fastforce
  ultimately show ?thesis using delete_walk_ok [OF ok, of "ft_match_entries (tables st ! ti)" now m strict]
    by (auto simp: flow_table_delete_def)
qed

end
