(* ===== verification/Group_Table.thy ===== *)
theory Group_Table
  imports Flow_Table
begin

text \<open>
  The group table, \<^verbatim>\<open>udatapath/group_table.c\<close>: adding, modifying and deleting groups, the search for
  loops among groups, the statistics; and the validation of actions against the ports and the
  groups that exist, from \<^verbatim>\<open>udatapath/dp_actions.c\<close>.  Destroying a group removes the flows that refer
  to it.
\<close>

unbundle bit_operations_syntax

section \<open>Validation of actions\<close>

definition validate_action :: "ports_state \<Rightarrow> dp_tables \<Rightarrow> ofl_action \<Rightarrow> ofl_err option option" where
  "validate_action ps st a =
    (case a of
       Output port max_len \<Rightarrow>
         if port \<le> OFPP_MAX \<and> dp_ports_lookup ps port = None then Some (Some OFPBAC_BAD_OUT_PORT) else Some None
     | Group g \<Rightarrow>
         if g \<le> OFPG_MAX then do {
           r \<leftarrow> group_table_find st g;
           Some (if r = None then Some OFPBAC_BAD_OUT_GROUP else None)
         } else Some None
     | _ \<Rightarrow> Some None)"

fun dp_actions_validate :: "ports_state \<Rightarrow> dp_tables \<Rightarrow> ofl_action list \<Rightarrow> ofl_err option option" where
  "dp_actions_validate ps st [] = Some None"
| "dp_actions_validate ps st (a # as) = do {
     r \<leftarrow> validate_action ps st a;
     case r of Some e \<Rightarrow> Some (Some e) | None \<Rightarrow> dp_actions_validate ps st as
   }"

section \<open>Adding and modifying\<close>

definition GROUP_TABLE_MAX_ENTRIES :: u64 where "GROUP_TABLE_MAX_ENTRIES = 4096"
definition GROUP_TABLE_MAX_BUCKETS :: u64 where "GROUP_TABLE_MAX_BUCKETS = 8192"

definition bucket_count :: "ofl_bucket list \<Rightarrow> u64" where
  "bucket_count bs = of_nat (length bs)"

definition group_table_create :: group_table where
  "group_table_create = \<lparr>gt_entries_num = 0, gt_entries = hmap_init, gt_freed = [], gt_buckets_num = 0\<rparr>"

text \<open>\<open>uninit\<close> is the value of the creation time that \<open>group_entry_create\<close> leaves unset.\<close>

definition group_table_add ::
    "nat \<Rightarrow> ofl_msg_group_mod \<Rightarrow> dp_tables \<Rightarrow> (ofl_err option \<times> dp_tables) option" where
  "group_table_add uninit m st = do {
     r \<leftarrow> group_table_find st (gm_group_id m);
     let t = groups st;
     if r \<noteq> None then Some (Some OFPGMFC_GROUP_EXISTS, st)
     else if gt_entries_num t = GROUP_TABLE_MAX_ENTRIES then Some (Some OFPGMFC_OUT_OF_GROUPS, st)
     else if GROUP_TABLE_MAX_BUCKETS < gt_buckets_num t + bucket_count (gm_buckets m)
     then Some (Some OFPGMFC_OUT_OF_BUCKETS, st)
     else Some (None, st\<lparr>groups := t\<lparr>
            gt_entries := hmap_insert (ucast (gm_group_id m), group_entry_create uninit m) (gt_entries t),
            gt_entries_num := gt_entries_num t + 1,
            gt_buckets_num := gt_buckets_num t + bucket_count (gm_buckets m)\<rparr>\<rparr>)
   }"

text \<open>The search for loops.  A visit appends the groups that the buckets name and that are in
  neither list; the search takes the first group from the list and visits its buckets.\<close>

definition is_loop_free_visit :: "ofl_bucket list \<Rightarrow> u32 list \<Rightarrow> u32 list \<Rightarrow> u32 list" where
  "is_loop_free_visit bs visited to_be_visited =
    fold (\<lambda>g tbv. if g \<in> set visited \<or> g \<in> set tbv then tbv else tbv @ [g])
      (concat (map (\<lambda>b. action_groups (actions b)) bs)) to_be_visited"

partial_function (option) loop_free_loop ::
    "dp_tables \<Rightarrow> u32 \<Rightarrow> u32 list \<Rightarrow> u32 list \<Rightarrow> bool option" where
  "loop_free_loop st gid visited to_be_visited =
    (case to_be_visited of
       [] \<Rightarrow> Some True
     | g # tbv \<Rightarrow>
        if gid \<in> set to_be_visited then Some False
        else Option.bind (group_table_find st g) (\<lambda>r.
          loop_free_loop st gid (visited @ [g])
            (case r of
               None \<Rightarrow> tbv
             | Some e \<Rightarrow> is_loop_free_visit (gd_buckets (ge_desc e)) visited tbv)))"

definition is_loop_free :: "dp_tables \<Rightarrow> ofl_msg_group_mod \<Rightarrow> bool option" where
  "is_loop_free st m = loop_free_loop st (gm_group_id m) [] (is_loop_free_visit (gm_buckets m) [] [])"

text \<open>Destroying a group: every flow that refers to it is removed, then the memory is freed.\<close>

fun remove_flows :: "nat \<Rightarrow> ofp_flow_removed_reason \<Rightarrow> addr list \<Rightarrow> dp_tables \<Rightarrow> dp_tables option" where
  "remove_flows now reason [] st = Some st"
| "remove_flows now reason (a # as) st = do {
     st1 \<leftarrow> flow_entry_remove now a reason st;
     remove_flows now reason as st1
   }"

definition group_entry_destroy :: "nat \<Rightarrow> group_entry \<Rightarrow> dp_tables \<Rightarrow> dp_tables option" where
  "group_entry_destroy now e st = remove_flows now OFPRR_GROUP_DELETE (ge_flow_refs e) st"

definition group_table_modify ::
    "nat \<Rightarrow> nat \<Rightarrow> ofl_msg_group_mod \<Rightarrow> dp_tables \<Rightarrow> (ofl_err option \<times> dp_tables) option" where
  "group_table_modify now uninit m st = do {
     r \<leftarrow> group_table_find st (gm_group_id m);
     case r of
       None \<Rightarrow> Some (Some OFPGMFC_UNKNOWN_GROUP, st)
     | Some e \<Rightarrow> do {
         let t = groups st;
         let n = gt_buckets_num t - bucket_count (gd_buckets (ge_desc e)) + bucket_count (gm_buckets m);
         if GROUP_TABLE_MAX_BUCKETS < n then Some (Some OFPGMFC_OUT_OF_BUCKETS, st)
         else do {
           ok \<leftarrow> is_loop_free st m;
           if \<not> ok then Some (Some OFPGMFC_LOOP, st)
           else do {
             let new = (group_entry_create uninit m)\<lparr>ge_flow_refs := ge_flow_refs e\<rparr>;
             st1 \<leftarrow> group_entry_destroy now (e\<lparr>ge_flow_refs := []\<rparr>)
               (st\<lparr>groups := t\<lparr>gt_entries := hmap_insert_fast (ucast (gm_group_id m), new)
                                 (hmap_remove (ucast (gm_group_id m)) (gt_entries t)),
                              gt_buckets_num := n\<rparr>\<rparr>);
             Some (None, st1)
           }
         }
       }
   }"

section \<open>Deleting\<close>

text \<open>The deletion of all groups destroys each group in the order of the map, and its node stays
  linked while the rest is destroyed.  The references are read when the group's turn comes.\<close>

fun destroy_groups :: "nat \<Rightarrow> (u64 \<times> group_entry) list \<Rightarrow> dp_tables \<Rightarrow> dp_tables option" where
  "destroy_groups now [] st = Some st"
| "destroy_groups now (nd # nds) st = do {
     e \<leftarrow> hmap_first_with_hash (gt_entries (groups st)) (fst nd);
     st1 \<leftarrow> group_entry_destroy now e st;
     destroy_groups now nds (st1\<lparr>groups := (groups st1)\<lparr>gt_freed := fst nd # gt_freed (groups st1)\<rparr>\<rparr>)
   }"

definition group_table_delete ::
    "nat \<Rightarrow> ofl_msg_group_mod \<Rightarrow> dp_tables \<Rightarrow> (ofl_err option \<times> dp_tables) option" where
  "group_table_delete now m st =
    (if gm_group_id m = OFPG_ALL then do {
       nds \<leftarrow> hmap_for_each (gt_entries (groups st));
       st1 \<leftarrow> destroy_groups now nds st;
       Some (None, st1\<lparr>groups := \<lparr>gt_entries_num = 0, gt_entries = hmap_init, gt_freed = [], gt_buckets_num = 0\<rparr>\<rparr>)
     } else do {
       r \<leftarrow> group_table_find st (gm_group_id m);
       case r of
         None \<Rightarrow> Some (None, st)
       | Some e \<Rightarrow> do {
           nds \<leftarrow> hmap_for_each (gt_entries (groups st));
           if list_ex (\<lambda>nd. group_entry_has_out_group (snd nd) (gs_group_id (ge_stats e))) nds
           then Some (Some OFPGMFC_CHAINING_UNSUPPORTED, st)
           else do {
             let t = groups st;
             st1 \<leftarrow> group_entry_destroy now e
               (st\<lparr>groups := t\<lparr>gt_entries_num := gt_entries_num t - 1,
                   gt_buckets_num := gt_buckets_num t - bucket_count (gd_buckets (ge_desc e)),
                   gt_entries := hmap_remove (ucast (gm_group_id m)) (gt_entries t)\<rparr>\<rparr>);
             Some (None, st1)
           }
         }
     })"

section \<open>Messages\<close>

fun validate_buckets :: "ports_state \<Rightarrow> dp_tables \<Rightarrow> ofl_bucket list \<Rightarrow> ofl_err option option" where
  "validate_buckets ps st [] = Some None"
| "validate_buckets ps st (b # bs) = do {
     r \<leftarrow> dp_actions_validate ps st (actions b);
     case r of Some e \<Rightarrow> Some (Some e) | None \<Rightarrow> validate_buckets ps st bs
   }"

definition group_table_handle_group_mod ::
    "nat \<Rightarrow> nat \<Rightarrow> ports_state \<Rightarrow> ofl_msg_group_mod \<Rightarrow> controller_role \<Rightarrow> dp_tables \<Rightarrow>
     (ofl_err option \<times> dp_tables) option" where
  "group_table_handle_group_mod now uninit ps m role st =
    (if role = OFPCR_ROLE_SLAVE then Some (Some OFPBRC_IS_SLAVE, st)
     else do {
       v \<leftarrow> validate_buckets ps st (gm_buckets m);
       case v of
         Some e \<Rightarrow> Some (Some e, st)
       | None \<Rightarrow>
          (case gm_command m of
             OFPGC_ADD \<Rightarrow> group_table_add uninit m st
           | OFPGC_MODIFY \<Rightarrow> group_table_modify now uninit m st
           | OFPGC_DELETE \<Rightarrow> group_table_delete now m st
           | OFPGC_OTHER c \<Rightarrow> Some (Some OFPBRC_BAD_TYPE, st))
     })"

definition group_table_handle_stats_request_group ::
    "nat \<Rightarrow> u32 \<Rightarrow> dp_tables \<Rightarrow> (ofl_err option \<times> dp_tables) option" where
  "group_table_handle_stats_request_group now group_id st =
    (if group_id = OFPG_ALL then do {
       nds \<leftarrow> hmap_for_each (gt_entries (groups st));
       let st1 = st\<lparr>groups := (groups st)\<lparr>gt_entries :=
                   fold (\<lambda>k. hmap_write k (group_entry_update now)) (map fst nds) (gt_entries (groups st))\<rparr>\<rparr>;
       Some (None, send_table_msg (GroupStatsReply (gt_entries_num (groups st))
                     (map (\<lambda>nd. ge_stats (group_entry_update now (snd nd))) nds)) st1)
     } else do {
       r \<leftarrow> group_table_find st group_id;
       case r of
         None \<Rightarrow> Some (Some OFPGMFC_UNKNOWN_GROUP, st)
       | Some e \<Rightarrow> Some (None, send_table_msg (GroupStatsReply 1 [ge_stats (group_entry_update now e)])
                        (write_group group_id (group_entry_update now) st))
     })"

definition group_table_handle_stats_request_group_desc :: "dp_tables \<Rightarrow> (ofl_err option \<times> dp_tables) option" where
  "group_table_handle_stats_request_group_desc st = do {
     nds \<leftarrow> hmap_for_each (gt_entries (groups st));
     Some (None, send_table_msg (GroupDescReply (gt_entries_num (groups st)) (map (\<lambda>nd. ge_desc (snd nd)) nds)) st)
   }"

definition group_table_destroy :: "nat \<Rightarrow> dp_tables \<Rightarrow> dp_tables option" where
  "group_table_destroy now st = do {
     nds \<leftarrow> hmap_for_each (gt_entries (groups st));
     destroy_groups now nds st
   }"


section \<open>Destroying a group\<close>

lemma remove_flows_ok:
  assumes "tables_ok st" and "distinct as" and "\<forall>a \<in> set as. flows st a \<noteq> None"
  shows "\<exists>st'. remove_flows now r as st = Some st' \<and> removed now r as st st'"
  using assms
proof (induction as arbitrary: st)
  case Nil
  then show ?case by (simp add: removed_Nil)
next
  case (Cons a as)
  obtain fe where fe: "flows st a = Some fe" using Cons.prems(3) by auto
  obtain st1 where s1: "flow_entry_remove now a r st = Some st1" "removed now r [a] st st1"
    using removed_one [OF Cons.prems(1) fe] by blast
  have "\<forall>b \<in> set as. flows st1 b \<noteq> None" using Cons.prems(2,3) removeds(2) [OF s1(2)] by auto
  then obtain st2 where s2: "remove_flows now r as st1 = Some st2" "removed now r as st1 st2"
    using Cons.IH [OF removeds(1) [OF s1(2)]] Cons.prems(2) by auto
  have "removed now r ([a] @ as) st st2"
    by (rule removed_trans [OF s1(2) s2(2)]) (use Cons.prems(2) in auto)
  then show ?case using s1(1) s2(1) by simp
qed

text \<open>Exchanging the group table for one with sound references.\<close>

lemma tables_ok_groups:
  assumes "tables_ok st" and "group_refs_ok (flows st) G"
  shows "tables_ok (st\<lparr>groups := G\<rparr>)"
proof -
  have "insts_ok (st\<lparr>groups := G\<rparr>) = insts_ok st" by (simp add: insts_ok_def flow_ok_def)
  then show ?thesis using assms by (simp add: tables_ok_def)
qed

lemma group_refs_upd:
  assumes "group_refs_ok F G" and "gok G'" and "gfind G' = (gfind G)(k \<mapsto> e)"
    and "distinct (ge_flow_refs e)"
    and "\<And>a. a \<in> set (ge_flow_refs e) \<Longrightarrow> \<exists>fe g. F a = Some fe \<and> g \<in> set (fe_group_refs fe) \<and> k = ucast g"
  shows "group_refs_ok F G'"
  using assms unfolding group_refs_ok_def by (auto split: if_splits)

lemma group_refs_remove:
  assumes "group_refs_ok F G" and "gok G'" and "gfind G' = (gfind G)(k := None)"
  shows "group_refs_ok F G'"
  using assms unfolding group_refs_ok_def by (auto split: if_splits)

section \<open>The counters of the table\<close>

definition total_buckets :: "group_table \<Rightarrow> nat" where
  "total_buckets G = (\<Sum>k \<in> dom (gfind G). length (gd_buckets (ge_desc (the (gfind G k)))))"

definition group_counts :: "group_table \<Rightarrow> bool" where
  "group_counts G \<longleftrightarrow> gt_entries_num G = of_nat (card (dom (gfind G))) \<and>
     card (dom (gfind G)) \<le> unat GROUP_TABLE_MAX_ENTRIES \<and>
     gt_buckets_num G = of_nat (total_buckets G) \<and> total_buckets G \<le> unat GROUP_TABLE_MAX_BUCKETS"

lemma dom_frame:
  assumes "group_frame G G'"
  shows "dom (gfind G') = dom (gfind G)"
proof -
  have "gfind G' k = None \<longleftrightarrow> gfind G k = None" for k
    using frame_find [OF assms, of k] by (cases "gfind G k") auto
  then show ?thesis by (simp add: dom_def)
qed

lemma total_frame:
  assumes "group_frame G G'"
  shows "total_buckets G' = total_buckets G"
  unfolding total_buckets_def dom_frame [OF assms]
proof (rule sum.cong [OF refl])
  fix k assume "k \<in> dom (gfind G)"
  then obtain e where e: "gfind G k = Some e" by auto
  then show "length (gd_buckets (ge_desc (the (gfind G' k)))) = length (gd_buckets (ge_desc (the (gfind G k))))"
    using frame_find(2) [OF assms e] by auto
qed

lemma group_counts_frame: "group_frame G G' \<Longrightarrow> group_counts G \<Longrightarrow> group_counts G'"
  by (simp add: group_counts_def dom_frame total_frame) (simp add: group_frame_def)

lemma finite_groups: "gok G \<Longrightarrow> finite (dom (gfind G))"
  by (simp add: gok_def ht.finite_dom_find)

lemma total_put:
  assumes "gok G" and "gfind G' = (gfind G)(k \<mapsto> e)"
  shows "total_buckets G' + (case gfind G k of None \<Rightarrow> 0 | Some e' \<Rightarrow> length (gd_buckets (ge_desc e'))) =
    total_buckets G + length (gd_buckets (ge_desc e))"
proof -
  let ?f = "\<lambda>G k. length (gd_buckets (ge_desc (the (gfind G k))))"
  have fin: "finite (dom (gfind G) - {k})" using finite_groups [OF assms(1)] by simp
  have "total_buckets G' = ?f G' k + (\<Sum>x \<in> dom (gfind G) - {k}. ?f G' x)"
    unfolding total_buckets_def using assms(2) sum.insert_remove [OF finite_groups [OF assms(1)], of "?f G'" k] by simp
  also have "(\<Sum>x \<in> dom (gfind G) - {k}. ?f G' x) = (\<Sum>x \<in> dom (gfind G) - {k}. ?f G x)"
    by (rule sum.cong) (simp_all add: assms(2))
  finally have t': "total_buckets G' = length (gd_buckets (ge_desc e)) + (\<Sum>x \<in> dom (gfind G) - {k}. ?f G x)"
    by (simp add: assms(2))
  show ?thesis
  proof (cases "gfind G k")
    case None
    then have "dom (gfind G) - {k} = dom (gfind G)" by auto
    then show ?thesis using t' None by (simp add: total_buckets_def)
  next
    case (Some e')
    then have "total_buckets G = length (gd_buckets (ge_desc e')) + (\<Sum>x \<in> dom (gfind G) - {k}. ?f G x)"
      unfolding total_buckets_def using sum.remove [OF finite_groups [OF assms(1)], of k "?f G"] by auto
    then show ?thesis using t' Some by simp
  qed
qed

lemma total_del:
  assumes "gok G" and "gfind G' = (gfind G)(k := None)" and "gfind G k = Some e"
  shows "total_buckets G = total_buckets G' + length (gd_buckets (ge_desc e))"
    and "card (dom (gfind G)) = Suc (card (dom (gfind G')))"
proof -
  let ?f = "\<lambda>G k. length (gd_buckets (ge_desc (the (gfind G k))))"
  have k: "k \<in> dom (gfind G)" using assms(3) by auto
  have d: "dom (gfind G') = dom (gfind G) - {k}" by (simp add: assms(2))
  have "total_buckets G' = (\<Sum>x \<in> dom (gfind G) - {k}. ?f G x)"
    unfolding total_buckets_def d by (rule sum.cong) (simp_all add: assms(2))
  then show "total_buckets G = total_buckets G' + length (gd_buckets (ge_desc e))"
    unfolding total_buckets_def using sum.remove [OF finite_groups [OF assms(1)] k, of "?f G"] assms(3) by simp
  show "card (dom (gfind G)) = Suc (card (dom (gfind G')))"
    unfolding d using finite_groups [OF assms(1)] k by (rule card.remove)
qed


section \<open>The search for loops\<close>

definition bucket_groups :: "ofl_bucket list \<Rightarrow> u32 list" where
  "bucket_groups bs = concat (map (\<lambda>b. action_groups (actions b)) bs)"

text \<open>The groups a group forwards to.\<close>

definition succs :: "group_table \<Rightarrow> u32 \<Rightarrow> u32 set" where
  "succs G g = (case gfind G (ucast g) of None \<Rightarrow> {} | Some e \<Rightarrow> set (bucket_groups (gd_buckets (ge_desc e))))"

definition edges :: "group_table \<Rightarrow> (u32 \<times> u32) set" where
  "edges G = {(g, h). h \<in> succs G g}"

lemma fold_visit:
  "set (fold (\<lambda>g tbv. if g \<in> V \<or> g \<in> set tbv then tbv else tbv @ [g]) gs xs) = set xs \<union> (set gs - V)"
  "set gs \<subseteq> V \<union> set xs \<Longrightarrow> fold (\<lambda>g tbv. if g \<in> V \<or> g \<in> set tbv then tbv else tbv @ [g]) gs xs = xs"
  by (induction gs arbitrary: xs) auto

lemma is_loop_free_visit_ok:
  "set (is_loop_free_visit bs visited tbv) = set tbv \<union> (set (bucket_groups bs) - set visited)"
  "set (bucket_groups bs) \<subseteq> set visited \<union> set tbv \<Longrightarrow> is_loop_free_visit bs visited tbv = tbv"
  unfolding is_loop_free_visit_def bucket_groups_def by (rule fold_visit, rule fold_visit(2))

lemma visit_group:
  defines "visit G g visited tbv \<equiv>
    (case gfind G (ucast g) of None \<Rightarrow> tbv | Some e \<Rightarrow> is_loop_free_visit (gd_buckets (ge_desc e)) visited tbv)"
  shows "set (visit G g visited tbv) = set tbv \<union> (succs G g - set visited)"
    and "succs G g \<subseteq> set visited \<union> set tbv \<Longrightarrow> visit G g visited tbv = tbv"
  unfolding visit_def succs_def by (auto simp: is_loop_free_visit_ok split: option.splits)

text \<open>What the loop has seen: the start is covered, visited groups have their successors covered, and
  everything covered can be reached from the start.\<close>

definition search_inv :: "group_table \<Rightarrow> u32 \<Rightarrow> u32 set \<Rightarrow> u32 list \<Rightarrow> u32 list \<Rightarrow> bool" where
  "search_inv G gid S visited tbv \<longleftrightarrow> S \<subseteq> set visited \<union> set tbv \<and> gid \<notin> set visited \<and>
     (\<forall>g \<in> set visited. succs G g \<subseteq> set visited \<union> set tbv) \<and> set visited \<union> set tbv \<subseteq> (edges G)\<^sup>* `` S"

lemma search_inv_step:
  assumes inv: "search_inv G gid S visited (g # tbv)" and g: "g \<noteq> gid"
    and t: "set tbv' = set tbv \<union> (succs G g - set visited)"
  shows "search_inv G gid S (visited @ [g]) tbv'"
proof -
  have gr: "g \<in> (edges G)\<^sup>* `` S" using inv by (auto simp: search_inv_def)
  have "succs G g \<subseteq> (edges G)\<^sup>* `` S"
  proof
    fix h assume "h \<in> succs G g"
    then have "(g, h) \<in> edges G" by (simp add: edges_def)
    with gr show "h \<in> (edges G)\<^sup>* `` S" by (meson Image_iff rtrancl.rtrancl_into_rtrancl)
  qed
  then show ?thesis using inv g gr unfolding search_inv_def by (auto simp: t)
qed

lemma search_done:
  assumes "search_inv G gid S visited []"
  shows "gid \<notin> (edges G)\<^sup>* `` S"
proof -
  have "h \<in> set visited" if "(s, h) \<in> (edges G)\<^sup>*" "s \<in> S" for s h
    using that
  proof (induction rule: rtrancl_induct)
    case base
    then show ?case using assms by (auto simp: search_inv_def)
  next
    case (step y z)
    then show ?case using assms by (auto simp: search_inv_def edges_def)
  qed
  then show ?thesis using assms by (auto simp: search_inv_def)
qed

text \<open>The search ends on every table, and answers whether the group can be reached.\<close>

lemma loop_free_loop_ok:
  assumes "gok (groups st)"
  shows "search_inv (groups st) gid S visited tbv \<Longrightarrow>
    loop_free_loop st gid visited tbv = Some (gid \<notin> (edges (groups st))\<^sup>* `` S)"
proof (induction "(card (UNIV - set visited :: u32 set), length tbv)" arbitrary: visited tbv
    rule: wf_induct_rule [OF wf_lex_prod [OF wf_less_than wf_less_than]])
  case (1 visited tbv)
  note IH = 1(1) and inv = 1(2)
  let ?G = "groups st"
  show ?case
  proof (cases tbv)
    case Nil
    then show ?thesis using search_done [of ?G gid S visited] inv by (simp add: loop_free_loop.simps)
  next
    case (Cons g rest)
    show ?thesis
    proof (cases "gid \<in> set tbv")
      case True
      moreover have "gid \<in> (edges ?G)\<^sup>* `` S" using True inv by (auto simp: search_inv_def)
      ultimately show ?thesis unfolding Cons by (simp add: loop_free_loop.simps [of st gid visited "g # rest"])
    next
      case False
      let ?t = "case gfind ?G (ucast g) of None \<Rightarrow> rest | Some e \<Rightarrow> is_loop_free_visit (gd_buckets (ge_desc e)) visited rest"
      have unf: "loop_free_loop st gid visited tbv = loop_free_loop st gid (visited @ [g]) ?t"
        using False unfolding Cons by (subst loop_free_loop.simps) (simp add: group_find_ok assms)
      have inv': "search_inv ?G gid S (visited @ [g]) ?t"
        by (rule search_inv_step [of _ _ _ _ _ rest]) (use inv Cons False visit_group(1) in auto)
      have "((card (UNIV - set (visited @ [g])), length ?t), (card (UNIV - set visited), length tbv)) \<in> less_than <*lex*> less_than"
      proof (cases "g \<in> set visited")
        case True
        then have "succs ?G g \<subseteq> set visited \<union> set rest" using inv Cons by (auto simp: search_inv_def)
        then have "?t = rest" by (rule visit_group(2))
        moreover have "set (visited @ [g]) = set visited" using True by auto
        ultimately show ?thesis using Cons by simp
      next
        case False
        then have "card (UNIV - set (visited @ [g])) < card (UNIV - set visited)"
          by (intro psubset_card_mono) auto
        then show ?thesis by simp
      qed
      from IH [OF this inv'] show ?thesis unfolding unf .
    qed
  qed
qed

lemma is_loop_free_ok:
  assumes "gok (groups st)"
  shows "is_loop_free st m = Some (gm_group_id m \<notin> (edges (groups st))\<^sup>* `` set (bucket_groups (gm_buckets m)))"
  unfolding is_loop_free_def
  by (rule loop_free_loop_ok [OF assms]) (auto simp: search_inv_def is_loop_free_visit_ok)

text \<open>A table without cycles stays without cycles when a group gets successors from which it cannot be
  reached.\<close>

definition redirect :: "('a \<times> 'a) set \<Rightarrow> 'a \<Rightarrow> 'a set \<Rightarrow> ('a \<times> 'a) set" where
  "redirect E g S = {(x, y). x \<noteq> g \<and> (x, y) \<in> E} \<union> {g} \<times> S"

lemma redirect_from:
  assumes S: "\<And>s. s \<in> S \<Longrightarrow> (s, g) \<notin> E\<^sup>*" and "(s, y) \<in> (redirect E g S)\<^sup>*" and "s \<in> S"
  shows "(s, y) \<in> E\<^sup>* \<and> y \<noteq> g"
  using assms(2,3)
proof (induction rule: rtrancl_induct)
  case base
  then show ?case using S [of s] by auto
next
  case (step y z)
  then have "(y, z) \<in> E" by (auto simp: redirect_def)
  then have "(s, z) \<in> E\<^sup>*" using step by (meson rtrancl.rtrancl_into_rtrancl)
  then show ?case using S [OF step.prems] by auto
qed

lemma redirect_trancl:
  assumes "(x, y) \<in> (redirect E g S)\<^sup>+"
  shows "(x, y) \<in> E\<^sup>+ \<or> (\<exists>s \<in> S. (s, y) \<in> (redirect E g S)\<^sup>*)"
  using assms
proof (induction rule: trancl_induct)
  case (base y)
  then show ?case by (auto simp: redirect_def)
next
  case (step y z)
  from step.hyps(2) have "(y, z) \<in> E \<or> z \<in> S" by (auto simp: redirect_def)
  then show ?case using step.IH step.hyps(2)
    by (metis rtrancl.rtrancl_into_rtrancl rtrancl.rtrancl_refl trancl.trancl_into_trancl)
qed

lemma redirect_avoids:
  assumes "(x, y) \<in> (redirect E g S)\<^sup>+" and "\<And>z. (x, z) \<in> (redirect E g S)\<^sup>* \<Longrightarrow> z \<noteq> g"
  shows "(x, y) \<in> E\<^sup>+"
  using assms
proof (induction rule: trancl_induct)
  case (base y)
  then show ?case using base.prems [of x] by (auto simp: redirect_def)
next
  case (step y z)
  then have "y \<noteq> g" by (simp add: trancl_into_rtrancl)
  then have "(y, z) \<in> E" using step.hyps(2) by (auto simp: redirect_def)
  then show ?case using step by (meson trancl.trancl_into_trancl)
qed

lemma acyclic_redirect:
  assumes ac: "acyclic E" and S: "\<And>s. s \<in> S \<Longrightarrow> (s, g) \<notin> E\<^sup>*"
  shows "acyclic (redirect E g S)"
proof (rule acyclicI, rule allI, rule notI)
  fix x assume x: "(x, x) \<in> (redirect E g S)\<^sup>+"
  have "(x, x) \<in> E\<^sup>+"
  proof (cases "\<exists>s \<in> S. (s, x) \<in> (redirect E g S)\<^sup>*")
    case True
    then obtain s where s: "s \<in> S" "(s, x) \<in> (redirect E g S)\<^sup>*" by blast
    show ?thesis
      by (rule redirect_avoids [OF x]) (use redirect_from [OF S rtrancl_trans [OF s(2)] s(1)] in blast)
  next
    case False
    then show ?thesis using redirect_trancl [OF x] by blast
  qed
  then show False using ac by (simp add: acyclic_def)
qed


section \<open>The invariant of the group table\<close>

text \<open>Groups that are named exist, no group can reach itself, and the counters are exact.\<close>

definition groups_closed :: "group_table \<Rightarrow> bool" where
  "groups_closed G \<longleftrightarrow> (\<forall>g h. h \<in> succs G g \<longrightarrow> h \<le> OFPG_MAX \<longrightarrow> gfind G (ucast h) \<noteq> None)"

definition group_ids_ok :: "group_table \<Rightarrow> bool" where
  "group_ids_ok G \<longleftrightarrow> (\<forall>k e. gfind G k = Some e \<longrightarrow>
     (\<exists>g. k = ucast g \<and> g \<le> OFPG_MAX \<and> gs_group_id (ge_stats e) = g))"

definition group_inv :: "group_table \<Rightarrow> bool" where
  "group_inv G \<longleftrightarrow> group_counts G \<and> acyclic (edges G) \<and> groups_closed G \<and> group_ids_ok G"

lemma group_idsD:
  fixes g :: u32
  assumes "group_ids_ok G" and "gfind G (ucast g) = Some e"
  shows "g \<le> OFPG_MAX" and "gs_group_id (ge_stats e) = g"
proof -
  obtain h :: u32 where "(ucast g :: u64) = ucast h" "h \<le> OFPG_MAX" "gs_group_id (ge_stats e) = h"
    using assms unfolding group_ids_ok_def by blast
  then show "g \<le> OFPG_MAX" "gs_group_id (ge_stats e) = g" by simp_all
qed

lemma succs_frame:
  assumes "group_frame G G'"
  shows "succs G' g = succs G g"
  using frame_find [OF assms, of "ucast g"] by (cases "gfind G (ucast g)") (auto simp: succs_def)

lemma group_inv_frame:
  assumes "group_frame G G'" and "group_inv G"
  shows "group_inv G'"
proof -
  have "edges G' = edges G" by (simp add: edges_def succs_frame [OF assms(1)])
  moreover have "groups_closed G'"
    using assms(2) dom_frame [OF assms(1)] unfolding group_inv_def groups_closed_def succs_frame [OF assms(1)] by blast
  moreover have "group_ids_ok G'"
    unfolding group_ids_ok_def
  proof (intro allI impI)
    fix k e' assume e': "gfind G' k = Some e'"
    then obtain e where e: "gfind G k = Some e" using frame_find(1) [OF assms(1), of k] by (cases "gfind G k") auto
    then have "gs_group_id (ge_stats e') = gs_group_id (ge_stats e)" using frame_find(2) [OF assms(1) e] e' by auto
    then show "\<exists>g. k = ucast g \<and> g \<le> OFPG_MAX \<and> gs_group_id (ge_stats e') = g"
      using assms(2) e unfolding group_inv_def group_ids_ok_def by simp
  qed
  ultimately show ?thesis using assms group_counts_frame by (simp add: group_inv_def)
qed

lemma succs_upd:
  assumes "gfind G' = (gfind G)(ucast g := x)"
  shows "succs G' h = (if h = g then (case x of None \<Rightarrow> {} | Some e \<Rightarrow> set (bucket_groups (gd_buckets (ge_desc e)))) else succs G h)"
  by (simp add: succs_def assms)

lemma edges_put:
  assumes "gfind G' = (gfind G)(ucast g \<mapsto> e)"
  shows "edges G' = redirect (edges G) g (set (bucket_groups (gd_buckets (ge_desc e))))"
  by (auto simp: edges_def redirect_def succs_upd [OF assms] split: if_splits)

lemma edges_del:
  fixes g :: u32
  assumes "gfind G' = (gfind G)(ucast g := None)"
  shows "edges G' \<subseteq> edges G"
  by (auto simp: edges_def succs_upd [OF assms] split: if_splits)

lemma create_entry_sel [simp]:
  "gd_buckets (ge_desc (group_entry_create u m)) = gm_buckets m"
  "gs_group_id (ge_stats (group_entry_create u m)) = gm_group_id m"
  "ge_flow_refs (group_entry_create u m) = []"
  by (simp_all add: group_entry_create_def)

section \<open>Validation\<close>

lemma validate_action_ok:
  assumes "gok (groups st)"
  shows "\<exists>r. validate_action ps st a = Some r \<and>
    (r = None \<longrightarrow> (\<forall>g \<in> set (action_groups [a]). g \<le> OFPG_MAX \<longrightarrow> gfind (groups st) (ucast g) \<noteq> None))"
  using assms by (cases a) (auto simp: validate_action_def action_groups_def group_find_ok)

lemma dp_actions_validate_ok:
  assumes "gok (groups st)"
  shows "\<exists>r. dp_actions_validate ps st as = Some r \<and>
    (r = None \<longrightarrow> (\<forall>g \<in> set (action_groups as). g \<le> OFPG_MAX \<longrightarrow> gfind (groups st) (ucast g) \<noteq> None))"
proof (induction as)
  case Nil
  then show ?case by (simp add: action_groups_def)
next
  case (Cons a as)
  obtain r where r: "validate_action ps st a = Some r"
    "r = None \<longrightarrow> (\<forall>g \<in> set (action_groups [a]). g \<le> OFPG_MAX \<longrightarrow> gfind (groups st) (ucast g) \<noteq> None)"
    using validate_action_ok [OF assms] by blast
  have split: "set (action_groups (a # as)) = set (action_groups [a]) \<union> set (action_groups as)"
    by (simp add: action_groups_def)
  show ?case
  proof (cases r)
    case None
    then show ?thesis using r Cons unfolding split by auto
  qed (use r in simp)
qed

lemma validate_buckets_ok:
  assumes "gok (groups st)"
  shows "\<exists>r. validate_buckets ps st bs = Some r \<and>
    (r = None \<longrightarrow> (\<forall>g \<in> set (bucket_groups bs). g \<le> OFPG_MAX \<longrightarrow> gfind (groups st) (ucast g) \<noteq> None))"
proof (induction bs)
  case Nil
  then show ?case by (simp add: bucket_groups_def)
next
  case (Cons b bs)
  obtain r where r: "dp_actions_validate ps st (actions b) = Some r"
    "r = None \<longrightarrow> (\<forall>g \<in> set (action_groups (actions b)). g \<le> OFPG_MAX \<longrightarrow> gfind (groups st) (ucast g) \<noteq> None)"
    using dp_actions_validate_ok [OF assms] by blast
  have split: "set (bucket_groups (b # bs)) = set (action_groups (actions b)) \<union> set (bucket_groups bs)"
    by (simp add: bucket_groups_def)
  show ?case
  proof (cases r)
    case None
    then show ?thesis using r Cons unfolding split by auto
  qed (use r in simp)
qed

section \<open>Adding a group\<close>

lemma of_nat_bound_u64:
  assumes "a \<le> 8192" and "b < 2 ^ 63"
  shows "8192 < of_nat a + (of_nat b :: u64) \<longleftrightarrow> 8192 < a + b"
proof -
  have "unat (of_nat (a + b) :: u64) = a + b"
    using assms by (simp add: unsigned_of_nat take_bit_nat_eq_self del: of_nat_add)
  then show ?thesis by (simp add: word_less_nat_alt)
qed

lemma group_inv_put:
  assumes inv: "group_inv G" and ok: "gok G" and f: "gfind G' = (gfind G)(ucast g \<mapsto> e)"
    and cnt: "group_counts G'" and g: "g \<le> OFPG_MAX" "gs_group_id (ge_stats e) = g"
    and ex: "\<And>h. h \<in> set (bucket_groups (gd_buckets (ge_desc e))) \<Longrightarrow> h \<le> OFPG_MAX \<Longrightarrow> gfind G (ucast h) \<noteq> None"
    and loop: "\<And>h. h \<in> set (bucket_groups (gd_buckets (ge_desc e))) \<Longrightarrow> (h, g) \<notin> (edges G)\<^sup>*"
  shows "group_inv G'"
proof -
  have "acyclic (edges G')" unfolding edges_put [OF f]
    by (rule acyclic_redirect) (use inv loop in \<open>simp_all add: group_inv_def\<close>)
  moreover have "groups_closed G'"
    unfolding groups_closed_def succs_upd [OF f]
    using inv ex unfolding group_inv_def groups_closed_def by (auto simp: f split: if_splits)
  moreover have "group_ids_ok G'" using inv g unfolding group_inv_def group_ids_ok_def by (auto simp: f split: if_splits)
  ultimately show ?thesis using cnt by (simp add: group_inv_def)
qed

text \<open>A group that does not exist is named by no group, so no path leads to it.\<close>

lemma no_path_to_missing:
  assumes "groups_closed G" and "g \<le> OFPG_MAX" and "gfind G (ucast g) = None" and "h \<noteq> g"
  shows "(h, g) \<notin> (edges G)\<^sup>*"
proof
  assume "(h, g) \<in> (edges G)\<^sup>*"
  then obtain x where "(x, g) \<in> edges G" using assms(4) by (metis rtrancl.cases)
  then have "g \<in> succs G x" by (simp add: edges_def)
  then show False using assms(1-3) unfolding groups_closed_def by blast
qed

lemma group_counts_add:
  assumes cnt: "group_counts G" and gk: "gok G" and len: "length (gm_buckets m) < 2 ^ 63"
    and f: "gfind G' = (gfind G)(k \<mapsto> group_entry_create u m)" and new: "gfind G k = None"
    and room: "gt_entries_num G \<noteq> GROUP_TABLE_MAX_ENTRIES"
      "\<not> GROUP_TABLE_MAX_BUCKETS < gt_buckets_num G + bucket_count (gm_buckets m)"
    and num: "gt_entries_num G' = gt_entries_num G + 1" "gt_buckets_num G' = gt_buckets_num G + bucket_count (gm_buckets m)"
  shows "group_counts G'"
proof -
  have c: "card (dom (gfind G')) = Suc (card (dom (gfind G)))"
    using finite_groups [OF gk] new by (simp add: f card_insert_if domIff)
  have t: "total_buckets G' = total_buckets G + length (gm_buckets m)" using total_put [OF gk f] new by simp
  have "card (dom (gfind G)) \<noteq> 4096"
    using cnt room(1) by (auto simp: group_counts_def GROUP_TABLE_MAX_ENTRIES_def)
  then have "card (dom (gfind G')) \<le> 4096" using cnt c by (simp add: group_counts_def GROUP_TABLE_MAX_ENTRIES_def)
  moreover have "total_buckets G' \<le> 8192"
    using room(2) cnt t of_nat_bound_u64 [of "total_buckets G" "length (gm_buckets m)"] len
    by (simp add: group_counts_def GROUP_TABLE_MAX_BUCKETS_def bucket_count_def)
  ultimately show ?thesis using cnt c t num
    by (simp add: group_counts_def GROUP_TABLE_MAX_ENTRIES_def GROUP_TABLE_MAX_BUCKETS_def bucket_count_def)
qed

lemma group_table_add_ok:
  assumes ok: "tables_ok st" and inv: "group_inv (groups st)" and id: "gm_group_id m \<le> OFPG_MAX"
    and len: "length (gm_buckets m) < 2 ^ 63"
    and ex: "\<And>h. h \<in> set (bucket_groups (gm_buckets m)) \<Longrightarrow> h \<le> OFPG_MAX \<Longrightarrow> gfind (groups st) (ucast h) \<noteq> None"
  shows "\<exists>r st'. group_table_add u m st = Some (r, st') \<and> tables_ok st' \<and> group_inv (groups st') \<and>
    (r \<noteq> None \<longrightarrow> st' = st) \<and> (r = None \<longrightarrow> gfind (groups st) (ucast (gm_group_id m)) = None \<and>
      gfind (groups st') = (gfind (groups st))(ucast (gm_group_id m) \<mapsto> group_entry_create u m) \<and>
      st' = st\<lparr>groups := groups st'\<rparr>)"
proof -
  let ?G = "groups st" and ?k = "ucast (gm_group_id m) :: u64"
  have gk: "gok ?G" by (rule tables_okD(1) [OF ok])
  have add: "group_table_add u m st =
      (if gfind ?G ?k \<noteq> None then Some (Some OFPGMFC_GROUP_EXISTS, st)
       else if gt_entries_num ?G = GROUP_TABLE_MAX_ENTRIES then Some (Some OFPGMFC_OUT_OF_GROUPS, st)
       else if GROUP_TABLE_MAX_BUCKETS < gt_buckets_num ?G + bucket_count (gm_buckets m)
       then Some (Some OFPGMFC_OUT_OF_BUCKETS, st)
       else Some (None, st\<lparr>groups := ?G\<lparr>
              gt_entries := hmap_insert (?k, group_entry_create u m) (gt_entries ?G),
              gt_entries_num := gt_entries_num ?G + 1,
              gt_buckets_num := gt_buckets_num ?G + bucket_count (gm_buckets m)\<rparr>\<rparr>))"
    by (simp add: group_table_add_def group_find_ok [OF gk] Let_def)
  show ?thesis
  proof (cases "gfind ?G ?k = None \<and> gt_entries_num ?G \<noteq> GROUP_TABLE_MAX_ENTRIES \<and>
      \<not> GROUP_TABLE_MAX_BUCKETS < gt_buckets_num ?G + bucket_count (gm_buckets m)")
    case False
    then show ?thesis using ok inv unfolding add by auto
  next
    case True
    let ?G' = "?G\<lparr>gt_entries := hmap_insert (?k, group_entry_create u m) (gt_entries ?G),
      gt_entries_num := gt_entries_num ?G + 1, gt_buckets_num := gt_buckets_num ?G + bucket_count (gm_buckets m)\<rparr>"
    have f: "gfind ?G' = (gfind ?G)(?k \<mapsto> group_entry_create u m)" and gk': "gok ?G'"
      using ht.find_put [of "gt_entries ?G" ?k] ht.invar_put [of "gt_entries ?G" ?k] gk True by (simp_all add: gok_def)
    have cnt: "group_counts ?G'" using True by (intro group_counts_add [OF _ gk len f]) (use inv in \<open>simp_all add: group_inv_def\<close>)
    have nog: "(h, gm_group_id m) \<notin> (edges ?G)\<^sup>*" if "h \<in> set (bucket_groups (gm_buckets m))" for h
    proof (rule no_path_to_missing [OF _ id])
      show "groups_closed ?G" "gfind ?G ?k = None" using inv True by (simp_all add: group_inv_def)
      show "h \<noteq> gm_group_id m" using ex [OF that] id True by auto
    qed
    have "group_inv ?G'" by (rule group_inv_put [OF inv gk f cnt id]) (use ex nog in auto)
    moreover have "tables_ok (st\<lparr>groups := ?G'\<rparr>)"
      by (rule tables_ok_groups [OF ok], rule group_refs_upd [OF _ gk' f]) (use ok in \<open>simp_all add: tables_ok_def\<close>)
    ultimately show ?thesis using True f unfolding add by simp
  qed
qed


section \<open>Modifying a group\<close>

lemma group_counts_modify:
  assumes cnt: "group_counts G" and gk: "gok G" and len: "length bs < 2 ^ 63"
    and f: "gfind G' = (gfind G)(k \<mapsto> e')" and old: "gfind G k = Some e" and bs: "gd_buckets (ge_desc e') = bs"
    and n: "n = gt_buckets_num G - bucket_count (gd_buckets (ge_desc e)) + bucket_count bs"
    and room: "\<not> GROUP_TABLE_MAX_BUCKETS < n"
    and num: "gt_entries_num G' = gt_entries_num G" "gt_buckets_num G' = n"
  shows "group_counts G'"
proof -
  let ?l = "length (gd_buckets (ge_desc e))"
  have d: "dom (gfind G') = dom (gfind G)" using old by (auto simp: f)
  have t: "total_buckets G' + ?l = total_buckets G + length bs" using total_put [OF gk f] old bs by simp
  have le: "?l \<le> total_buckets G"
    unfolding total_buckets_def using member_le_sum [of k "dom (gfind G)" "\<lambda>k. length (gd_buckets (ge_desc (the (gfind G k))))"]
      finite_groups [OF gk] old by auto
  have n': "n = of_nat (total_buckets G - ?l) + of_nat (length bs)"
    using cnt le by (simp add: n group_counts_def bucket_count_def of_nat_diff)
  moreover have "total_buckets G' = (total_buckets G - ?l) + length bs" using t le by simp
  moreover have "total_buckets G - ?l \<le> 8192" using cnt by (auto simp: group_counts_def GROUP_TABLE_MAX_BUCKETS_def)
  ultimately have "total_buckets G' \<le> 8192" "n = of_nat (total_buckets G')"
    using room of_nat_bound_u64 [of "total_buckets G - ?l" "length bs"] len by (simp_all add: GROUP_TABLE_MAX_BUCKETS_def)
  then show ?thesis using cnt num by (simp add: group_counts_def d GROUP_TABLE_MAX_BUCKETS_def)
qed

lemma group_table_modify_ok:
  assumes ok: "tables_ok st" and inv: "group_inv (groups st)" and len: "length (gm_buckets m) < 2 ^ 63"
    and ex: "\<And>h. h \<in> set (bucket_groups (gm_buckets m)) \<Longrightarrow> h \<le> OFPG_MAX \<Longrightarrow> gfind (groups st) (ucast h) \<noteq> None"
  shows "\<exists>r st'. group_table_modify now u m st = Some (r, st') \<and> tables_ok st' \<and> group_inv (groups st') \<and>
    (r \<noteq> None \<longrightarrow> st' = st) \<and>
    (r = Some OFPGMFC_LOOP \<longrightarrow> gm_group_id m \<in> (edges (groups st))\<^sup>* `` set (bucket_groups (gm_buckets m))) \<and>
    (r = None \<longrightarrow> (\<exists>e. gfind (groups st) (ucast (gm_group_id m)) = Some e \<and>
      gfind (groups st') = (gfind (groups st))(ucast (gm_group_id m) \<mapsto> (group_entry_create u m)\<lparr>ge_flow_refs := ge_flow_refs e\<rparr>)) \<and>
      st' = st\<lparr>groups := groups st'\<rparr>)"
proof (cases "gfind (groups st) (ucast (gm_group_id m))")
  case None
  then show ?thesis using ok inv tables_okD(1) [OF ok] by (simp add: group_table_modify_def group_find_ok)
next
  case (Some e)
  let ?G = "groups st" and ?g = "gm_group_id m" and ?k = "ucast (gm_group_id m) :: u64" and ?bs = "gm_buckets m"
  let ?n = "gt_buckets_num ?G - bucket_count (gd_buckets (ge_desc e)) + bucket_count ?bs"
  let ?new = "(group_entry_create u m)\<lparr>ge_flow_refs := ge_flow_refs e\<rparr>"
  let ?G' = "?G\<lparr>gt_entries := hmap_insert_fast (?k, ?new) (hmap_remove ?k (gt_entries ?G)), gt_buckets_num := ?n\<rparr>"
  let ?loop = "?g \<in> (edges ?G)\<^sup>* `` set (bucket_groups ?bs)"
  have gk: "gok ?G" by (rule tables_okD(1) [OF ok])
  have md: "group_table_modify now u m st =
      (if GROUP_TABLE_MAX_BUCKETS < ?n then Some (Some OFPGMFC_OUT_OF_BUCKETS, st)
       else if ?loop then Some (Some OFPGMFC_LOOP, st) else Some (None, st\<lparr>groups := ?G'\<rparr>))"
    by (simp add: group_table_modify_def group_find_ok [OF gk] is_loop_free_ok [OF gk] Some Let_def group_entry_destroy_def)
  show ?thesis
  proof (cases "GROUP_TABLE_MAX_BUCKETS < ?n \<or> ?loop")
    case True
    then show ?thesis using ok inv unfolding md by auto
  next
    case False
    have f: "gfind ?G' = (gfind ?G)(?k \<mapsto> ?new)" and gk': "gok ?G'"
      using ht.replace_entry [of "gt_entries ?G" ?k ?new] gk Some by (simp_all add: gok_def)
    have id: "?g \<le> OFPG_MAX" using group_idsD(1) [OF _ Some] inv by (simp add: group_inv_def)
    have cnt: "group_counts ?G'"
      by (rule group_counts_modify [OF _ gk len f Some _ refl]) (use inv False in \<open>simp_all add: group_inv_def\<close>)
    have "group_inv ?G'"
      by (rule group_inv_put [OF inv gk f cnt id]) (use ex False in auto)
    moreover have "tables_ok (st\<lparr>groups := ?G'\<rparr>)"
    proof (rule tables_ok_groups [OF ok], rule group_refs_upd [OF _ gk' f])
      have r: "group_refs_ok (flows st) ?G" using ok by (simp add: tables_ok_def)
      then show "group_refs_ok (flows st) ?G" .
      show "distinct (ge_flow_refs ?new)" using group_refsD(1) [OF r Some] by simp
      show "a \<in> set (ge_flow_refs ?new) \<Longrightarrow> \<exists>fe g. flows st a = Some fe \<and> g \<in> set (fe_group_refs fe) \<and> ?k = ucast g" for a
        using group_refsD(2) [OF r Some, of a] by simp
    qed
    ultimately show ?thesis using False f Some unfolding md by simp
  qed
qed

section \<open>Deleting groups\<close>

lemma has_out_group_iff: "dp_actions_list_has_out_group as g \<longleftrightarrow> g \<in> set (action_groups as)"
  by (induction as) (auto simp: action_groups_def split: ofl_action.splits)

lemma entry_has_out_group_iff: "group_entry_has_out_group e g \<longleftrightarrow> g \<in> set (bucket_groups (gd_buckets (ge_desc e)))"
  by (auto simp: group_entry_has_out_group_def list_ex_iff has_out_group_iff bucket_groups_def)

lemma for_each_groups: "gok G \<Longrightarrow> hmap_for_each (gt_entries G) = Some (hm_elems (gt_entries G))"
  by (simp add: gok_def hmap_ok_def hmap_for_each_elems)

text \<open>The search for a group that refers to the one being deleted.\<close>

lemma referred_iff:
  assumes "gok G" and "group_ids_ok G"
  shows "list_ex (\<lambda>nd. group_entry_has_out_group (snd nd) g) (hm_elems (gt_entries G)) \<longleftrightarrow> (\<exists>x. g \<in> succs G x)"
proof
  assume "list_ex (\<lambda>nd. group_entry_has_out_group (snd nd) g) (hm_elems (gt_entries G))"
  then obtain k e where "(k, e) \<in> set (hm_elems (gt_entries G))" "group_entry_has_out_group e g"
    by (auto simp: list_ex_iff)
  then have "gfind G k = Some e" "g \<in> set (bucket_groups (gd_buckets (ge_desc e)))"
    using assms(1) by (simp_all add: ht.in_elems_iff gok_def entry_has_out_group_iff)
  moreover from this obtain x :: u32 where "k = ucast x" using assms(2) unfolding group_ids_ok_def by blast
  ultimately have "g \<in> succs G x" by (simp add: succs_def)
  then show "\<exists>x. g \<in> succs G x" ..
next
  assume "\<exists>x. g \<in> succs G x"
  then obtain x :: u32 and e where "gfind G (ucast x) = Some e" "g \<in> set (bucket_groups (gd_buckets (ge_desc e)))"
    by (auto simp: succs_def split: option.splits)
  then have "(ucast x, e) \<in> set (hm_elems (gt_entries G))" "group_entry_has_out_group e g"
    using assms(1) by (simp_all add: ht.in_elems_iff gok_def entry_has_out_group_iff)
  then show "list_ex (\<lambda>nd. group_entry_has_out_group (snd nd) g) (hm_elems (gt_entries G))"
    by (force simp: list_ex_iff)
qed

lemma group_inv_del:
  fixes g :: u32
  assumes inv: "group_inv G" and gk: "gok G" and f: "gfind G' = (gfind G)(ucast g := None)" and e: "gfind G (ucast g) = Some e"
    and no: "\<And>x. g \<notin> succs G x" and num: "gt_entries_num G' = gt_entries_num G - 1"
    "gt_buckets_num G' = gt_buckets_num G - bucket_count (gd_buckets (ge_desc e))"
  shows "group_inv G'"
proof -
  note td = total_del [OF gk f e]
  have "group_counts G'" using inv td num by (simp add: group_inv_def group_counts_def bucket_count_def)
  moreover have "acyclic (edges G')"
    using inv acyclic_subset [OF _ edges_del [OF f]] by (simp add: group_inv_def)
  moreover have "groups_closed G'"
    unfolding groups_closed_def
  proof (intro allI impI)
    fix x h assume h: "h \<in> succs G' x" "h \<le> OFPG_MAX"
    then have hx: "h \<in> succs G x" by (auto simp: succs_upd [OF f] split: if_splits)
    then have "h \<noteq> g" using no by blast
    moreover have "gfind G (ucast h) \<noteq> None" using inv hx h(2) unfolding group_inv_def groups_closed_def by blast
    ultimately show "gfind G' (ucast h) \<noteq> None" by (simp add: f)
  qed
  moreover have "group_ids_ok G'" using inv unfolding group_inv_def group_ids_ok_def by (auto simp: f split: if_splits)
  ultimately show ?thesis by (simp add: group_inv_def)
qed

lemma refs_live:
  assumes "tables_ok st" and "gfind (groups st) k = Some e"
  shows "distinct (ge_flow_refs e)" and "\<forall>a \<in> set (ge_flow_refs e). flows st a \<noteq> None"
  using group_refsD [of "flows st" "groups st" k e] assms unfolding tables_ok_def by (blast, fastforce)

lemma group_table_delete_one_ok:
  assumes ok: "tables_ok st" and inv: "group_inv (groups st)" and id: "gm_group_id m \<noteq> OFPG_ALL"
  shows "\<exists>r st'. group_table_delete now m st = Some (r, st') \<and> tables_ok st' \<and> group_inv (groups st') \<and>
    (r \<noteq> None \<longrightarrow> r = Some OFPGMFC_CHAINING_UNSUPPORTED \<and> st' = st \<and> (\<exists>x. gm_group_id m \<in> succs (groups st) x)) \<and>
    (r = None \<longrightarrow> gfind (groups st') (ucast (gm_group_id m)) = None \<and> length (tables st') = length (tables st) \<and>
      next_addr st' = next_addr st \<and> meter_frame (meters st) (meters st') \<and>
      flows st' = (\<lambda>a. if \<exists>e. gfind (groups st) (ucast (gm_group_id m)) = Some e \<and> a \<in> set (ge_flow_refs e)
                       then None else flows st a))"
proof (cases "gfind (groups st) (ucast (gm_group_id m))")
  case None
  then show ?thesis using ok inv id tables_okD(1) [OF ok] by (simp add: group_table_delete_def group_find_ok)
next
  case (Some e)
  let ?G = "groups st" and ?g = "gm_group_id m" and ?k = "ucast (gm_group_id m) :: u64"
  have gk: "gok ?G" by (rule tables_okD(1) [OF ok])
  have ids: "group_ids_ok ?G" "gs_group_id (ge_stats e) = ?g"
    using group_idsD(2) [OF _ Some] inv by (simp_all add: group_inv_def)
  let ?G1 = "?G\<lparr>gt_entries_num := gt_entries_num ?G - 1,
    gt_buckets_num := gt_buckets_num ?G - bucket_count (gd_buckets (ge_desc e)), gt_entries := hmap_remove ?k (gt_entries ?G)\<rparr>"
  have del: "group_table_delete now m st = (if \<exists>x. ?g \<in> succs ?G x then Some (Some OFPGMFC_CHAINING_UNSUPPORTED, st)
      else (case group_entry_destroy now e (st\<lparr>groups := ?G1\<rparr>) of None \<Rightarrow> None | Some st1 \<Rightarrow> Some (None, st1)))"
    using id by (simp add: group_table_delete_def group_find_ok [OF gk] Some for_each_groups [OF gk] ids(2)
        referred_iff [OF gk ids(1)] Let_def split: option.splits)
  show ?thesis
  proof (cases "\<exists>x. ?g \<in> succs ?G x")
    case True
    then show ?thesis using ok inv unfolding del by simp
  next
    case False
    have f: "gfind ?G1 = (gfind ?G)(?k := None)" and gk1: "gok ?G1"
      using ht.find_del [of "gt_entries ?G" ?k] ht.invar_del [of "gt_entries ?G" ?k] gk Some by (simp_all add: gok_def)
    have inv1: "group_inv ?G1" by (rule group_inv_del [OF inv gk f Some]) (use False in auto)
    have ok1: "tables_ok (st\<lparr>groups := ?G1\<rparr>)"
      by (rule tables_ok_groups [OF ok], rule group_refs_remove [OF _ gk1 f]) (use ok in \<open>simp add: tables_ok_def\<close>)
    have live: "\<forall>a \<in> set (ge_flow_refs e). flows (st\<lparr>groups := ?G1\<rparr>) a \<noteq> None" using refs_live(2) [OF ok Some] by simp
    obtain st' where s: "group_entry_destroy now e (st\<lparr>groups := ?G1\<rparr>) = Some st'"
      "removed now OFPRR_GROUP_DELETE (ge_flow_refs e) (st\<lparr>groups := ?G1\<rparr>) st'"
      using remove_flows_ok [OF ok1 refs_live(1) [OF ok Some] live, of now OFPRR_GROUP_DELETE]
      unfolding group_entry_destroy_def by blast
    have fl: "flows st' = (\<lambda>a. if a \<in> set (ge_flow_refs e) then None else flows st a)"
      using removeds(2) [OF s(2)] by (simp add: fun_eq_iff)
    have fr: "group_frame ?G1 (groups st')" using removeds(7) [OF s(2)] by simp
    have "gfind (groups st') ?k = None" using frame_find(1) [OF fr, of ?k] unfolding f by simp
    moreover have "group_inv (groups st')" by (rule group_inv_frame [OF fr inv1])
    ultimately show ?thesis
      using False s(1) removeds(1,3,4,8) [OF s(2)] Some fl unfolding del by simp
  qed
qed


text \<open>Deleting all groups when no flow refers to one.  With references the deletion can read the nodes
  it has freed.\<close>

definition unreferred :: "group_table \<Rightarrow> bool" where
  "unreferred G \<longleftrightarrow> (\<forall>nd \<in> set (hm_elems (gt_entries G)). ge_flow_refs (snd nd) = [])"

lemma destroy_groups_unreferred:
  assumes "\<forall>nd \<in> set nds. \<exists>e. hmap_first_with_hash (gt_entries (groups st)) (fst nd) = Some e \<and> ge_flow_refs e = []"
  shows "\<exists>G. destroy_groups now nds st = Some (st\<lparr>groups := G\<rparr>)"
  using assms
proof (induction nds arbitrary: st)
  case Nil
  then show ?case by (auto intro: exI [of _ "groups st"])
next
  case (Cons nd nds)
  obtain e where e: "hmap_first_with_hash (gt_entries (groups st)) (fst nd) = Some e" "ge_flow_refs e = []"
    using Cons.prems by auto
  let ?st = "st\<lparr>groups := (groups st)\<lparr>gt_freed := fst nd # gt_freed (groups st)\<rparr>\<rparr>"
  obtain G where "destroy_groups now nds ?st = Some (?st\<lparr>groups := G\<rparr>)" using Cons.IH [of ?st] Cons.prems by auto
  then show ?case using e by (auto simp: group_entry_destroy_def)
qed

lemma gfind_create [simp]: "gfind group_table_create = Map.empty"
  by (simp add: fun_eq_iff group_table_create_def ht.find_empty)

lemma group_inv_create: "group_inv group_table_create"
proof -
  have "succs group_table_create g = {}" for g by (simp add: succs_def)
  then show ?thesis
    by (simp add: group_inv_def group_counts_def total_buckets_def edges_def groups_closed_def group_ids_ok_def acyclic_def)
      (simp add: group_table_create_def)
qed

lemma gok_create: "gok group_table_create"
  by (simp add: gok_def group_table_create_def ht.invar_empty)

lemma group_table_delete_all_ok:
  assumes ok: "tables_ok st" and un: "unreferred (groups st)" and id: "gm_group_id m = OFPG_ALL"
  shows "group_table_delete now m st = Some (None, st\<lparr>groups := group_table_create\<rparr>) \<and>
    tables_ok (st\<lparr>groups := group_table_create\<rparr>)"
proof -
  have gk: "gok (groups st)" by (rule tables_okD(1) [OF ok])
  have "\<forall>nd \<in> set (hm_elems (gt_entries (groups st))).
      \<exists>e. hmap_first_with_hash (gt_entries (groups st)) (fst nd) = Some e \<and> ge_flow_refs e = []"
  proof
    fix nd assume nd: "nd \<in> set (hm_elems (gt_entries (groups st)))"
    have "gfind (groups st) (fst nd) = Some (snd nd)"
      by (rule ht.in_elems_iff [THEN iffD1]) (use gk nd in \<open>simp_all add: gok_def\<close>)
    then show "\<exists>e. hmap_first_with_hash (gt_entries (groups st)) (fst nd) = Some e \<and> ge_flow_refs e = []"
      using un nd by (simp add: unreferred_def)
  qed
  then obtain G where "destroy_groups now (hm_elems (gt_entries (groups st))) st = Some (st\<lparr>groups := G\<rparr>)"
    using destroy_groups_unreferred by blast
  then have "group_table_delete now m st = Some (None, st\<lparr>groups := group_table_create\<rparr>)"
    by (simp add: group_table_delete_def id for_each_groups [OF gk] group_table_create_def)
  moreover have "group_refs_ok (flows st) group_table_create"
    unfolding group_refs_ok_def using gok_create by simp
  ultimately show ?thesis using tables_ok_groups [OF ok] by blast
qed

section \<open>The group modification message\<close>

text \<open>What the reader of the message has checked: the identifier is that of a group, or all groups are
  deleted, and the number of buckets fits the message.\<close>

definition group_mod_wf :: "ofl_msg_group_mod \<Rightarrow> bool" where
  "group_mod_wf m \<longleftrightarrow> (gm_group_id m \<le> OFPG_MAX \<or> gm_command m = OFPGC_DELETE \<and> gm_group_id m = OFPG_ALL) \<and>
     length (gm_buckets m) < 2 ^ 63"

lemma group_mod_ok:
  assumes ok: "tables_ok st" and inv: "group_inv (groups st)" and wf: "group_mod_wf m"
    and all: "gm_command m = OFPGC_DELETE \<and> gm_group_id m = OFPG_ALL \<longrightarrow> unreferred (groups st)"
  shows "\<exists>r st'. group_table_handle_group_mod now u ps m role st = Some (r, st') \<and> tables_ok st' \<and> group_inv (groups st') \<and>
    (r \<noteq> None \<longrightarrow> st' = st) \<and> length (tables st') = length (tables st) \<and> meter_frame (meters st) (meters st')"
proof (cases "role = OFPCR_ROLE_SLAVE")
  case True
  then show ?thesis using ok inv by (simp add: group_table_handle_group_mod_def)
next
  case False
  obtain v where v: "validate_buckets ps st (gm_buckets m) = Some v"
    "v = None \<longrightarrow> (\<forall>g \<in> set (bucket_groups (gm_buckets m)). g \<le> OFPG_MAX \<longrightarrow> gfind (groups st) (ucast g) \<noteq> None)"
    using validate_buckets_ok [OF tables_okD(1) [OF ok]] by blast
  show ?thesis
  proof (cases v)
    case (Some e)
    then show ?thesis using v ok inv False by (simp add: group_table_handle_group_mod_def)
  next
    case None
    then have ex: "\<And>h. h \<in> set (bucket_groups (gm_buckets m)) \<Longrightarrow> h \<le> OFPG_MAX \<Longrightarrow> gfind (groups st) (ucast h) \<noteq> None"
      using v by blast
    have len: "length (gm_buckets m) < 2 ^ 63" using wf by (simp add: group_mod_wf_def)
    have h: "group_table_handle_group_mod now u ps m role st =
        (case gm_command m of OFPGC_ADD \<Rightarrow> group_table_add u m st | OFPGC_MODIFY \<Rightarrow> group_table_modify now u m st
         | OFPGC_DELETE \<Rightarrow> group_table_delete now m st | OFPGC_OTHER c \<Rightarrow> Some (Some OFPBRC_BAD_TYPE, st))"
      using v None False by (simp add: group_table_handle_group_mod_def)
    show ?thesis
    proof (cases "gm_command m")
      case OFPGC_ADD
      then have id: "gm_group_id m \<le> OFPG_MAX" using wf by (simp add: group_mod_wf_def)
      obtain r st' where "group_table_add u m st = Some (r, st')" "tables_ok st'" "group_inv (groups st')" "r \<noteq> None \<longrightarrow> st' = st"
        "r = None \<longrightarrow> st' = st\<lparr>groups := groups st'\<rparr>"
        using group_table_add_ok [OF ok inv id len ex, of u] by blast
      then show ?thesis using OFPGC_ADD unfolding h by (cases r) (auto dest: arg_cong [of _ _ tables] arg_cong [of _ _ meters])
    next
      case OFPGC_MODIFY
      obtain r st' where "group_table_modify now u m st = Some (r, st')" "tables_ok st'" "group_inv (groups st')" "r \<noteq> None \<longrightarrow> st' = st"
        "r = None \<longrightarrow> st' = st\<lparr>groups := groups st'\<rparr>"
        using group_table_modify_ok [OF ok inv len ex, of now u] by blast
      then show ?thesis using OFPGC_MODIFY unfolding h by (cases r) (auto dest: arg_cong [of _ _ tables] arg_cong [of _ _ meters])
    next
      case OFPGC_DELETE
      show ?thesis
      proof (cases "gm_group_id m = OFPG_ALL")
        case True
        then show ?thesis using OFPGC_DELETE all group_table_delete_all_ok [OF ok _ True, of now] group_inv_create
          unfolding h by simp
      next
        case id: False
        obtain r st' where "group_table_delete now m st = Some (r, st')" "tables_ok st'" "group_inv (groups st')"
          "r \<noteq> None \<longrightarrow> st' = st" "r = None \<longrightarrow> length (tables st') = length (tables st) \<and> meter_frame (meters st) (meters st')"
          using group_table_delete_one_ok [OF ok inv id, of now] by blast
        then show ?thesis using OFPGC_DELETE unfolding h by (cases r) auto
      qed
    next
      case (OFPGC_OTHER c)
      then show ?thesis using ok inv unfolding h by simp
    qed
  qed
qed

end
