(* ===== verification/Meter_Table.thy ===== *)
theory Meter_Table
  imports Group_Table
begin

text \<open>
  The meter table, \<^verbatim>\<open>udatapath/meter_table.c\<close>: adding, modifying and deleting meters, refilling their
  bands, and the statistics.  The counter of bands is not initialised by the source, so its first
  value is an argument.
\<close>

section \<open>Creation and search\<close>

definition DEFAULT_MAX_METER :: u64 where "DEFAULT_MAX_METER = 256"
definition METER_TABLE_MAX_BANDS :: u64 where "METER_TABLE_MAX_BANDS = 1024"

definition band_count :: "ofl_meter_band list \<Rightarrow> u64" where
  "band_count bs = of_nat (length bs)"

definition meter_table_create :: "u64 \<Rightarrow> meter_table" where
  "meter_table_create uninit = \<lparr>mt_entries_num = 0, mt_entries = hmap_init, mt_freed = [], mt_bands_num = uninit\<rparr>"

section \<open>Adding and modifying\<close>

definition meter_table_add :: "nat \<Rightarrow> ofl_msg_meter_mod \<Rightarrow> dp_tables \<Rightarrow> (ofl_err option \<times> dp_tables) option" where
  "meter_table_add now m st = do {
     r \<leftarrow> meter_table_find st (mm_meter_id m);
     let t = meters st;
     if r \<noteq> None then Some (Some OFPMMFC_METER_EXISTS, st)
     else if mt_entries_num t = DEFAULT_MAX_METER then Some (Some OFPMMFC_OUT_OF_METERS, st)
     else if METER_TABLE_MAX_BANDS < mt_bands_num t + band_count (mm_bands m)
     then Some (Some OFPMMFC_OUT_OF_BANDS, st)
     else Some (None, st\<lparr>meters := t\<lparr>
            mt_entries := hmap_insert (ucast (mm_meter_id m), meter_entry_create now m) (mt_entries t),
            mt_entries_num := mt_entries_num t + 1,
            mt_bands_num := mt_bands_num t + band_count (mm_bands m)\<rparr>\<rparr>)
   }"

definition meter_entry_destroy :: "nat \<Rightarrow> meter_entry \<Rightarrow> dp_tables \<Rightarrow> dp_tables option" where
  "meter_entry_destroy now e st = remove_flows now OFPRR_METER_DELETE (me_flow_refs e) st"

text \<open>The new entry takes over the references, the counters and the duration of the old one.\<close>

definition meter_replacement :: "nat \<Rightarrow> ofl_msg_meter_mod \<Rightarrow> meter_entry \<Rightarrow> meter_entry" where
  "meter_replacement now m e =
    (let new = meter_entry_create now m
     in new\<lparr>me_flow_refs := me_flow_refs e,
            me_stats := (me_stats new)\<lparr>
              ms_flow_count := ms_flow_count (me_stats e),
              ms_packet_in_count := ms_packet_in_count (me_stats e),
              ms_byte_in_count := ms_byte_in_count (me_stats e),
              ms_duration_sec := ms_duration_sec (me_stats e),
              ms_duration_nsec := ms_duration_nsec (me_stats e)\<rparr>\<rparr>)"

definition meter_table_modify :: "nat \<Rightarrow> ofl_msg_meter_mod \<Rightarrow> dp_tables \<Rightarrow> (ofl_err option \<times> dp_tables) option" where
  "meter_table_modify now m st = do {
     r \<leftarrow> meter_table_find st (mm_meter_id m);
     case r of
       None \<Rightarrow> Some (Some OFPMMFC_UNKNOWN_METER, st)
     | Some e \<Rightarrow> do {
         let t = meters st;
         let n = mt_bands_num t - band_count (mc_bands (me_config e)) + band_count (mm_bands m);
         if METER_TABLE_MAX_BANDS < n then Some (Some OFPMMFC_OUT_OF_BANDS, st)
         else do {
           st1 \<leftarrow> meter_entry_destroy now (e\<lparr>me_flow_refs := []\<rparr>)
             (st\<lparr>meters := t\<lparr>mt_entries := hmap_insert_fast (ucast (mm_meter_id m), meter_replacement now m e)
                               (hmap_remove (ucast (mm_meter_id m)) (mt_entries t)),
                            mt_bands_num := n\<rparr>\<rparr>);
           Some (None, st1)
         }
       }
   }"

section \<open>Deleting\<close>

fun destroy_meters :: "nat \<Rightarrow> (u64 \<times> meter_entry) list \<Rightarrow> dp_tables \<Rightarrow> dp_tables option" where
  "destroy_meters now [] st = Some st"
| "destroy_meters now (nd # nds) st = do {
     e \<leftarrow> hmap_first_with_hash (mt_entries (meters st)) (fst nd);
     st1 \<leftarrow> meter_entry_destroy now e st;
     destroy_meters now nds (st1\<lparr>meters := (meters st1)\<lparr>mt_freed := fst nd # mt_freed (meters st1)\<rparr>\<rparr>)
   }"

definition meter_table_delete :: "nat \<Rightarrow> ofl_msg_meter_mod \<Rightarrow> dp_tables \<Rightarrow> (ofl_err option \<times> dp_tables) option" where
  "meter_table_delete now m st =
    (if mm_meter_id m = OFPM_ALL then do {
       nds \<leftarrow> hmap_for_each (mt_entries (meters st));
       st1 \<leftarrow> destroy_meters now nds st;
       Some (None, st1\<lparr>meters := \<lparr>mt_entries_num = 0, mt_entries = hmap_init, mt_freed = [], mt_bands_num = 0\<rparr>\<rparr>)
     } else do {
       r \<leftarrow> meter_table_find st (mm_meter_id m);
       case r of
         None \<Rightarrow> Some (None, st)
       | Some e \<Rightarrow> do {
           let t = meters st;
           st1 \<leftarrow> meter_entry_destroy now e
             (st\<lparr>meters := t\<lparr>mt_entries_num := mt_entries_num t - 1,
                 mt_bands_num := mt_bands_num t - of_nat (length (ms_band_stats (me_stats e))),
                 mt_entries := hmap_remove (ucast (mm_meter_id m)) (mt_entries t)\<rparr>\<rparr>);
           Some (None, st1)
         }
     })"

section \<open>Messages\<close>

definition meter_table_handle_meter_mod ::
    "nat \<Rightarrow> ofl_msg_meter_mod \<Rightarrow> controller_role \<Rightarrow> dp_tables \<Rightarrow> (ofl_err option \<times> dp_tables) option" where
  "meter_table_handle_meter_mod now m role st =
    (if role = OFPCR_ROLE_SLAVE then Some (Some OFPBRC_IS_SLAVE, st)
     else case mm_command m of
       OFPMC_ADD \<Rightarrow> meter_table_add now m st
     | OFPMC_MODIFY \<Rightarrow> meter_table_modify now m st
     | OFPMC_DELETE \<Rightarrow> meter_table_delete now m st
     | OFPMC_OTHER c \<Rightarrow> Some (Some OFPBRC_BAD_TYPE, st))"

definition meter_table_handle_stats_request_meter ::
    "nat \<Rightarrow> u32 \<Rightarrow> dp_tables \<Rightarrow> (ofl_err option \<times> dp_tables) option" where
  "meter_table_handle_stats_request_meter now meter_id st =
    (if meter_id = OFPM_ALL then do {
       nds \<leftarrow> hmap_for_each (mt_entries (meters st));
       let st1 = st\<lparr>meters := (meters st)\<lparr>mt_entries :=
                   fold (\<lambda>k. hmap_write k (meter_entry_update now)) (map fst nds) (mt_entries (meters st))\<rparr>\<rparr>;
       Some (None, send_table_msg (MeterStatsReply (mt_entries_num (meters st))
                     (map (\<lambda>nd. me_stats (meter_entry_update now (snd nd))) nds)) st1)
     } else do {
       r \<leftarrow> meter_table_find st meter_id;
       case r of
         None \<Rightarrow> Some (Some OFPMMFC_UNKNOWN_METER, st)
       | Some e \<Rightarrow> Some (None, send_table_msg (MeterStatsReply 1 [me_stats (meter_entry_update now e)])
                        (write_meter meter_id (meter_entry_update now) st))
     })"

text \<open>The reply with the configurations counts all meters, also when one meter was asked for.\<close>

definition meter_table_handle_stats_request_meter_conf ::
    "u32 \<Rightarrow> dp_tables \<Rightarrow> (ofl_err option \<times> dp_tables) option" where
  "meter_table_handle_stats_request_meter_conf meter_id st =
    (if meter_id = OFPM_ALL then do {
       nds \<leftarrow> hmap_for_each (mt_entries (meters st));
       Some (None, send_table_msg (MeterConfigReply (mt_entries_num (meters st)) (map (\<lambda>nd. me_config (snd nd)) nds)) st)
     } else do {
       r \<leftarrow> meter_table_find st meter_id;
       case r of
         None \<Rightarrow> Some (Some OFPMMFC_UNKNOWN_METER, st)
       | Some e \<Rightarrow> Some (None, send_table_msg (MeterConfigReply (mt_entries_num (meters st)) [me_config e]) st)
     })"

definition meter_table_add_tokens :: "nat \<Rightarrow> dp_tables \<Rightarrow> dp_tables option" where
  "meter_table_add_tokens now st = do {
     nds \<leftarrow> hmap_for_each (mt_entries (meters st));
     Some (st\<lparr>meters := (meters st)\<lparr>mt_entries :=
       fold (\<lambda>k. hmap_write k (refill_bucket now)) (map fst nds) (mt_entries (meters st))\<rparr>\<rparr>)
   }"

definition meter_table_destroy :: "nat \<Rightarrow> dp_tables \<Rightarrow> dp_tables option" where
  "meter_table_destroy now st = do {
     nds \<leftarrow> hmap_for_each (mt_entries (meters st));
     destroy_meters now nds st
   }"


section \<open>The invariant of the meter table\<close>

lemma tables_ok_meters:
  assumes "tables_ok st" and "meter_refs_ok (flows st) M"
  shows "tables_ok (st\<lparr>meters := M\<rparr>)"
proof -
  have "insts_ok (st\<lparr>meters := M\<rparr>) = insts_ok st" by (simp add: insts_ok_def flow_ok_def)
  then show ?thesis using assms by (simp add: tables_ok_def)
qed

lemma meter_refs_upd:
  assumes "meter_refs_ok F M" and "mok M'" and "mfind M' = (mfind M)(k \<mapsto> e)"
    and "distinct (me_flow_refs e)"
    and "\<And>a. a \<in> set (me_flow_refs e) \<Longrightarrow> \<exists>fe m. F a = Some fe \<and> m \<in> set (fe_meter_refs fe) \<and> k = ucast m"
  shows "meter_refs_ok F M'"
  using assms unfolding meter_refs_ok_def by (auto split: if_splits)

lemma meter_refs_remove:
  assumes "meter_refs_ok F M" and "mok M'" and "mfind M' = (mfind M)(k := None)"
  shows "meter_refs_ok F M'"
  using assms unfolding meter_refs_ok_def by (auto split: if_splits)

text \<open>The number of meters is exact and bounded.  The number of bands starts from an unset value.\<close>

definition meter_counts :: "meter_table \<Rightarrow> bool" where
  "meter_counts M \<longleftrightarrow> mt_entries_num M = of_nat (card (dom (mfind M))) \<and>
     card (dom (mfind M)) \<le> unat DEFAULT_MAX_METER"

lemma meter_frame_find:
  assumes "meter_frame M M'"
  shows "mfind M k = None \<longleftrightarrow> mfind M' k = None"
proof -
  have "map_option (\<lambda>e. (me_config e, ms_band_stats (me_stats e))) (mfind M' k) =
      map_option (\<lambda>e. (me_config e, ms_band_stats (me_stats e))) (mfind M k)" using assms by (simp add: meter_frame_def)
  then show ?thesis by (cases "mfind M k"; cases "mfind M' k") simp_all
qed

lemma meter_counts_frame:
  assumes "meter_frame M M'" and "meter_counts M"
  shows "meter_counts M'"
proof -
  have "dom (mfind M') = dom (mfind M)" using meter_frame_find [OF assms(1)] by (simp add: dom_def)
  then show ?thesis using assms by (simp add: meter_counts_def meter_frame_def)
qed

lemma finite_meters: "mok M \<Longrightarrow> finite (dom (mfind M))"
  by (simp add: mok_def ht.finite_dom_find)

lemma for_each_meters: "mok M \<Longrightarrow> hmap_for_each (mt_entries M) = Some (hm_elems (mt_entries M))"
  by (simp add: mok_def hmap_ok_def hmap_for_each_elems)

lemma meter_create_refs [simp]: "me_flow_refs (meter_entry_create now m) = []"
  by (simp add: meter_entry_create_def)

section \<open>Operations keep the invariant\<close>

lemma meter_table_add_ok:
  assumes ok: "tables_ok st" and cnt: "meter_counts (meters st)"
  shows "\<exists>r st'. meter_table_add now m st = Some (r, st') \<and> tables_ok st' \<and> meter_counts (meters st') \<and>
    (r \<noteq> None \<longrightarrow> st' = st) \<and> groups st' = groups st \<and> tables st' = tables st"
proof -
  let ?M = "meters st" and ?k = "ucast (mm_meter_id m) :: u64"
  let ?M' = "?M\<lparr>mt_entries := hmap_insert (?k, meter_entry_create now m) (mt_entries ?M),
      mt_entries_num := mt_entries_num ?M + 1, mt_bands_num := mt_bands_num ?M + band_count (mm_bands m)\<rparr>"
  have mk: "mok ?M" by (rule tables_okD(2) [OF ok])
  have add: "meter_table_add now m st =
      (if mfind ?M ?k \<noteq> None then Some (Some OFPMMFC_METER_EXISTS, st)
       else if mt_entries_num ?M = DEFAULT_MAX_METER then Some (Some OFPMMFC_OUT_OF_METERS, st)
       else if METER_TABLE_MAX_BANDS < mt_bands_num ?M + band_count (mm_bands m) then Some (Some OFPMMFC_OUT_OF_BANDS, st)
       else Some (None, st\<lparr>meters := ?M'\<rparr>))"
    by (simp add: meter_table_add_def meter_find_ok [OF mk] Let_def)
  show ?thesis
  proof (cases "mfind ?M ?k = None \<and> mt_entries_num ?M \<noteq> DEFAULT_MAX_METER \<and>
      \<not> METER_TABLE_MAX_BANDS < mt_bands_num ?M + band_count (mm_bands m)")
    case False
    then show ?thesis using ok cnt unfolding add by auto
  next
    case True
    have f: "mfind ?M' = (mfind ?M)(?k \<mapsto> meter_entry_create now m)" and mk': "mok ?M'"
      using ht.find_put [of "mt_entries ?M" ?k] ht.invar_put [of "mt_entries ?M" ?k] mk True by (simp_all add: mok_def)
    have "card (dom (mfind ?M)) \<noteq> 256" using cnt True by (auto simp: meter_counts_def DEFAULT_MAX_METER_def)
    then have "meter_counts ?M'" using cnt True finite_meters [OF mk] unfolding meter_counts_def f
      by (simp add: card_insert_if domIff DEFAULT_MAX_METER_def)
    moreover have "tables_ok (st\<lparr>meters := ?M'\<rparr>)"
      by (rule tables_ok_meters [OF ok], rule meter_refs_upd [OF _ mk' f]) (use ok in \<open>simp_all add: tables_ok_def\<close>)
    ultimately show ?thesis using True unfolding add by simp
  qed
qed

lemma meter_table_modify_ok:
  assumes ok: "tables_ok st" and cnt: "meter_counts (meters st)"
  shows "\<exists>r st'. meter_table_modify now m st = Some (r, st') \<and> tables_ok st' \<and> meter_counts (meters st') \<and>
    (r \<noteq> None \<longrightarrow> st' = st) \<and> groups st' = groups st \<and> tables st' = tables st"
proof (cases "mfind (meters st) (ucast (mm_meter_id m))")
  case None
  then show ?thesis using ok cnt tables_okD(2) [OF ok] by (simp add: meter_table_modify_def meter_find_ok)
next
  case (Some e)
  let ?M = "meters st" and ?k = "ucast (mm_meter_id m) :: u64"
  let ?n = "mt_bands_num ?M - band_count (mc_bands (me_config e)) + band_count (mm_bands m)"
  let ?M' = "?M\<lparr>mt_entries := hmap_insert_fast (?k, meter_replacement now m e) (hmap_remove ?k (mt_entries ?M)), mt_bands_num := ?n\<rparr>"
  have mk: "mok ?M" by (rule tables_okD(2) [OF ok])
  have md: "meter_table_modify now m st =
      (if METER_TABLE_MAX_BANDS < ?n then Some (Some OFPMMFC_OUT_OF_BANDS, st) else Some (None, st\<lparr>meters := ?M'\<rparr>))"
    by (simp add: meter_table_modify_def meter_find_ok [OF mk] Some Let_def meter_entry_destroy_def)
  have f: "mfind ?M' = (mfind ?M)(?k \<mapsto> meter_replacement now m e)" and mk': "mok ?M'"
    using ht.replace_entry [of "mt_entries ?M" ?k "meter_replacement now m e"] mk Some by (simp_all add: mok_def)
  have "dom (mfind ?M') = dom (mfind ?M)" unfolding f using Some by auto
  then have "meter_counts ?M'" using cnt by (simp add: meter_counts_def)
  moreover have "tables_ok (st\<lparr>meters := ?M'\<rparr>)"
  proof (rule tables_ok_meters [OF ok], rule meter_refs_upd [OF _ mk' f])
    have r: "meter_refs_ok (flows st) ?M" using ok by (simp add: tables_ok_def)
    then show "meter_refs_ok (flows st) ?M" .
    have same: "me_flow_refs (meter_replacement now m e) = me_flow_refs e" by (simp add: meter_replacement_def Let_def)
    show "distinct (me_flow_refs (meter_replacement now m e))" using meter_refsD(1) [OF r Some] by (simp add: same)
    show "a \<in> set (me_flow_refs (meter_replacement now m e)) \<Longrightarrow>
        \<exists>fe m. flows st a = Some fe \<and> m \<in> set (fe_meter_refs fe) \<and> ?k = ucast m" for a
      using meter_refsD(2) [OF r Some, of a] by (simp add: same)
  qed
  ultimately show ?thesis using ok cnt unfolding md by auto
qed

lemma meter_refs_live:
  assumes "tables_ok st" and "mfind (meters st) k = Some e"
  shows "distinct (me_flow_refs e)" and "\<forall>a \<in> set (me_flow_refs e). flows st a \<noteq> None"
  using meter_refsD [of "flows st" "meters st" k e] assms unfolding tables_ok_def by (blast, fastforce)

text \<open>Deleting a meter removes the flows that the meter lists.\<close>

lemma meter_table_delete_one_ok:
  assumes ok: "tables_ok st" and cnt: "meter_counts (meters st)" and id: "mm_meter_id m \<noteq> OFPM_ALL"
  shows "\<exists>st'. meter_table_delete now m st = Some (None, st') \<and> tables_ok st' \<and> meter_counts (meters st') \<and>
    mfind (meters st') (ucast (mm_meter_id m)) = None \<and> length (tables st') = length (tables st) \<and>
    group_frame (groups st) (groups st') \<and>
    flows st' = (\<lambda>a. if \<exists>e. mfind (meters st) (ucast (mm_meter_id m)) = Some e \<and> a \<in> set (me_flow_refs e)
                     then None else flows st a)"
proof (cases "mfind (meters st) (ucast (mm_meter_id m))")
  case None
  then show ?thesis using ok cnt id tables_okD(2) [OF ok] by (simp add: meter_table_delete_def meter_find_ok)
next
  case (Some e)
  let ?M = "meters st" and ?k = "ucast (mm_meter_id m) :: u64"
  let ?M1 = "?M\<lparr>mt_entries_num := mt_entries_num ?M - 1,
    mt_bands_num := mt_bands_num ?M - of_nat (length (ms_band_stats (me_stats e))), mt_entries := hmap_remove ?k (mt_entries ?M)\<rparr>"
  have mk: "mok ?M" by (rule tables_okD(2) [OF ok])
  have f: "mfind ?M1 = (mfind ?M)(?k := None)" and mk1: "mok ?M1"
    using ht.find_del [of "mt_entries ?M" ?k] ht.invar_del [of "mt_entries ?M" ?k] mk Some by (simp_all add: mok_def)
  have k: "?k \<in> dom (mfind ?M)" using Some by auto
  have "card (dom (mfind ?M)) = Suc (card (dom (mfind ?M1)))"
    unfolding f using card.remove [OF finite_meters [OF mk] k] by simp
  then have cnt1: "meter_counts ?M1" using cnt by (simp add: meter_counts_def)
  have ok1: "tables_ok (st\<lparr>meters := ?M1\<rparr>)"
    by (rule tables_ok_meters [OF ok], rule meter_refs_remove [OF _ mk1 f]) (use ok in \<open>simp add: tables_ok_def\<close>)
  have live: "\<forall>a \<in> set (me_flow_refs e). flows (st\<lparr>meters := ?M1\<rparr>) a \<noteq> None" using meter_refs_live(2) [OF ok Some] by simp
  obtain st' where s: "meter_entry_destroy now e (st\<lparr>meters := ?M1\<rparr>) = Some st'"
    "removed now OFPRR_METER_DELETE (me_flow_refs e) (st\<lparr>meters := ?M1\<rparr>) st'"
    using remove_flows_ok [OF ok1 meter_refs_live(1) [OF ok Some] live, of now OFPRR_METER_DELETE]
    unfolding meter_entry_destroy_def by blast
  have fl: "flows st' = (\<lambda>a. if a \<in> set (me_flow_refs e) then None else flows st a)"
    using removeds(2) [OF s(2)] by (simp add: fun_eq_iff)
  have fr: "meter_frame ?M1 (meters st')" "group_frame (groups st) (groups st')"
    using removeds(7,8) [OF s(2)] by simp_all
  have "mfind (meters st') ?k = None" using meter_frame_find [OF fr(1), of ?k] unfolding f by simp
  moreover have "meter_table_delete now m st = Some (None, st')"
    using id s(1) by (simp add: meter_table_delete_def meter_find_ok [OF mk] Some Let_def)
  ultimately show ?thesis
    using removeds(1,3) [OF s(2)] meter_counts_frame [OF fr(1) cnt1] fr(2) fl Some by simp
qed


text \<open>Deleting all meters is safe when no flow refers to a meter.\<close>

definition unmetered :: "meter_table \<Rightarrow> bool" where
  "unmetered M \<longleftrightarrow> (\<forall>nd \<in> set (hm_elems (mt_entries M)). me_flow_refs (snd nd) = [])"

lemma destroy_meters_unmetered:
  assumes "\<forall>nd \<in> set nds. \<exists>e. hmap_first_with_hash (mt_entries (meters st)) (fst nd) = Some e \<and> me_flow_refs e = []"
  shows "\<exists>M. destroy_meters now nds st = Some (st\<lparr>meters := M\<rparr>)"
  using assms
proof (induction nds arbitrary: st)
  case Nil
  then show ?case by (auto intro: exI [of _ "meters st"])
next
  case (Cons nd nds)
  obtain e where e: "hmap_first_with_hash (mt_entries (meters st)) (fst nd) = Some e" "me_flow_refs e = []"
    using Cons.prems by auto
  let ?st = "st\<lparr>meters := (meters st)\<lparr>mt_freed := fst nd # mt_freed (meters st)\<rparr>\<rparr>"
  obtain M where "destroy_meters now nds ?st = Some (?st\<lparr>meters := M\<rparr>)" using Cons.IH [of ?st] Cons.prems by auto
  then show ?case using e by (auto simp: meter_entry_destroy_def)
qed

lemma mfind_create [simp]: "mfind (meter_table_create u) = Map.empty"
  by (simp add: fun_eq_iff meter_table_create_def ht.find_empty)

lemma meter_counts_create: "meter_counts (meter_table_create u)"
  by (simp add: meter_counts_def) (simp add: meter_table_create_def)

lemma mok_create: "mok (meter_table_create u)"
  by (simp add: mok_def meter_table_create_def ht.invar_empty)

lemma meter_table_delete_all_ok:
  assumes ok: "tables_ok st" and un: "unmetered (meters st)" and id: "mm_meter_id m = OFPM_ALL"
  shows "meter_table_delete now m st = Some (None, st\<lparr>meters := meter_table_create 0\<rparr>) \<and>
    tables_ok (st\<lparr>meters := meter_table_create 0\<rparr>)"
proof -
  have mk: "mok (meters st)" by (rule tables_okD(2) [OF ok])
  have "\<forall>nd \<in> set (hm_elems (mt_entries (meters st))).
      \<exists>e. hmap_first_with_hash (mt_entries (meters st)) (fst nd) = Some e \<and> me_flow_refs e = []"
  proof
    fix nd assume nd: "nd \<in> set (hm_elems (mt_entries (meters st)))"
    have "mfind (meters st) (fst nd) = Some (snd nd)"
      by (rule ht.in_elems_iff [THEN iffD1]) (use mk nd in \<open>simp_all add: mok_def\<close>)
    then show "\<exists>e. hmap_first_with_hash (mt_entries (meters st)) (fst nd) = Some e \<and> me_flow_refs e = []"
      using un nd by (simp add: unmetered_def)
  qed
  then obtain M where "destroy_meters now (hm_elems (mt_entries (meters st))) st = Some (st\<lparr>meters := M\<rparr>)"
    using destroy_meters_unmetered by blast
  then have "meter_table_delete now m st = Some (None, st\<lparr>meters := meter_table_create 0\<rparr>)"
    by (simp add: meter_table_delete_def id for_each_meters [OF mk] meter_table_create_def)
  moreover have "meter_refs_ok (flows st) (meter_table_create 0)"
    unfolding meter_refs_ok_def using mok_create by simp
  ultimately show ?thesis using tables_ok_meters [OF ok] by blast
qed

section \<open>The meter modification message\<close>

lemma meter_mod_ok:
  assumes ok: "tables_ok st" and cnt: "meter_counts (meters st)"
    and all: "mm_command m = OFPMC_DELETE \<and> mm_meter_id m = OFPM_ALL \<longrightarrow> unmetered (meters st)"
  shows "\<exists>r st'. meter_table_handle_meter_mod now m role st = Some (r, st') \<and> tables_ok st' \<and> meter_counts (meters st') \<and>
    (r \<noteq> None \<longrightarrow> st' = st) \<and> length (tables st') = length (tables st) \<and> group_frame (groups st) (groups st')"
proof (cases "role = OFPCR_ROLE_SLAVE")
  case True
  then show ?thesis using ok cnt by (simp add: meter_table_handle_meter_mod_def)
next
  case False
  show ?thesis
  proof (cases "mm_command m")
    case OFPMC_ADD
    obtain r st' where "meter_table_add now m st = Some (r, st')" "tables_ok st'" "meter_counts (meters st')"
      "r \<noteq> None \<longrightarrow> st' = st" "groups st' = groups st" "tables st' = tables st"
      using meter_table_add_ok [OF ok cnt, of now m] by blast
    then show ?thesis using OFPMC_ADD False by (simp add: meter_table_handle_meter_mod_def)
  next
    case OFPMC_MODIFY
    obtain r st' where "meter_table_modify now m st = Some (r, st')" "tables_ok st'" "meter_counts (meters st')"
      "r \<noteq> None \<longrightarrow> st' = st" "groups st' = groups st" "tables st' = tables st"
      using meter_table_modify_ok [OF ok cnt, of now m] by blast
    then show ?thesis using OFPMC_MODIFY False by (simp add: meter_table_handle_meter_mod_def)
  next
    case OFPMC_DELETE
    show ?thesis
    proof (cases "mm_meter_id m = OFPM_ALL")
      case True
      then show ?thesis using OFPMC_DELETE False all meter_table_delete_all_ok [OF ok _ True, of now] meter_counts_create
        by (simp add: meter_table_handle_meter_mod_def)
    next
      case id: False
      obtain st' where "meter_table_delete now m st = Some (None, st')" "tables_ok st'" "meter_counts (meters st')"
        "length (tables st') = length (tables st)" "group_frame (groups st) (groups st')"
        using meter_table_delete_one_ok [OF ok cnt id, of now] by blast
      then show ?thesis using OFPMC_DELETE False by (simp add: meter_table_handle_meter_mod_def)
    qed
  next
    case (OFPMC_OTHER c)
    then show ?thesis using ok cnt False by (simp add: meter_table_handle_meter_mod_def)
  qed
qed

end
