(* ===== verification/Table_Safety.thy ===== *)
theory Table_Safety
  imports Meter_Table
begin

text \<open>
  The tables of the datapath under all the operations on them.  A step is one operation with its
  arguments, as the message handlers, the timer and the packet path call it.  The lifetime of the
  array of instructions of a flow modification is part of the step: the reader of the message
  allocates it, and it is freed unless the table kept it.
\<close>

section \<open>Operations on the tables\<close>

definition PIPELINE_TABLES :: nat where "PIPELINE_TABLES = 64"

definition tables_init :: "u64 \<Rightarrow> dp_tables" where
  "tables_init uninit =
    \<lparr>flows = Map.empty, insts = Map.empty, next_addr = 0, groups = group_table_create,
     meters = meter_table_create uninit, tables = map (\<lambda>i. flow_table_create (of_nat i)) [0..<PIPELINE_TABLES],
     table_sent = []\<rparr>"

definition alloc_insts :: "ofl_instruction list \<Rightarrow> dp_tables \<Rightarrow> dp_tables" where
  "alloc_insts is st = st\<lparr>insts := (insts st)(next_addr st \<mapsto> is), next_addr := Suc (next_addr st)\<rparr>"

definition table_flow_mod :: "nat \<Rightarrow> nat \<Rightarrow> ofl_msg_flow_mod \<Rightarrow> dp_tables \<Rightarrow> (ofl_err option \<times> dp_tables) option" where
  "table_flow_mod now ti m st = do {
     let ia = next_addr st;
     (err, kept, st1) \<leftarrow> flow_table_flow_mod now ti m ia (alloc_insts (fm_instructions m) st);
     st2 \<leftarrow> (if kept then Some st1 else free_insts ia st1);
     Some (err, st2)
   }"

fun pipeline_timeout :: "nat \<Rightarrow> nat list \<Rightarrow> dp_tables \<Rightarrow> dp_tables option" where
  "pipeline_timeout now [] st = Some st"
| "pipeline_timeout now (ti # tis) st = do {
     st1 \<leftarrow> flow_table_timeout now ti st;
     pipeline_timeout now tis st1
   }"

datatype table_op =
    FlowModOp nat nat ofl_msg_flow_mod
  | GroupModOp nat nat ports_state ofl_msg_group_mod controller_role
  | MeterModOp nat ofl_msg_meter_mod controller_role
  | TimeoutOp nat
  | LookupOp nat nat packet
  | FlowStatsOp nat nat ofl_msg_multipart_request_flow
  | GroupStatsOp nat u32
  | MeterStatsOp nat u32
  | AddTokensOp nat

definition table_op_step :: "packet_parser \<Rightarrow> table_op \<Rightarrow> dp_tables \<Rightarrow> (ofl_err option \<times> dp_tables) option" where
  "table_op_step parse op st =
    (case op of
       FlowModOp now ti m \<Rightarrow> table_flow_mod now ti m st
     | GroupModOp now uninit ps m role \<Rightarrow> group_table_handle_group_mod now uninit ps m role st
     | MeterModOp now m role \<Rightarrow> meter_table_handle_meter_mod now m role st
     | TimeoutOp now \<Rightarrow> map_option (Pair None) (pipeline_timeout now [0..<PIPELINE_TABLES] st)
     | LookupOp now ti k \<Rightarrow> map_option (\<lambda>(r, k', st'). (None, st')) (flow_table_lookup parse now ti k st)
     | FlowStatsOp now ti msg \<Rightarrow> map_option (\<lambda>(ss, st'). (None, st')) (flow_table_stats now ti msg st)
     | GroupStatsOp now g \<Rightarrow> group_table_handle_stats_request_group now g st
     | MeterStatsOp now g \<Rightarrow> meter_table_handle_stats_request_meter now g st
     | AddTokensOp now \<Rightarrow> map_option (Pair None) (meter_table_add_tokens now st))"

text \<open>
  What an operation needs.  Three of the conditions are on the arguments: the index of a table, and
  what the reader of a group modification checks.  The other three exclude the cases in which the
  source uses freed memory: a modification that matches two entries hands the same instructions to
  both, and the deletion of all groups, or all meters, searches the table it is freeing when a flow
  refers to one of them.
\<close>

definition modifies_one :: "ofl_msg_flow_mod \<Rightarrow> bool \<Rightarrow> nat \<Rightarrow> dp_tables \<Rightarrow> bool" where
  "modifies_one m strict ti st \<longleftrightarrow>
     length (filter (\<lambda>a. case flows st a of None \<Rightarrow> False | Some fe \<Rightarrow> flow_entry_matches fe m strict True)
       (ft_match_entries (tables st ! ti))) \<le> 1"

definition op_safe :: "table_op \<Rightarrow> dp_tables \<Rightarrow> bool" where
  "op_safe op st =
    (case op of
       FlowModOp now ti m \<Rightarrow> ti < PIPELINE_TABLES \<and>
         (fm_command m = OFPFC_MODIFY \<longrightarrow> modifies_one m False ti st) \<and>
         (fm_command m = OFPFC_MODIFY_STRICT \<longrightarrow> modifies_one m True ti st)
     | GroupModOp now uninit ps m role \<Rightarrow> group_mod_wf m \<and>
         (gm_command m = OFPGC_DELETE \<and> gm_group_id m = OFPG_ALL \<longrightarrow> unreferred (groups st))
     | MeterModOp now m role \<Rightarrow>
         mm_command m = OFPMC_DELETE \<and> mm_meter_id m = OFPM_ALL \<longrightarrow> unmetered (meters st)
     | LookupOp now ti k \<Rightarrow> ti < PIPELINE_TABLES
     | FlowStatsOp now ti msg \<Rightarrow> ti < PIPELINE_TABLES
     | _ \<Rightarrow> True)"

inductive tables_reach :: "packet_parser \<Rightarrow> dp_tables \<Rightarrow> bool" for parse where
  reach_init: "tables_reach parse (tables_init uninit)"
| reach_op: "tables_reach parse st \<Longrightarrow> op_safe op st \<Longrightarrow> table_op_step parse op st = Some (r, st') \<Longrightarrow>
    tables_reach parse st'"

definition switch_ok :: "dp_tables \<Rightarrow> bool" where
  "switch_ok st \<longleftrightarrow> tables_ok st \<and> group_inv (groups st) \<and> meter_counts (meters st) \<and> length (tables st) = PIPELINE_TABLES"

lemma switch_okD:
  assumes "switch_ok st"
  shows "tables_ok st" "group_inv (groups st)" "meter_counts (meters st)" "length (tables st) = PIPELINE_TABLES"
  using assms by (simp_all add: switch_ok_def)

section \<open>The initial state\<close>

lemma switch_ok_init: "switch_ok (tables_init u)"
proof -
  have "listed Map.empty ti (flow_table_create i)" for ti i
    by (simp add: listed_def flow_table_create_def members_def)
  then show ?thesis
    by (simp add: switch_ok_def tables_init_def tables_ok_def group_refs_ok_def meter_refs_ok_def insts_ok_def gok_create
      mok_create group_inv_create meter_counts_create)
qed

section \<open>Flow modifications\<close>

lemma alloc_ok:
  assumes "tables_ok st"
  shows "tables_ok (alloc_insts is st)" and "fresh_insts (alloc_insts is st) (next_addr st) is"
proof -
  let ?st = "alloc_insts is st"
  have lt: "fs_instructions (fe_stats fe) < next_addr st" if "flows st a = Some fe" for a fe
    using assms that unfolding tables_ok_def insts_ok_def by blast
  have "flow_ok ?st fe = flow_ok st fe" if "flows st a = Some fe" for a fe
    using lt [OF that] by (simp add: flow_ok_def alloc_insts_def)
  moreover have "flows ?st = flows st" "next_addr ?st = Suc (next_addr st)" "tables ?st = tables st"
    "groups ?st = groups st" "meters ?st = meters st" "insts ?st = (insts st)(next_addr st \<mapsto> is)"
    by (simp_all add: alloc_insts_def)
  note sel = this
  moreover have "insts_ok st" using assms by (simp add: tables_ok_def)
  ultimately have "insts_ok ?st" unfolding insts_ok_def sel by (metis less_SucI)
  then show "tables_ok ?st" using assms by (simp add: tables_ok_def sel)
  show "fresh_insts ?st (next_addr st) is"
    unfolding fresh_insts_def sel using lt by fastforce
qed

text \<open>An array that no entry uses can be freed.\<close>

lemma free_ok:
  assumes ok: "tables_ok st" and ia: "insts st ia = Some is" "\<And>a fe. flows st a = Some fe \<Longrightarrow> fs_instructions (fe_stats fe) \<noteq> ia"
  shows "\<exists>st'. free_insts ia st = Some st' \<and> st' = st\<lparr>insts := (insts st)(ia := None)\<rparr> \<and> tables_ok st'"
proof -
  let ?st = "st\<lparr>insts := (insts st)(ia := None)\<rparr>"
  have "flow_ok ?st fe = flow_ok st fe" if "flows st a = Some fe" for a fe
    using ia(2) [OF that] by (simp add: flow_ok_def)
  moreover have "insts_ok st" using ok by (simp add: tables_ok_def)
  ultimately have "insts_ok ?st" unfolding insts_ok_def by simp
  then show ?thesis using ok ia(1) by (simp add: tables_ok_def free_insts_def)
qed


lemma delete_walk_keeps:
  assumes "tables_ok st" and "distinct as" and "\<forall>a \<in> set as. flows st a \<noteq> None"
    and "\<forall>a fe. flows st a = Some fe \<longrightarrow> fs_instructions (fe_stats fe) \<noteq> ia"
    and "delete_walk now m strict as st = Some st'"
  shows "insts st' ia = insts st ia"
  using assms
proof (induction as arbitrary: st)
  case Nil
  then show ?case by simp
next
  case (Cons a as)
  obtain fe where fe: "flows st a = Some fe" using Cons.prems(3) by auto
  obtain ok where o: "out_filter st fe (fm_out_port m) (fm_out_group m) = Some ok"
    using out_filter_live [OF tables_okD(4) [OF Cons.prems(1) fe]] by blast
  show ?case
  proof (cases "ok \<and> flow_entry_matches fe m strict True")
    case True
    obtain st1 where s1: "flow_entry_remove now a OFPRR_DELETE st = Some st1" "tables_ok st1"
      "flows st1 = (flows st)(a := None)" "insts st1 = (insts st)(fs_instructions (fe_stats fe) := None)"
      using flow_entry_remove_ok [OF Cons.prems(1) fe] by blast
    have "\<forall>b \<in> set as. flows st1 b \<noteq> None" using Cons.prems(2,3) by (auto simp: s1(3))
    moreover have "\<forall>b fe'. flows st1 b = Some fe' \<longrightarrow> fs_instructions (fe_stats fe') \<noteq> ia"
      using Cons.prems(4) by (simp add: s1(3))
    moreover have "delete_walk now m strict as st1 = Some st'" using Cons.prems(5) fe o True s1(1) by simp
    ultimately have "insts st' ia = insts st1 ia" using Cons.IH [OF s1(2)] Cons.prems(2) by simp
    then show ?thesis using Cons.prems(4) fe by (auto simp: s1(4))
  next
    case False
    then show ?thesis using Cons.IH [OF Cons.prems(1)] Cons.prems(2-) fe o by auto
  qed
qed

text \<open>The result of a flow modification on its table.\<close>

definition flow_mod_result :: "ofl_err option \<Rightarrow> dp_tables \<Rightarrow> dp_tables \<Rightarrow> bool" where
  "flow_mod_result err st st' \<longleftrightarrow> tables_ok st' \<and> length (tables st') = length (tables st) \<and>
     group_frame (groups st) (groups st') \<and> meter_frame (meters st) (meters st') \<and>
     (err \<noteq> None \<longrightarrow> flows st' = flows st \<and> tables st' = tables st \<and> groups st' = groups st \<and> meters st' = meters st)"

lemma alloc_sel [simp]:
  "flows (alloc_insts is st) = flows st" "tables (alloc_insts is st) = tables st"
  "groups (alloc_insts is st) = groups st" "meters (alloc_insts is st) = meters st"
  "table_sent (alloc_insts is st) = table_sent st" "insts (alloc_insts is st) (next_addr st) = Some is"
  by (simp_all add: alloc_insts_def)

lemma not_kept_ok:
  assumes "tables_ok st" and "length (tables st') = length (tables st)"
    and "tables_ok st'" "group_frame (groups st) (groups st')" "meter_frame (meters st) (meters st')"
    and "insts st' ia = Some is" "\<And>a fe. flows st' a = Some fe \<Longrightarrow> fs_instructions (fe_stats fe) \<noteq> ia"
    and "err \<noteq> None \<Longrightarrow> flows st' = flows st \<and> tables st' = tables st \<and> groups st' = groups st \<and> meters st' = meters st"
  shows "\<exists>st2. free_insts ia st' = Some st2 \<and> flow_mod_result err st st2"
proof -
  obtain st2 where "free_insts ia st' = Some st2" "st2 = st'\<lparr>insts := (insts st')(ia := None)\<rparr>" "tables_ok st2"
    using free_ok [OF assms(3,6)] assms(7) by metis
  then show ?thesis using assms by (simp add: flow_mod_result_def)
qed

lemma table_add_ok:
  assumes ok: "tables_ok st" and ti: "ti < length (tables st)" and cmd: "fm_command m = OFPFC_ADD"
  shows "\<exists>err st'. table_flow_mod now ti m st = Some (err, st') \<and> flow_mod_result err st st'"
proof -
  let ?a = "alloc_insts (fm_instructions m) st" and ?ia = "next_addr st"
  let ?ov = "fm_flags m AND OFPFF_CHECK_OVERLAP \<noteq> 0"
  note al = alloc_ok [OF ok, of "fm_instructions m"]
  have ti': "ti < length (tables ?a)" using ti by simp
  have h: "flow_table_flow_mod now ti m ?ia ?a = flow_table_add now ti m ?ia ?ov ?a"
    using ti cmd by (simp add: flow_table_flow_mod_def)
  have unused: "\<And>a fe. flows ?a a = Some fe \<Longrightarrow> fs_instructions (fe_stats fe) \<noteq> ?ia"
    using al(2) unfolding fresh_insts_def by blast
  have free: "\<exists>st2. free_insts ?ia ?a = Some st2 \<and> flow_mod_result (Some e) st st2" for e
    by (rule not_kept_ok [OF ok _ al(1) _ _ _ unused]) simp_all
  consider e where "flow_table_add now ti m ?ia ?ov ?a = Some (Some e, False, ?a)"
    | st' where "flow_table_add now ti m ?ia ?ov ?a = Some (None, True, st')" "added now ti m ?ia (fm_instructions m) ?a st'"
    using flow_table_add_ok [OF al(1) ti' al(2), of now m ?ov] by blast
  then show ?thesis
  proof cases
    case 1
    then show ?thesis using free [of e] by (auto simp: table_flow_mod_def h Let_def)
  next
    case 2
    then have "flow_mod_result None st st'" by (simp add: added_def flow_mod_result_def)
    then show ?thesis using 2(1) by (simp add: table_flow_mod_def h Let_def)
  qed
qed


lemma table_delete_ok:
  assumes ok: "tables_ok st" and ti: "ti < length (tables st)"
    and cmd: "fm_command m = (if strict then OFPFC_DELETE_STRICT else OFPFC_DELETE)"
  shows "\<exists>st'. table_flow_mod now ti m st = Some (None, st') \<and> flow_mod_result None st st' \<and>
    flows st' = (\<lambda>a. if a \<in> members (flows st) ti \<and> selected m strict (alloc_insts (fm_instructions m) st) a then None
                     else flows st a)"
proof -
  let ?a = "alloc_insts (fm_instructions m) st" and ?ia = "next_addr st"
  let ?xs = "filter (selected m strict ?a) (ft_match_entries (tables ?a ! ti))"
  note al = alloc_ok [OF ok, of "fm_instructions m"]
  have ti': "ti < length (tables ?a)" using ti by simp
  have h: "flow_table_flow_mod now ti m ?ia ?a = flow_table_delete now ti m strict ?a"
    using ti cmd by (simp add: flow_table_flow_mod_def split: if_splits)
  obtain st1 where d: "flow_table_delete now ti m strict ?a = Some (None, False, st1)" "removed now OFPRR_DELETE ?xs ?a st1"
    using flow_table_delete_ok [OF al(1) ti', of now m strict] by blast
  have w: "delete_walk now m strict (ft_match_entries (tables ?a ! ti)) ?a = Some st1"
    using d(1) unfolding flow_table_delete_def by (auto split: bind_splits)
  have unused: "\<forall>a fe. flows ?a a = Some fe \<longrightarrow> fs_instructions (fe_stats fe) \<noteq> ?ia"
    using al(2) unfolding fresh_insts_def by blast
  have l: "distinct (ft_match_entries (tables ?a ! ti))" "set (ft_match_entries (tables ?a ! ti)) = members (flows st) ti"
    using tables_okD(3) [OF al(1) ti'] by (simp_all add: listed_def)
  have "insts st1 ?ia = insts ?a ?ia"
    by (rule delete_walk_keeps [OF al(1) l(1) _ unused w]) (use l(2) in \<open>auto simp: members_def\<close>)
  then have ins: "insts st1 ?ia = Some (fm_instructions m)" by simp
  have fl: "flows st1 = (\<lambda>a. if a \<in> set ?xs then None else flows st a)" unfolding removeds(2) [OF d(2)] by (simp add: fun_eq_iff)
  have un1: "fs_instructions (fe_stats fe) \<noteq> ?ia" if "flows st1 a = Some fe" for a fe
    using that unused by (simp add: fl split: if_splits)
  obtain st2 where s2: "free_insts ?ia st1 = Some st2" "st2 = st1\<lparr>insts := (insts st1)(?ia := None)\<rparr>" "tables_ok st2"
    using free_ok [OF removeds(1) [OF d(2)] ins] un1 by metis
  have "flow_mod_result None st st2" using s2(3) removeds(3,7,8) [OF d(2)] by (simp add: flow_mod_result_def s2(2))
  moreover have "flows st2 = (\<lambda>a. if a \<in> members (flows st) ti \<and> selected m strict ?a a then None else flows st a)"
    using l(2) by (simp add: s2(2) fl)
  moreover have "table_flow_mod now ti m st = Some (None, st2)" using d(1) s2(1) by (simp add: table_flow_mod_def h Let_def)
  ultimately show ?thesis by blast
qed

lemma modifies_one_cases:
  assumes "modifies_one m strict ti st" and "listed (flows st) ti (tables st ! ti)"
  obtains "\<And>b fe'. b \<in> members (flows st) ti \<Longrightarrow> flows st b = Some fe' \<Longrightarrow> \<not> flow_entry_matches fe' m strict True"
  | a fe where "a \<in> members (flows st) ti" "flows st a = Some fe" "flow_entry_matches fe m strict True"
      "\<And>b fe'. b \<noteq> a \<Longrightarrow> b \<in> members (flows st) ti \<Longrightarrow> flows st b = Some fe' \<Longrightarrow> \<not> flow_entry_matches fe' m strict True"
proof -
  let ?P = "\<lambda>a. case flows st a of None \<Rightarrow> False | Some fe \<Rightarrow> flow_entry_matches fe m strict True"
  let ?ys = "filter ?P (ft_match_entries (tables st ! ti))"
  have set: "set ?ys = {a \<in> members (flows st) ti. ?P a}" using assms(2) by (simp add: listed_def)
  have "?ys = [] \<or> (\<exists>a. ?ys = [a])" using assms(1) unfolding modifies_one_def
    by (cases ?ys) (auto simp: Suc_le_eq)
  then show thesis
  proof
    assume "?ys = []"
    then have "{a \<in> members (flows st) ti. ?P a} = {}" using set by simp
    then have "\<not> flow_entry_matches fe' m strict True" if "b \<in> members (flows st) ti" "flows st b = Some fe'" for b fe'
      using that by force
    then show thesis using that(1) by blast
  next
    assume "\<exists>a. ?ys = [a]"
    then obtain a where "?ys = [a]" by blast
    then have "{a \<in> members (flows st) ti. ?P a} = {a}" using set by (metis empty_set list.simps(15))
    then have a: "b \<in> members (flows st) ti \<and> ?P b \<longleftrightarrow> b = a" for b by blast
    obtain fe where "flows st a = Some fe" "flow_entry_matches fe m strict True" using a [of a] by (auto split: option.splits)
    moreover have "\<not> flow_entry_matches fe' m strict True"
      if "b \<noteq> a" "b \<in> members (flows st) ti" "flows st b = Some fe'" for b fe'
      using a [of b] that by auto
    ultimately show thesis using that(2) [of a fe] a [of a] by blast
  qed
qed

lemma table_modify_ok:
  assumes ok: "tables_ok st" and ti: "ti < length (tables st)" and one: "modifies_one m strict ti st"
    and cmd: "fm_command m = (if strict then OFPFC_MODIFY_STRICT else OFPFC_MODIFY)"
  shows "\<exists>st'. table_flow_mod now ti m st = Some (None, st') \<and> flow_mod_result None st st'"
proof -
  let ?a = "alloc_insts (fm_instructions m) st" and ?ia = "next_addr st"
  note al = alloc_ok [OF ok, of "fm_instructions m"]
  have ti': "ti < length (tables ?a)" using ti by simp
  have h: "flow_table_flow_mod now ti m ?ia ?a = flow_table_modify ti m ?ia strict ?a"
    using ti cmd by (simp add: flow_table_flow_mod_def split: if_splits)
  have l: "listed (flows ?a) ti (tables ?a ! ti)" by (rule tables_okD(3) [OF al(1) ti'])
  have one': "modifies_one m strict ti ?a" using one by (simp add: modifies_one_def)
  have unused: "\<And>a fe. flows ?a a = Some fe \<Longrightarrow> fs_instructions (fe_stats fe) \<noteq> ?ia"
    using al(2) unfolding fresh_insts_def by blast
  from one' l show ?thesis
  proof (cases rule: modifies_one_cases)
    case 1
    have "\<exists>st2. free_insts ?ia ?a = Some st2 \<and> flow_mod_result None st st2"
      by (rule not_kept_ok [OF ok _ al(1) _ _ _ unused]) simp_all
    moreover have "flow_table_modify ti m ?ia strict ?a = Some (None, False, ?a)"
      by (rule flow_table_modify_none [OF al(1) ti']) (rule 1)
    ultimately show ?thesis by (auto simp: table_flow_mod_def h Let_def)
  next
    case (2 a fe)
    obtain st' where "flow_table_modify ti m ?ia strict ?a = Some (None, True, st')" "tables_ok st'" "tables st' = tables ?a"
      "group_frame (groups ?a) (groups st')" "meters st' = meters ?a"
      using flow_table_modify_one [OF al(1) ti' al(2) 2(1-3)] 2(4) by blast
    then show ?thesis by (simp add: table_flow_mod_def h Let_def flow_mod_result_def)
  qed
qed

lemma table_flow_mod_ok:
  assumes ok: "tables_ok st" and n: "length (tables st) = PIPELINE_TABLES" and safe: "op_safe (FlowModOp now ti m) st"
  shows "\<exists>err st'. table_flow_mod now ti m st = Some (err, st') \<and> flow_mod_result err st st'"
proof -
  have ti: "ti < length (tables st)" using safe n by (simp add: op_safe_def)
  show ?thesis
  proof (cases "fm_command m")
    case OFPFC_ADD
    then show ?thesis by (rule table_add_ok [OF ok ti])
  next
    case OFPFC_MODIFY
    then have "modifies_one m False ti st" using safe by (simp add: op_safe_def)
    then show ?thesis using table_modify_ok [OF ok ti, of m False now] OFPFC_MODIFY by auto
  next
    case OFPFC_MODIFY_STRICT
    then have "modifies_one m True ti st" using safe by (simp add: op_safe_def)
    then show ?thesis using table_modify_ok [OF ok ti, of m True now] OFPFC_MODIFY_STRICT by auto
  next
    case OFPFC_DELETE
    then show ?thesis using table_delete_ok [OF ok ti, of m False now] by auto
  next
    case OFPFC_DELETE_STRICT
    then show ?thesis using table_delete_ok [OF ok ti, of m True now] by auto
  next
    case (OFPFC_OTHER c)
    let ?a = "alloc_insts (fm_instructions m) st"
    note al = alloc_ok [OF ok, of "fm_instructions m"]
    have unused: "\<And>a fe. flows ?a a = Some fe \<Longrightarrow> fs_instructions (fe_stats fe) \<noteq> next_addr st"
      using al(2) unfolding fresh_insts_def by blast
    have "\<exists>st2. free_insts (next_addr st) ?a = Some st2 \<and> flow_mod_result (Some OFPFMFC_BAD_COMMAND) st st2"
      by (rule not_kept_ok [OF ok _ al(1) _ _ _ unused]) simp_all
    then show ?thesis using ti OFPFC_OTHER by (auto simp: table_flow_mod_def flow_table_flow_mod_def Let_def)
  qed
qed


section \<open>Timeouts, lookups, statistics\<close>

definition framed :: "dp_tables \<Rightarrow> dp_tables \<Rightarrow> bool" where
  "framed st st' \<longleftrightarrow> tables_ok st' \<and> length (tables st') = length (tables st) \<and>
     group_frame (groups st) (groups st') \<and> meter_frame (meters st) (meters st')"

lemma framed_ok:
  assumes "framed st st'" and "switch_ok st"
  shows "switch_ok st'"
  using assms group_inv_frame meter_counts_frame unfolding framed_def switch_ok_def by auto

lemma framed_trans: "framed st st1 \<Longrightarrow> framed st1 st2 \<Longrightarrow> framed st st2"
  unfolding framed_def using frame_trans by auto

text \<open>The timer removes from every table exactly the entries that are due.\<close>

definition due :: "nat \<Rightarrow> dp_tables \<Rightarrow> addr \<Rightarrow> bool" where
  "due now st a \<longleftrightarrow> expired hard_expired now st a \<or> expired idle_expired now st a"

lemma pipeline_timeout_ok:
  assumes "tables_ok st" and "set tis \<subseteq> {..<length (tables st)}"
  shows "\<exists>st'. pipeline_timeout now tis st = Some st' \<and> framed st st' \<and>
    flows st' = (\<lambda>a. if (\<exists>ti \<in> set tis. a \<in> members (flows st) ti) \<and> due now st a then None else flows st a)"
  using assms
proof (induction tis arbitrary: st)
  case Nil
  then show ?case by (simp add: framed_def)
next
  case (Cons ti tis)
  obtain st1 where s1: "flow_table_timeout now ti st = Some st1" "tables_ok st1"
    "flows st1 = (\<lambda>a. if a \<in> members (flows st) ti \<and> (expired hard_expired now st a \<or> expired idle_expired now st a) then None else flows st a)"
    "length (tables st1) = length (tables st)"
    "group_frame (groups st) (groups st1)" "meter_frame (meters st) (meters st1)"
    using flow_table_timeout_ok [OF Cons.prems(1), of ti now] Cons.prems(2) by auto
  have fl: "flows st1 = (\<lambda>a. if a \<in> members (flows st) ti \<and> due now st a then None else flows st a)"
    using s1(3) by (simp add: due_def)
  have "set tis \<subseteq> {..<length (tables st1)}" using Cons.prems(2) s1(4) by simp
  then obtain st2 where s2: "pipeline_timeout now tis st1 = Some st2" "framed st1 st2"
    "flows st2 = (\<lambda>a. if (\<exists>ti \<in> set tis. a \<in> members (flows st1) ti) \<and> due now st1 a then None else flows st1 a)"
    using Cons.IH [OF s1(2)] by blast
  have "flows st2 a = (if (\<exists>ti \<in> set (ti # tis). a \<in> members (flows st) ti) \<and> due now st a then None else flows st a)" for a
  proof (cases "a \<in> members (flows st) ti \<and> due now st a")
    case True
    then have "flows st1 a = None" by (simp add: fl)
    then show ?thesis using True by (simp add: s2(3))
  next
    case False
    then have same: "flows st1 a = flows st a" by (auto simp: fl)
    then have "due now st1 a = due now st a" "\<And>tj. a \<in> members (flows st1) tj \<longleftrightarrow> a \<in> members (flows st) tj"
      by (simp_all add: due_def expired_def members_def)
    then show ?thesis using False same by (simp add: s2(3)) blast
  qed
  moreover have "framed st st2" by (rule framed_trans [OF _ s2(2)]) (use s1 in \<open>simp add: framed_def\<close>)
  ultimately show ?case using s1(1) s2(1) by (simp add: fun_eq_iff)
qed

lemma stats_walk_ok:
  assumes "tables_ok st" and "\<forall>a \<in> set as. flows st a \<noteq> None"
  shows "\<exists>ss st'. stats_walk now msg as st = Some (ss, st') \<and> framed st st'"
  using assms
proof (induction as arbitrary: st)
  case Nil
  then show ?case by (simp add: framed_def)
next
  case (Cons a as)
  obtain fe where fe: "flows st a = Some fe" using Cons.prems(2) by auto
  obtain ok where o: "out_filter st fe (rf_out_port msg) (rf_out_group msg) = Some ok"
    using out_filter_live [OF tables_okD(4) [OF Cons.prems(1) fe]] by blast
  show ?case
  proof (cases "ok \<and> match_std_nonstrict (rf_match msg) (fs_match (fe_stats fe))")
    case True
    let ?st = "set_flow a (flow_entry_update now fe) st"
    have ok1: "tables_ok ?st"
      by (rule tables_ok_set_flow [OF Cons.prems(1) fe]) (simp_all add: flow_entry_update_def fkey_def)
    have "\<forall>b \<in> set as. flows ?st b \<noteq> None" using Cons.prems(2) by (simp add: set_flow_def)
    then obtain ss st' where s: "stats_walk now msg as ?st = Some (ss, st')" "framed ?st st'" using Cons.IH [OF ok1] by blast
    moreover have "framed st st'"
      by (rule framed_trans [OF _ s(2)]) (use ok1 in \<open>simp add: framed_def set_flow_def\<close>)
    ultimately show ?thesis using fe o True by auto
  next
    case False
    then show ?thesis using Cons.IH [OF Cons.prems(1)] Cons.prems(2) fe o by auto
  qed
qed

lemma tables_ok_sent [simp]: "tables_ok (send_table_msg msg st) = tables_ok st"
proof -
  have "flow_ok (send_table_msg msg st) = flow_ok st" by (simp add: fun_eq_iff flow_ok_def send_table_msg_def)
  then show ?thesis by (simp add: tables_ok_def insts_ok_def send_table_msg_def)
qed

lemma sent_sel [simp]:
  "groups (send_table_msg msg st) = groups st" "meters (send_table_msg msg st) = meters st"
  "tables (send_table_msg msg st) = tables st" "flows (send_table_msg msg st) = flows st"
  by (simp_all add: send_table_msg_def)

text \<open>Writing to groups and meters without touching their references.\<close>

lemma groups_written:
  assumes ok: "tables_ok st" and d: "distinct ks"
    and f: "\<And>e. ge_flow_refs (f e) = ge_flow_refs e" "\<And>e. ge_desc (f e) = ge_desc e"
      "\<And>e. gs_group_id (ge_stats (f e)) = gs_group_id (ge_stats e)"
  shows "framed st (st\<lparr>groups := (groups st)\<lparr>gt_entries := fold (\<lambda>k. hmap_write k f) ks (gt_entries (groups st))\<rparr>\<rparr>)"
proof -
  let ?G = "groups st"
  let ?G' = "?G\<lparr>gt_entries := fold (\<lambda>k. hmap_write k f) ks (gt_entries ?G)\<rparr>"
  have h: "hmap_ok (gt_entries ?G)" "gt_freed ?G = []" using tables_okD(1) [OF ok] by (simp_all add: gok_def)
  have fnd: "gfind ?G' = (\<lambda>k. if k \<in> set ks then map_option f (gfind ?G k) else gfind ?G k)"
    using ht.fold_upd_find [OF h(1) d, of f] by simp
  have gk: "gok ?G'" using ht.fold_upd_invar [OF h(1)] h(2) by (simp add: gok_def)
  have r: "group_refs_ok (flows st) ?G" using ok by (simp add: tables_ok_def)
  have "group_refs_ok (flows st) ?G'"
    unfolding group_refs_ok_def
  proof (rule conjI [OF gk], intro allI impI)
    fix k e assume "gfind ?G' k = Some e"
    then obtain e0 where "gfind ?G k = Some e0" "ge_flow_refs e = ge_flow_refs e0"
      unfolding fnd using f(1) by (auto split: if_splits)
    then show "distinct (ge_flow_refs e) \<and>
        (\<forall>a \<in> set (ge_flow_refs e). \<exists>fe g. flows st a = Some fe \<and> g \<in> set (fe_group_refs fe) \<and> k = ucast g)"
      using group_refsD [OF r] by metis
  qed
  moreover have "group_frame ?G ?G'"
    using f(2,3) unfolding group_frame_def fnd by (simp add: option.map_comp o_def)
  ultimately show ?thesis using tables_ok_groups [OF ok] by (simp add: framed_def)
qed

lemma meters_written:
  assumes ok: "switch_ok st" and d: "distinct ks" and f: "\<And>e. me_flow_refs (f e) = me_flow_refs e"
  shows "switch_ok (st\<lparr>meters := (meters st)\<lparr>mt_entries := fold (\<lambda>k. hmap_write k f) ks (mt_entries (meters st))\<rparr>\<rparr>)"
proof -
  let ?M = "meters st"
  let ?M' = "?M\<lparr>mt_entries := fold (\<lambda>k. hmap_write k f) ks (mt_entries ?M)\<rparr>"
  note t = switch_okD(1) [OF ok]
  have h: "hmap_ok (mt_entries ?M)" "mt_freed ?M = []" using tables_okD(2) [OF t] by (simp_all add: mok_def)
  have fnd: "mfind ?M' = (\<lambda>k. if k \<in> set ks then map_option f (mfind ?M k) else mfind ?M k)"
    using ht.fold_upd_find [OF h(1) d, of f] by simp
  have mk: "mok ?M'" using ht.fold_upd_invar [OF h(1)] h(2) by (simp add: mok_def)
  have r: "meter_refs_ok (flows st) ?M" using t by (simp add: tables_ok_def)
  have "meter_refs_ok (flows st) ?M'"
    unfolding meter_refs_ok_def
  proof (rule conjI [OF mk], intro allI impI)
    fix k e assume "mfind ?M' k = Some e"
    then obtain e0 where "mfind ?M k = Some e0" "me_flow_refs e = me_flow_refs e0"
      unfolding fnd using f by (auto split: if_splits)
    then show "distinct (me_flow_refs e) \<and>
        (\<forall>a \<in> set (me_flow_refs e). \<exists>fe m. flows st a = Some fe \<and> m \<in> set (fe_meter_refs fe) \<and> k = ucast m)"
      using meter_refsD [OF r] by metis
  qed
  moreover have "dom (mfind ?M') = dom (mfind ?M)" unfolding fnd by (auto split: if_splits)
  ultimately show ?thesis using tables_ok_meters [OF t] ok by (simp add: switch_ok_def meter_counts_def)
qed


lemma group_stats_ok:
  assumes ok: "tables_ok st"
  shows "\<exists>r st'. group_table_handle_stats_request_group now g st = Some (r, st') \<and> framed st st' \<and> (r \<noteq> None \<longrightarrow> st' = st)"
proof (cases "g = OFPG_ALL")
  case True
  have d: "distinct (map fst (hm_elems (gt_entries (groups st))))"
    using tables_okD(1) [OF ok] by (simp add: gok_def ht.distinct_elems)
  show ?thesis using groups_written [OF ok d, of "group_entry_update now"] True tables_okD(1) [OF ok]
    by (simp add: group_table_handle_stats_request_group_def for_each_groups framed_def group_entry_update_def Let_def)
next
  case False
  show ?thesis
  proof (cases "gfind (groups st) (ucast g)")
    case None
    then show ?thesis using False ok tables_okD(1) [OF ok]
      by (simp add: group_table_handle_stats_request_group_def group_find_ok framed_def)
  next
    case (Some e)
    then show ?thesis using groups_written [OF ok, of "[ucast g]" "group_entry_update now"] False tables_okD(1) [OF ok]
      by (simp add: group_table_handle_stats_request_group_def group_find_ok framed_def write_group_def group_entry_update_def)
  qed
qed

lemma switch_ok_sent [simp]: "switch_ok (send_table_msg msg st) = switch_ok st"
  by (simp add: switch_ok_def)

lemma meter_stats_ok:
  assumes ok: "switch_ok st"
  shows "\<exists>r st'. meter_table_handle_stats_request_meter now g st = Some (r, st') \<and> switch_ok st' \<and> (r \<noteq> None \<longrightarrow> st' = st)"
proof -
  have mk: "mok (meters st)" by (rule tables_okD(2) [OF switch_okD(1) [OF ok]])
  have d: "distinct (map fst (hm_elems (mt_entries (meters st))))" using mk by (simp add: mok_def ht.distinct_elems)
  have f: "me_flow_refs (meter_entry_update now e) = me_flow_refs e" for e by (simp add: meter_entry_update_def)
  show ?thesis
  proof (cases "g = OFPM_ALL")
    case True
    then show ?thesis using meters_written [OF ok d, of "meter_entry_update now"] f mk
      by (simp add: meter_table_handle_stats_request_meter_def for_each_meters Let_def)
  next
    case False
    then show ?thesis
      using meters_written [OF ok, of "[ucast g]" "meter_entry_update now"] f mk ok
      by (cases "mfind (meters st) (ucast g)")
        (simp_all add: meter_table_handle_stats_request_meter_def meter_find_ok write_meter_def)
  qed
qed

lemma add_tokens_ok:
  assumes ok: "switch_ok st"
  shows "\<exists>st'. meter_table_add_tokens now st = Some st' \<and> switch_ok st'"
proof -
  have mk: "mok (meters st)" by (rule tables_okD(2) [OF switch_okD(1) [OF ok]])
  have d: "distinct (map fst (hm_elems (mt_entries (meters st))))" using mk by (simp add: mok_def ht.distinct_elems)
  show ?thesis using meters_written [OF ok d, of "refill_bucket now"] mk
    by (simp add: meter_table_add_tokens_def for_each_meters refill_bucket_def)
qed

section \<open>Every operation\<close>

text \<open>What an error leaves unchanged.\<close>

definition same_tables :: "dp_tables \<Rightarrow> dp_tables \<Rightarrow> bool" where
  "same_tables st st' \<longleftrightarrow> flows st' = flows st \<and> tables st' = tables st \<and> groups st' = groups st \<and> meters st' = meters st"

lemma same_tables_refl [simp]: "same_tables st st"
  by (simp add: same_tables_def)

lemma table_op_ok:
  assumes ok: "switch_ok st" and safe: "op_safe op st"
  shows "\<exists>r st'. table_op_step parse op st = Some (r, st') \<and> switch_ok st' \<and> (r \<noteq> None \<longrightarrow> same_tables st st')"
proof (cases op)
  case (FlowModOp now ti m)
  then obtain r st' where s: "table_flow_mod now ti m st = Some (r, st')" "flow_mod_result r st st'"
    using table_flow_mod_ok [OF switch_okD(1,4) [OF ok]] safe by blast
  then have "framed st st'" "r \<noteq> None \<longrightarrow> same_tables st st'" by (simp_all add: flow_mod_result_def framed_def same_tables_def)
  then show ?thesis using s(1) framed_ok [OF _ ok] by (simp add: table_op_step_def FlowModOp)
next
  case (GroupModOp now u ps m role)
  then have wf: "group_mod_wf m"
    and all: "gm_command m = OFPGC_DELETE \<and> gm_group_id m = OFPG_ALL \<longrightarrow> unreferred (groups st)"
    using safe by (simp_all add: op_safe_def)
  obtain r st' where "group_table_handle_group_mod now u ps m role st = Some (r, st')" "tables_ok st'"
    "group_inv (groups st')" "length (tables st') = length (tables st)" "meter_frame (meters st) (meters st')"
    "r \<noteq> None \<longrightarrow> st' = st"
    using group_mod_ok [OF switch_okD(1,2) [OF ok] wf all, of now u ps role] by blast
  then show ?thesis using switch_okD [OF ok] meter_counts_frame by (fastforce simp: table_op_step_def GroupModOp switch_ok_def)
next
  case (MeterModOp now m role)
  then have all: "mm_command m = OFPMC_DELETE \<and> mm_meter_id m = OFPM_ALL \<longrightarrow> unmetered (meters st)"
    using safe by (simp add: op_safe_def)
  obtain r st' where "meter_table_handle_meter_mod now m role st = Some (r, st')" "tables_ok st'" "meter_counts (meters st')"
    "length (tables st') = length (tables st)" "group_frame (groups st) (groups st')"
    "r \<noteq> None \<longrightarrow> st' = st"
    using meter_mod_ok [OF switch_okD(1,3) [OF ok] all, of now role] by blast
  then show ?thesis using switch_okD [OF ok] group_inv_frame by (auto simp: table_op_step_def MeterModOp switch_ok_def)
next
  case (TimeoutOp now)
  obtain st' where "pipeline_timeout now [0..<PIPELINE_TABLES] st = Some st'" "framed st st'"
    using pipeline_timeout_ok [OF switch_okD(1) [OF ok], of "[0..<PIPELINE_TABLES]" now] switch_okD(4) [OF ok] by (auto simp: lessThan_atLeast0)
  then show ?thesis using framed_ok [OF _ ok] by (simp add: table_op_step_def TimeoutOp)
next
  case (LookupOp now ti k)
  then have ti: "ti < length (tables st)" using safe switch_okD(4) [OF ok] by (simp add: op_safe_def)
  obtain r k' st' where "flow_table_lookup parse now ti k st = Some (r, k', st')" "tables_ok st'" "groups st' = groups st"
    "meters st' = meters st" "length (tables st') = length (tables st)"
    using flow_table_lookup_ok [OF switch_okD(1) [OF ok] ti, of parse now k] by blast
  then show ?thesis using ok by (simp add: table_op_step_def LookupOp switch_ok_def)
next
  case (FlowStatsOp now ti msg)
  then have ti: "ti < length (tables st)" using safe switch_okD(4) [OF ok] by (simp add: op_safe_def)
  have "\<forall>a \<in> set (ft_match_entries (tables st ! ti)). flows st a \<noteq> None"
    using match_live [OF switch_okD(1) [OF ok] ti] by fastforce
  then obtain ss st' where "stats_walk now msg (ft_match_entries (tables st ! ti)) st = Some (ss, st')" "framed st st'"
    using stats_walk_ok [OF switch_okD(1) [OF ok]] by blast
  then show ?thesis using framed_ok [OF _ ok] by (simp add: table_op_step_def FlowStatsOp flow_table_stats_def)
next
  case (GroupStatsOp now g)
  then show ?thesis using group_stats_ok [OF switch_okD(1) [OF ok], of now g] framed_ok [OF _ ok]
    by (auto simp: table_op_step_def)
next
  case (MeterStatsOp now g)
  then show ?thesis using meter_stats_ok [OF ok, of now g] by (auto simp: table_op_step_def)
next
  case (AddTokensOp now)
  then show ?thesis using add_tokens_ok [OF ok, of now] by (auto simp: table_op_step_def)
qed


lemma reach_ok: "tables_reach parse st \<Longrightarrow> switch_ok st"
proof (induction rule: tables_reach.induct)
  case (reach_init uninit)
  then show ?case by (rule switch_ok_init)
next
  case (reach_op st op r st')
  then show ?case using table_op_ok [OF reach_op.IH, of op parse] by auto
qed

lemma timeout_all_ok:
  assumes ok: "switch_ok st"
  shows "\<exists>st'. pipeline_timeout now [0..<PIPELINE_TABLES] st = Some st' \<and> framed st st' \<and>
    flows st' = (\<lambda>a. if due now st a then None else flows st a)"
proof -
  note t = switch_okD(1) [OF ok] and n = switch_okD(4) [OF ok]
  obtain st' where s: "pipeline_timeout now [0..<PIPELINE_TABLES] st = Some st'" "framed st st'"
    "flows st' = (\<lambda>a. if (\<exists>ti \<in> set [0..<PIPELINE_TABLES]. a \<in> members (flows st) ti) \<and> due now st a then None else flows st a)"
    using pipeline_timeout_ok [OF t, of "[0..<PIPELINE_TABLES]" now] n by (auto simp: lessThan_atLeast0)
  have "\<exists>ti \<in> set [0..<PIPELINE_TABLES]. a \<in> members (flows st) ti" if "due now st a" for a
  proof -
    obtain fe where "flows st a = Some fe" using \<open>due now st a\<close> by (auto simp: due_def expired_def)
    then show ?thesis using tables_okD(5) [OF t, of a fe] n by (auto simp: members_def)
  qed
  then have "flows st' = (\<lambda>a. if due now st a then None else flows st a)" unfolding s(3) by (auto simp: fun_eq_iff)
  with s(1,2) show ?thesis by blast
qed


section \<open>Runs\<close>

text \<open>A run of operations that stops at one that is not safe.\<close>

fun run_safe :: "packet_parser \<Rightarrow> table_op list \<Rightarrow> dp_tables \<Rightarrow> dp_tables option" where
  "run_safe parse [] st = Some st"
| "run_safe parse (op # ops) st =
    (if op_safe op st then do { (r, st1) \<leftarrow> table_op_step parse op st; run_safe parse ops st1 } else None)"

lemma run_safe_reach: "tables_reach parse st \<Longrightarrow> run_safe parse ops st = Some st' \<Longrightarrow> tables_reach parse st'"
  by (induction ops arbitrary: st) (auto split: if_splits bind_splits intro: reach_op)

text \<open>An example: two flows in table 0 that match every packet; the second has the higher priority and a
  hard timeout.\<close>

definition ex_flow_mod :: "flow_mod_command \<Rightarrow> u16 \<Rightarrow> u16 \<Rightarrow> ofl_instruction list \<Rightarrow> ofl_msg_flow_mod" where
  "ex_flow_mod cmd hard prio is =
    \<lparr>fm_cookie = 0, fm_cookie_mask = 0, fm_table_id = 0, fm_command = cmd, fm_idle_timeout = 0, fm_hard_timeout = hard,
     fm_priority = prio, fm_buffer_id = 0xffffffff, fm_out_port = OFPP_ANY, fm_out_group = OFPG_ANY,
     fm_flags = 0, fm_match = ofl_structs_match_init, fm_instructions = is\<rparr>"

definition ex_ops :: "table_op list" where
  "ex_ops = [FlowModOp 1 0 (ex_flow_mod OFPFC_ADD 0 1 []), FlowModOp 3 0 (ex_flow_mod OFPFC_ADD 10 9 [])]"

definition ex_tables :: dp_tables where
  "ex_tables = the (run_safe ex_parse ex_ops (tables_init 0))"

lemma run_safe_ok:
  "switch_ok st \<Longrightarrow> \<forall>op \<in> set ops. \<forall>st. op_safe op st \<Longrightarrow> \<exists>st'. run_safe parse ops st = Some st'"
proof (induction ops arbitrary: st)
  case Nil
  then show ?case by simp
next
  case (Cons op ops)
  then obtain r st1 where "table_op_step parse op st = Some (r, st1)" "switch_ok st1"
    using table_op_ok [of st op parse] by auto
  then show ?case using Cons by auto
qed

lemma ex_reach: "tables_reach ex_parse ex_tables"
proof -
  have "\<exists>st. run_safe ex_parse ex_ops (tables_init 0) = Some st"
    by (rule run_safe_ok [OF switch_ok_init]) (simp add: ex_ops_def op_safe_def PIPELINE_TABLES_def ex_flow_mod_def)
  then show ?thesis using run_safe_reach [OF reach_init [of ex_parse 0]] by (auto simp: ex_tables_def)
qed

definition ex_frame :: packet where
  "ex_frame = packet_create ex_parse False 1 ex_buf False"

lemma hits_code [code]:
  "hits parse k st a = (case flows st a of None \<Rightarrow> False
     | Some fe \<Rightarrow> m_type (fs_match (fe_stats fe)) = OFPMT_OXM \<and>
         hs_valid (validated parse k) \<and> packet_match (fs_match (fe_stats fe)) (hs_match (validated parse k)))"
  by (auto simp: hits_def split: option.splits)

lemma ex_flow: "flows ex_tables 3 = Some (created_flow 3 0 (ex_flow_mod OFPFC_ADD 10 9 []) 2 [])"
  by code_simp

lemma ex_hit: "hits ex_parse ex_frame ex_tables 3"
proof -
  have "hs_valid (validated ex_parse ex_frame) \<and> packet_match ofl_structs_match_init (hs_match (validated ex_parse ex_frame))"
    by code_simp
  then show ?thesis unfolding hits_def ex_flow
    by (simp add: created_flow_def new_flow_def ex_flow_mod_def ofl_structs_match_init_def)
qed

section \<open>What the conditions exclude\<close>

text \<open>A modification that matches two entries gives both the same array of instructions; deleting the two
  entries afterwards frees it twice.\<close>

definition ex_one_table :: dp_tables where
  "ex_one_table = (tables_init 0)\<lparr>tables := [flow_table_create 0]\<rparr>"

lemma modify_two_double_free:
  "(do { (e1, st1) \<leftarrow> table_flow_mod 1 0 (ex_flow_mod OFPFC_ADD 0 1 []) ex_one_table;
         (e2, st2) \<leftarrow> table_flow_mod 2 0 (ex_flow_mod OFPFC_ADD 0 9 []) st1;
         (e3, st3) \<leftarrow> table_flow_mod 3 0 (ex_flow_mod OFPFC_MODIFY 0 0 [ClearActions]) st2;
         (e4, st4) \<leftarrow> table_flow_mod 4 0 (ex_flow_mod OFPFC_DELETE 0 0 []) st3;
         Some () }) = None"
  by code_simp


text \<open>Deleting all groups frees a group while the table still links to it; removing a flow that refers to
  the next group of the same bucket then walks over it.\<close>

definition ex_group_mod :: "group_mod_command \<Rightarrow> u32 \<Rightarrow> ofl_msg_group_mod" where
  "ex_group_mod cmd g = \<lparr>gm_command = cmd, gm_type = OFPGT_ALL, gm_group_id = g, gm_buckets = []\<rparr>"

declare hmap_for_each_loop.simps [code]

lemma delete_all_groups_fault:
  "(do { (e1, st1) \<leftarrow> group_table_add 0 (ex_group_mod OFPGC_ADD 1) ex_one_table;
         (e2, st2) \<leftarrow> group_table_add 0 (ex_group_mod OFPGC_ADD 5) st1;
         (e3, st3) \<leftarrow> table_flow_mod 1 0 (ex_flow_mod OFPFC_ADD 0 1 [ApplyActions [Group 1]]) st2;
         (e4, st4) \<leftarrow> table_flow_mod 1 0 (ex_flow_mod OFPFC_ADD 0 2 [ApplyActions [Group 5]]) st3;
         (e5, st5) \<leftarrow> group_table_delete 2 (ex_group_mod OFPGC_DELETE OFPG_ALL) st4;
         Some () }) = None"
  by code_simp


section \<open>Properties\<close>

text \<open>C1. No operation on the tables faults: from every state that safe operations reach, a safe operation
  returns, follows no pointer to freed memory, and leaves the lists, references and counters of the
  flow, group and meter tables consistent.\<close>

theorem tables_never_fault:
  assumes "tables_reach parse st" and "op_safe op st"
  shows "\<exists>r st'. table_op_step parse op st = Some (r, st') \<and> switch_ok st'"
  using table_op_ok [OF reach_ok [OF assms(1)] assms(2), of parse] by blast

theorem tables_never_fault_witness:
  "\<exists>r st'. table_op_step ex_parse (FlowModOp 5 0 (ex_flow_mod OFPFC_DELETE 0 0 [])) ex_tables = Some (r, st') \<and> switch_ok st'"
  by (rule tables_never_fault [OF ex_reach]) (simp add: op_safe_def PIPELINE_TABLES_def ex_flow_mod_def)

text \<open>C13. An operation that answers with an error leaves the flows, the flow tables, the groups and the meters as
  they were.\<close>

theorem table_errors_change_nothing:
  assumes "tables_reach parse st" and "op_safe op st" and "table_op_step parse op st = Some (Some e, st')"
  shows "flows st' = flows st \<and> tables st' = tables st \<and> groups st' = groups st \<and> meters st' = meters st"
  using table_op_ok [OF reach_ok [OF assms(1)] assms(2), of parse] assms(3) by (auto simp: same_tables_def)

theorem table_errors_change_nothing_witness:
  "\<exists>st'. table_op_step ex_parse (FlowModOp 5 0 (ex_flow_mod (OFPFC_OTHER 7) 0 0 [])) ex_tables = Some (Some OFPFMFC_BAD_COMMAND, st') \<and>
    flows st' = flows ex_tables"
proof -
  let ?op = "FlowModOp 5 0 (ex_flow_mod (OFPFC_OTHER 7) 0 0 [])"
  have safe: "op_safe ?op ex_tables" by (simp add: op_safe_def PIPELINE_TABLES_def ex_flow_mod_def)
  have "length (tables ex_tables) = 64" using reach_ok [OF ex_reach] by (simp add: switch_ok_def PIPELINE_TABLES_def)
  then obtain st' where "table_op_step ex_parse ?op ex_tables = Some (Some OFPFMFC_BAD_COMMAND, st')"
    by (simp add: table_op_step_def table_flow_mod_def flow_table_flow_mod_def ex_flow_mod_def free_insts_def alloc_insts_def Let_def)
  then show ?thesis using table_errors_change_nothing [OF ex_reach safe] by blast
qed

text \<open>C2. The lookup of a packet in a flow table returns an entry of the table with the highest priority among
  those whose match the packet satisfies, counts the packet on it, and returns none only when no
  entry matches.\<close>

theorem lookup_highest_priority:
  assumes "tables_reach parse st" and "ti < PIPELINE_TABLES"
  shows "\<exists>r k' st'. flow_table_lookup parse now ti k st = Some (r, k', st') \<and>
    (case r of
       None \<Rightarrow> \<forall>b. b \<in> members (flows st) ti \<longrightarrow> \<not> hits parse k st b
     | Some a \<Rightarrow> a \<in> members (flows st) ti \<and> hits parse k st a \<and>
         (\<forall>b. b \<in> members (flows st) ti \<and> hits parse k st b \<longrightarrow> prio_of (flows st) b \<le> prio_of (flows st) a) \<and>
         flows st' = (flows st)(a := map_option (count_match now (length (pkt_data k))) (flows st a)))"
proof -
  note ok = switch_okD(1) [OF reach_ok [OF assms(1)]]
  have ti: "ti < length (tables st)" using assms(2) switch_okD(4) [OF reach_ok [OF assms(1)]] by simp
  let ?xs = "ft_match_entries (tables st ! ti)"
  have l: "set ?xs = members (flows st) ti" "sorted_wrt (\<lambda>a b. prio_of (flows st) b \<le> prio_of (flows st) a) ?xs"
    using tables_okD(3) [OF ok ti] by (simp_all add: listed_def)
  obtain k' st' where s: "flow_table_lookup parse now ti k st = Some (find (hits parse k st) ?xs, k', st')"
    "flows st' = (case find (hits parse k st) ?xs of None \<Rightarrow> flows st
       | Some a \<Rightarrow> (flows st)(a := map_option (count_match now (length (pkt_data k))) (flows st a)))"
    using flow_table_lookup_ok [OF ok ti, of parse now k] by blast
  show ?thesis
  proof (cases "find (hits parse k st) ?xs")
    case None
    then have "\<forall>b. b \<in> members (flows st) ti \<longrightarrow> \<not> hits parse k st b" using l(1) by (simp add: find_None_iff)
    then show ?thesis using s(1) None by auto
  next
    case (Some a)
    have a: "a \<in> members (flows st) ti" "hits parse k st a" using Some l(1) by (auto simp: find_Some_iff)
    have "prio_of (flows st) b \<le> prio_of (flows st) a" if "b \<in> members (flows st) ti" "hits parse k st b" for b
      using find_first_of_sorted [OF l(2) Some, of b] that l(1) by auto
    then show ?thesis using s a Some by auto
  qed
qed

theorem lookup_highest_priority_witness:
  "\<exists>a k' st'. flow_table_lookup ex_parse 7 0 ex_frame ex_tables = Some (Some a, k', st') \<and> 9 \<le> prio_of (flows ex_tables) a"
proof -
  have three: "3 \<in> members (flows ex_tables) 0" "prio_of (flows ex_tables) 3 = 9"
    by (simp_all add: members_def prio_of_def ex_flow created_flow_def new_flow_def ex_flow_mod_def)
  obtain r k' st' where "flow_table_lookup ex_parse 7 0 ex_frame ex_tables = Some (r, k', st')"
    "case r of
       None \<Rightarrow> \<forall>b. b \<in> members (flows ex_tables) 0 \<longrightarrow> \<not> hits ex_parse ex_frame ex_tables b
     | Some a \<Rightarrow> a \<in> members (flows ex_tables) 0 \<and> hits ex_parse ex_frame ex_tables a \<and>
         (\<forall>b. b \<in> members (flows ex_tables) 0 \<and> hits ex_parse ex_frame ex_tables b \<longrightarrow>
            prio_of (flows ex_tables) b \<le> prio_of (flows ex_tables) a) \<and>
         flows st' = (flows ex_tables)(a := map_option (count_match 7 (length (pkt_data ex_frame))) (flows ex_tables a))"
    using lookup_highest_priority [OF ex_reach, of 0 7 ex_frame] by (auto simp: PIPELINE_TABLES_def)
  then show ?thesis using three ex_hit by (cases r) fastforce+
qed

text \<open>C7. The timer removes exactly the entries whose hard or idle timeout has passed.\<close>

theorem timeout_removes_due:
  assumes "tables_reach parse st"
  shows "\<exists>st'. pipeline_timeout now [0..<PIPELINE_TABLES] st = Some st' \<and>
    flows st' = (\<lambda>a. case flows st a of None \<Rightarrow> None
       | Some fe \<Rightarrow> if hard_expired now fe \<or> idle_expired now fe then None else Some fe)"
proof -
  obtain st' where "pipeline_timeout now [0..<PIPELINE_TABLES] st = Some st'"
    "flows st' = (\<lambda>a. if due now st a then None else flows st a)"
    using timeout_all_ok [OF reach_ok [OF assms], of now] by blast
  moreover have "(if due now st a then None else flows st a) = (case flows st a of None \<Rightarrow> None
       | Some fe \<Rightarrow> if hard_expired now fe \<or> idle_expired now fe then None else Some fe)" for a
    by (auto simp: due_def expired_def split: option.splits)
  ultimately show ?thesis by simp
qed

theorem timeout_removes_due_witness:
  "\<exists>st'. pipeline_timeout 10004 [0..<PIPELINE_TABLES] ex_tables = Some st' \<and> flows st' 3 = None"
  using timeout_removes_due [OF ex_reach, of 10004]
  by (auto simp: ex_flow created_flow_def new_flow_def ex_flow_mod_def hard_expired_def)


text \<open>The outcomes of an addition, for the properties below.\<close>

lemma table_add_cases:
  assumes ok: "tables_ok st" and ti: "ti < length (tables st)" and cmd: "fm_command m = OFPFC_ADD"
  obtains st' where "table_flow_mod now ti m st = Some (Some OFPFMFC_OVERLAP, st')" "fm_flags m AND OFPFF_CHECK_OVERLAP \<noteq> 0"
  | st' where "table_flow_mod now ti m st = Some (Some OFPFMFC_TABLE_FULL, st')"
      "length (ft_match_entries (tables st ! ti)) = 4096"
  | st' where "table_flow_mod now ti m st = Some (None, st')"
      "added now ti m (next_addr st) (fm_instructions m) (alloc_insts (fm_instructions m) st) st'"
proof -
  let ?st = "alloc_insts (fm_instructions m) st" and ?ia = "next_addr st"
  let ?ov = "fm_flags m AND OFPFF_CHECK_OVERLAP \<noteq> 0"
  note al = alloc_ok [OF ok, of "fm_instructions m"]
  have h: "flow_table_flow_mod now ti m ?ia ?st = flow_table_add now ti m ?ia ?ov ?st"
    using ti cmd by (simp add: flow_table_flow_mod_def)
  have free: "free_insts ?ia ?st = Some (?st\<lparr>insts := (insts ?st)(?ia := None)\<rparr>)" by (simp add: free_insts_def)
  consider "flow_table_add now ti m ?ia ?ov ?st = Some (Some OFPFMFC_OVERLAP, False, ?st)" "?ov"
    | "flow_table_add now ti m ?ia ?ov ?st = Some (Some OFPFMFC_TABLE_FULL, False, ?st)"
      "length (ft_match_entries (tables st ! ti)) = 4096"
    | st' where "flow_table_add now ti m ?ia ?ov ?st = Some (None, True, st')" "added now ti m ?ia (fm_instructions m) ?st st'"
    using flow_table_add_ok [OF al(1) _ al(2), of ti now m ?ov] ti by (auto simp: FLOW_TABLE_MAX_ENTRIES_def)
  then show thesis
    by cases (use free in \<open>auto simp: table_flow_mod_def h Let_def intro: that\<close>)
qed

lemma added_flow:
  assumes "added now ti m (next_addr st) is (alloc_insts is st) st'"
  shows "flows st' (Suc (next_addr st)) = Some (created_flow now ti m (next_addr st) is)"
    and "ft_match_entries (tables st' ! ti) = insert_before (\<lambda>x. prio_of (flows st) x < fm_priority m) (Suc (next_addr st)) (ft_match_entries (tables st ! ti)) \<or>
        (\<exists>e fe. flows st e = Some fe \<and> flow_entry_matches fe m True False \<and>
           ft_match_entries (tables st' ! ti) = replace1 e (Suc (next_addr st)) (ft_match_entries (tables st ! ti)))"
proof -
  have n: "next_addr (alloc_insts is st) = Suc (next_addr st)" by (simp add: alloc_insts_def)
  show "flows st' (Suc (next_addr st)) = Some (created_flow now ti m (next_addr st) is)"
    and "ft_match_entries (tables st' ! ti) = insert_before (\<lambda>x. prio_of (flows st) x < fm_priority m) (Suc (next_addr st)) (ft_match_entries (tables st ! ti)) \<or>
        (\<exists>e fe. flows st e = Some fe \<and> flow_entry_matches fe m True False \<and>
           ft_match_entries (tables st' ! ti) = replace1 e (Suc (next_addr st)) (ft_match_entries (tables st ! ti)))"
    using assms unfolding added_def n alloc_sel by auto
qed






text \<open>C14. Deleting flows removes exactly the entries of the table that the message selects: the cookie, the match,
  with the strict command also the priority, and the filters on the output port and group.\<close>

theorem flow_delete_exact:
  assumes "tables_reach parse st" and "ti < PIPELINE_TABLES"
    and "fm_command m = (if strict then OFPFC_DELETE_STRICT else OFPFC_DELETE)"
  shows "\<exists>st'. table_flow_mod now ti m st = Some (None, st') \<and>
    flows st' = (\<lambda>a. case flows st a of None \<Rightarrow> None
      | Some fe \<Rightarrow> if fe_table fe = ti \<and> out_filter st fe (fm_out_port m) (fm_out_group m) = Some True \<and>
                     flow_entry_matches fe m strict True then None else Some fe)"
proof -
  let ?a = "alloc_insts (fm_instructions m) st"
  have ok: "tables_ok st" "ti < length (tables st)" using switch_okD(1,4) [OF reach_ok [OF assms(1)]] assms(2) by simp_all
  obtain st' where s: "table_flow_mod now ti m st = Some (None, st')"
    "flows st' = (\<lambda>a. if a \<in> members (flows st) ti \<and> selected m strict ?a a then None else flows st a)"
    using table_delete_ok [OF ok assms(3), of now] by blast
  have "out_filter ?a fe p g = out_filter st fe p g" if "flows st a = Some fe" for a fe p g
  proof (rule out_filter_cong)
    have "fs_instructions (fe_stats fe) < next_addr st" using ok(1) that unfolding tables_ok_def insts_ok_def by blast
    then show "insts ?a (fs_instructions (fe_stats fe)) = insts st (fs_instructions (fe_stats fe))" by (simp add: alloc_insts_def)
  qed
  then have "flows st' a = (case flows st a of None \<Rightarrow> None
      | Some fe \<Rightarrow> if fe_table fe = ti \<and> out_filter st fe (fm_out_port m) (fm_out_group m) = Some True \<and>
                     flow_entry_matches fe m strict True then None else Some fe)" for a
    by (cases "flows st a") (auto simp: s(2) members_def selected_def)
  with s(1) show ?thesis by auto
qed

theorem flow_delete_exact_witness:
  "\<exists>st'. table_flow_mod 6 0 (ex_flow_mod OFPFC_DELETE_STRICT 0 4 []) ex_tables = Some (None, st') \<and> flows st' 3 = flows ex_tables 3"
proof -
  let ?m = "ex_flow_mod OFPFC_DELETE_STRICT 0 4 []"
  have "0 < PIPELINE_TABLES" "fm_command ?m = (if True then OFPFC_DELETE_STRICT else OFPFC_DELETE)"
    by (simp_all add: PIPELINE_TABLES_def ex_flow_mod_def)
  from flow_delete_exact [OF ex_reach this, of 6] show ?thesis
    by (auto simp: ex_flow flow_entry_matches_def created_flow_def new_flow_def ex_flow_mod_def)
qed

text \<open>C8. The search for loops always ends, and it accepts a group modification exactly when the modified group cannot
  be reached from the groups its buckets name.\<close>

theorem loop_check_exact:
  assumes "tables_reach parse st"
  shows "is_loop_free st m = Some (gm_group_id m \<notin> (edges (groups st))\<^sup>* `` set (bucket_groups (gm_buckets m)))"
  by (rule is_loop_free_ok [OF tables_okD(1) [OF switch_okD(1) [OF reach_ok [OF assms]]]])

theorem loop_check_exact_witness:
  "is_loop_free ex_tables (ex_group_mod OFPGC_MODIFY 3) = Some True"
  using loop_check_exact [OF ex_reach, of "ex_group_mod OFPGC_MODIFY 3"] by (simp add: ex_group_mod_def bucket_groups_def)

text \<open>C5. The groups never form a cycle, every group that a bucket names exists, and the table keeps its limits: at
  most 4096 groups with at most 8192 buckets in all, both counted exactly.\<close>

theorem groups_acyclic_bounded:
  assumes "tables_reach parse st"
  shows "acyclic (edges (groups st)) \<and> groups_closed (groups st) \<and>
    unat (gt_entries_num (groups st)) = card (dom (gfind (groups st))) \<and> card (dom (gfind (groups st))) \<le> 4096 \<and>
    unat (gt_buckets_num (groups st)) = total_buckets (groups st) \<and> total_buckets (groups st) \<le> 8192"
proof -
  have "group_inv (groups st)" by (rule switch_okD(2) [OF reach_ok [OF assms]])
  then show ?thesis
    by (auto simp: group_inv_def group_counts_def GROUP_TABLE_MAX_ENTRIES_def GROUP_TABLE_MAX_BUCKETS_def unsigned_of_nat take_bit_nat_eq_self)
qed

theorem groups_acyclic_bounded_witness:
  "acyclic (edges (groups ex_tables)) \<and> card (dom (gfind (groups ex_tables))) \<le> 4096"
  using groups_acyclic_bounded [OF ex_reach] by simp





end
