(* ===== verification/Spec2Isabelle.thy ===== *)
theory Spec2Isabelle
  imports Packet_Buffers Mac_Table Match_Masks Table_Safety
begin

text \<open>
  Verification of the OpenFlow 1.3 software switch with in-band eHDDP discovery.
\<close>

end
